(* ===== verification/Tas_Prelude.thy ===== *)
theory Tas_Prelude
  imports Main "HOL-Library.Word" "HOL-Library.Monad_Syntax"
begin

unbundle bit_operations_syntax

text \<open>
  Shared vocabulary of the development: the C integer types as words, byte memory with checked
  reads and writes, assertions as options, and the generic facts on words and lists that the
  component theories use.

  An abort, a failed \<open>assert\<close> and an access outside an object are all modelled as \<open>None\<close> of
  an option type; a C return code is an ordinary value inside \<open>Some\<close>.
\<close>

type_synonym u8 = "8 word"
type_synonym u16 = "16 word"
type_synonym u32 = "32 word"
type_synonym u64 = "64 word"
type_synonym bytes = "u8 list"

named_theorems mem_simps \<open>equations for checked byte memory\<close>
named_theorems word_facts \<open>facts that read words as natural numbers\<close>

section \<open>Assertions\<close>

definition c_assert :: "bool \<Rightarrow> unit option" where
  "c_assert b = (if b then Some () else None)"

lemma c_assert_simps [simp]:
  "c_assert True = Some ()"
  "c_assert False = None"
  "c_assert b = Some u \<longleftrightarrow> b"
  "c_assert b = None \<longleftrightarrow> \<not> b"
  by (simp_all add: c_assert_def)

lemma bind_eq_Some_iff [simp]:
  "Option.bind m f = Some y \<longleftrightarrow> (\<exists>x. m = Some x \<and> f x = Some y)"
  by (cases m) auto

section \<open>Byte memory\<close>

text \<open>
  \<open>mem_read b off n\<close> and \<open>mem_write b off src\<close> are \<open>memcpy\<close> from and to an object \<open>b\<close>;
  both fail when the range leaves the object.
\<close>

definition mem_read :: "'a list \<Rightarrow> nat \<Rightarrow> nat \<Rightarrow> 'a list option" where
  "mem_read b off n = (if off + n \<le> length b then Some (take n (drop off b)) else None)"

definition mem_write :: "'a list \<Rightarrow> nat \<Rightarrow> 'a list \<Rightarrow> 'a list option" where
  "mem_write b off src =
     (if off + length src \<le> length b
      then Some (take off b @ src @ drop (off + length src) b) else None)"

definition mem_splice :: "'a list \<Rightarrow> nat \<Rightarrow> 'a list \<Rightarrow> 'a list" where
  "mem_splice b off src = take off b @ src @ drop (off + length src) b"

lemma mem_write_Some_iff:
  "mem_write b off src = Some b' \<longleftrightarrow> off + length src \<le> length b \<and> b' = mem_splice b off src"
  by (auto simp: mem_write_def mem_splice_def)

lemma mem_write_ok [mem_simps]:
  "off + length src \<le> length b \<Longrightarrow> mem_write b off src = Some (mem_splice b off src)"
  by (simp add: mem_write_Some_iff)

lemma mem_read_ok [mem_simps]:
  "off + n \<le> length b \<Longrightarrow> mem_read b off n = Some (take n (drop off b))"
  by (simp add: mem_read_def)

lemma length_mem_splice [mem_simps]:
  "off + length src \<le> length b \<Longrightarrow> length (mem_splice b off src) = length b"
  by (simp add: mem_splice_def)

lemma nth_mem_splice:
  assumes "off + length src \<le> length b" and "i < length b"
  shows "mem_splice b off src ! i =
     (if off \<le> i \<and> i < off + length src then src ! (i - off) else b ! i)"
  using assms by (auto simp: mem_splice_def nth_append min_def)

lemma mem_splice_Nil [simp]: "mem_splice b off [] = b"
  by (simp add: mem_splice_def)

lemma mem_splice_same:
  assumes "off + length src \<le> length b"
  shows "take (length src) (drop off (mem_splice b off src)) = src"
  using assms by (simp add: mem_splice_def)

lemma take_drop_append [simp]: "take n xs @ drop n xs @ zs = xs @ zs"
  by (metis append_assoc append_take_drop_id)

lemma mem_splice_same_n:
  assumes "off + length src \<le> length b" and "n = length src"
  shows "take n (drop off (mem_splice b off src)) = src"
  using assms by (simp add: mem_splice_same)

lemma mem_splice_other:
  assumes "off + length src \<le> length b" and "p + n \<le> length b"
    and "p + n \<le> off \<or> off + length src \<le> p"
  shows "take n (drop p (mem_splice b off src)) = take n (drop p b)"
  using assms
  by (intro nth_equalityI) (auto simp: nth_mem_splice length_mem_splice)

section \<open>Words as numbers\<close>

lemma unat_add_no_wrap [word_facts]:
  fixes x y :: "'a::len word"
  assumes "unat x + unat y < 2 ^ LENGTH('a)"
  shows "unat (x + y) = unat x + unat y"
  using assms by (simp add: unat_word_ariths)

lemma unat_sub_le [word_facts]:
  fixes x y :: "'a::len word"
  assumes "unat y \<le> unat x"
  shows "unat (x - y) = unat x - unat y"
  using assms by (simp add: unat_sub word_le_nat_alt)

lemma unat_lt_u16 [simp]: "unat (x :: u16) < 65536"
  using unsigned_less [of x, where ?'a = nat] by simp

lemma unat_lt_u32 [simp]: "unat (x :: u32) < 4294967296"
  using unsigned_less [of x, where ?'a = nat] by simp

lemma unat_lt_u64 [simp]: "unat (x :: u64) < 18446744073709551616"
  using unsigned_less [of x, where ?'a = nat] by simp

lemma unat_ucast_up:
  assumes "LENGTH('a::len) \<le> LENGTH('b::len)"
  shows "unat (ucast (x :: 'a word) :: 'b word) = unat x"
proof -
  have "unat x < 2 ^ LENGTH('a)" by (rule unsigned_less)
  also have "(2 :: nat) ^ LENGTH('a) \<le> 2 ^ LENGTH('b)" using assms by (simp add: power_increasing)
  finally show ?thesis by (simp add: unsigned_ucast_eq take_bit_nat_eq_self)
qed

lemma unat_ucast_widen [simp]:
  "unat (ucast (a :: u8) :: u16) = unat a"
  "unat (ucast (a :: u8) :: u32) = unat a"
  "unat (ucast (b :: u16) :: u32) = unat b"
  "unat (ucast (b :: u16) :: u64) = unat b"
  "unat (ucast (c :: u32) :: u64) = unat c"
  by (simp_all add: unat_ucast_up)

lemma unat_ucast_narrow [word_facts]:
  "unat (ucast (c :: u32) :: u16) = unat c mod 65536"
  "unat (ucast (d :: u64) :: u32) = unat d mod 4294967296"
  by (simp_all add: unsigned_ucast_eq take_bit_eq_mod)

lemma unat_of_nat_small:
  "n < 2 ^ LENGTH('a) \<Longrightarrow> unat (of_nat n :: 'a::len word) = n"
  by (simp add: unsigned_of_nat take_bit_nat_eq_self)

lemma ucast_of_nat_small:
  "n < 2 ^ LENGTH('a) \<Longrightarrow> ucast (of_nat n :: 'a::len word) = (of_nat n :: 'b::len word)"
  by (rule word_unat_eq_iff [THEN iffD2]) (simp add: unsigned_ucast_eq unsigned_of_nat take_bit_nat_eq_self)

text \<open>A ring position after a step of at most one round, as the C code computes it.\<close>

lemma wrapped_pos:
  assumes "unat p < unat l" "unat d \<le> unat l" "unat (l::u32) \<le> 2147483648"
  shows "unat (if p + d \<ge> l then p + d - l else p + d) = (unat p + unat d) mod unat l"
proof -
  have a: "unat (p + d) = unat p + unat d" using assms by (subst unat_add_no_wrap) simp_all
  show ?thesis
  proof (cases "p + d \<ge> l")
    case True
    then have "unat (p + d - l) = unat p + unat d - unat l" using a by (subst unat_sub_le) (simp_all add: word_le_nat_alt)
    moreover have "(unat p + unat d) mod unat l = unat p + unat d - unat l"
      using True a assms by (subst mod_if) (auto simp: word_le_nat_alt mod_if)
    ultimately show ?thesis using True by simp
  next
    case False
    then show ?thesis using a by (simp add: word_le_nat_alt)
  qed
qed

section \<open>Circular slices\<close>

text \<open>
  \<open>circ_slice b pos n\<close> reads \<open>n\<close> elements of the ring \<open>b\<close> from position \<open>pos\<close>, and
  \<open>circ_splice b pos src\<close> overwrites them: the reference semantics of every ring buffer below.
\<close>

definition circ_slice :: "'a list \<Rightarrow> nat \<Rightarrow> nat \<Rightarrow> 'a list" where
  "circ_slice b pos n = map (\<lambda>i. b ! ((pos + i) mod length b)) [0..<n]"

definition circ_splice :: "'a list \<Rightarrow> nat \<Rightarrow> 'a list \<Rightarrow> 'a list" where
  "circ_splice b pos src =
     map (\<lambda>i. let k = (i + length b - pos) mod length b
               in if k < length src then src ! k else b ! i) [0..<length b]"

lemma length_circ_slice [simp]: "length (circ_slice b pos n) = n"
  by (simp add: circ_slice_def)

lemma length_circ_splice [simp]: "length (circ_splice b pos src) = length b"
  by (simp add: circ_splice_def)

lemma nth_circ_slice: "i < n \<Longrightarrow> circ_slice b pos n ! i = b ! ((pos + i) mod length b)"
  by (simp add: circ_slice_def)

lemma circ_slice_add:
  "circ_slice b pos (m + n) = circ_slice b pos m @ circ_slice b (pos + m) n"
  by (intro nth_equalityI) (auto simp: nth_circ_slice nth_append add.assoc)

lemma circ_slice_mod: "circ_slice b (pos mod length b) n = circ_slice b pos n"
  by (simp add: circ_slice_def mod_simps)

lemma circ_slice_flat:
  assumes "pos + n \<le> length b"
  shows "circ_slice b pos n = take n (drop pos b)"
  using assms by (intro nth_equalityI) (auto simp: nth_circ_slice)

lemma mod_below_twice:
  fixes x n :: nat
  assumes "x < 2 * n"
  shows "x mod n = (if x < n then x else x - n)"
  using assms by (auto simp: mod_if [of x n])

lemma ring_distance:
  fixes pos k n :: nat
  assumes "pos < n" and "k < n"
  shows "((pos + k) mod n + n - pos) mod n = k"
proof (cases "pos + k < n")
  case True
  with assms show ?thesis by (simp add: mod_below_twice)
next
  case False
  then have "(pos + k) mod n = pos + k - n" using assms by (subst mod_below_twice) auto
  with False assms show ?thesis by simp
qed

lemma ring_distance_rev:
  fixes pos i n :: nat
  assumes "pos < n" and "i < n"
  shows "(i + n - pos) mod n = (if pos \<le> i then i - pos else i + n - pos)"
proof -
  have "i + n - pos < 2 * n" using assms by arith
  then show ?thesis using assms by (auto simp: mod_below_twice)
qed

lemma circ_slice_wrap:
  assumes "pos < length b" and "n \<le> length b" and "length b < pos + n"
  shows "circ_slice b pos n = drop pos b @ take (n - (length b - pos)) b"
proof (intro nth_equalityI)
  fix i assume "i < length (circ_slice b pos n)"
  then have i: "i < n" by simp
  have "pos + i < 2 * length b" using assms i by arith
  then have "(pos + i) mod length b = (if pos + i < length b then pos + i else pos + i - length b)"
    by (rule mod_below_twice)
  with assms i show "circ_slice b pos n ! i = (drop pos b @ take (n - (length b - pos)) b) ! i"
    by (auto simp: nth_circ_slice nth_append add.commute)
qed (use assms in simp)

lemma nth_circ_splice_at:
  assumes "pos < length b" and "k < length b"
  shows "circ_splice b pos src ! ((pos + k) mod length b) =
     (if k < length src then src ! k else b ! ((pos + k) mod length b))"
proof -
  have "(pos + k) mod length b < length b" using assms by (intro mod_less_divisor) arith
  then show ?thesis using assms by (simp add: circ_splice_def ring_distance Let_def)
qed

lemma circ_splice_slice_same:
  assumes "pos < length b" and "length src \<le> length b"
  shows "circ_slice (circ_splice b pos src) pos (length src) = src"
  using assms by (intro nth_equalityI) (auto simp: nth_circ_slice nth_circ_splice_at)

lemma circ_splice_slice_other:
  assumes "pos < length b" and "length src \<le> k" and "k + m \<le> length b"
  shows "circ_slice (circ_splice b pos src) (pos + k) m = circ_slice b (pos + k) m"
  using assms by (intro nth_equalityI) (auto simp: nth_circ_slice nth_circ_splice_at add.assoc)

lemma circ_splice_flat:
  assumes "pos < length b" and "pos + length src \<le> length b"
  shows "circ_splice b pos src = mem_splice b pos src"
  using assms
  by (intro nth_equalityI)
    (auto simp: circ_splice_def nth_mem_splice ring_distance_rev Let_def mem_simps)

lemma circ_splice_wrap:
  assumes "pos < length b" and "length src \<le> length b" and "length b < pos + length src"
  shows "circ_splice b pos src =
     mem_splice (mem_splice b pos (take (length b - pos) src)) 0 (drop (length b - pos) src)"
proof (intro nth_equalityI)
  fix i assume "i < length (circ_splice b pos src)"
  then have i: "i < length b" by simp
  have len: "length (mem_splice b pos (take (length b - pos) src)) = length b"
    using assms by (simp add: mem_simps)
  show "circ_splice b pos src ! i =
     mem_splice (mem_splice b pos (take (length b - pos) src)) 0 (drop (length b - pos) src) ! i"
  proof (cases "pos \<le> i")
    case True
    then have "\<not> i < length src - (length b - pos)" and "i - pos < length src"
      using assms i by arith+
    with True assms i len show ?thesis
      by (auto simp: circ_splice_def nth_mem_splice ring_distance_rev Let_def)
  next
    case False
    with assms i len show ?thesis
      by (auto simp: circ_splice_def nth_mem_splice ring_distance_rev Let_def add.commute)
  qed
qed (use assms in \<open>simp add: mem_simps\<close>)

end
