(* ===== verification/Circ.thy ===== *)
theory Circ
  imports Tas_Prelude
begin

text \<open>
  The circular-buffer helpers of \<open>src/include/utils_circ.h\<close>. Sizes and positions are
  \<open>size_t\<close>, so 64-bit words whose sums wrap; a buffer is a byte list and every \<open>memcpy\<close> is a
  checked access, so that an out-of-range access is \<open>None\<close>. The lemmas show that the one- and
  two-range accesses agree with the reference ring accesses \<open>circ_slice\<close> and
  \<open>circ_splice\<close>, and that a split buffer behaves as the concatenation of its two halves.
\<close>

section \<open>Model\<close>

definition circ_range :: "u64 \<Rightarrow> u64 \<Rightarrow> u64 \<Rightarrow> int \<times> u64 \<times> u64 \<times> u64 option" where
  "circ_range b_len pos len =
     (if pos + len \<le> b_len then (0, pos, len, None)
      else let l = b_len - pos in (1, pos, l, Some 0))"

definition circ_offset :: "u64 \<Rightarrow> u64 \<Rightarrow> u64 \<Rightarrow> u64" where
  "circ_offset pos len off =
     (let pos = pos + off in if pos \<ge> len then pos - len else pos)"

definition circ_in_interval :: "u64 \<Rightarrow> u64 \<Rightarrow> u64 \<Rightarrow> u64 \<Rightarrow> bool" where
  "circ_in_interval start end len pos =
     (if start < end then pos \<ge> start \<and> pos \<le> end else pos \<ge> start \<or> pos \<le> end)"

definition circ_read :: "bytes \<Rightarrow> u64 \<Rightarrow> u64 \<Rightarrow> u64 \<Rightarrow> bytes option" where
  "circ_read b b_len pos len =
     (case circ_range b_len pos len of
        (_, b1, l, None) \<Rightarrow> mem_read b (unat b1) (unat l)
      | (_, b1, l, Some b2) \<Rightarrow> do {
          x \<leftarrow> mem_read b (unat b1) (unat l);
          y \<leftarrow> mem_read b (unat b2) (unat (len - l));
          Some (x @ y) })"

definition circ_write :: "bytes \<Rightarrow> bytes \<Rightarrow> u64 \<Rightarrow> u64 \<Rightarrow> u64 \<Rightarrow> bytes option" where
  "circ_write src b b_len pos len =
     (case circ_range b_len pos len of
        (_, b1, l, None) \<Rightarrow> do {
          x \<leftarrow> mem_read src 0 (unat l);
          mem_write b (unat b1) x }
      | (_, b1, l, Some b2) \<Rightarrow> do {
          x \<leftarrow> mem_read src 0 (unat l);
          b' \<leftarrow> mem_write b (unat b1) x;
          y \<leftarrow> mem_read src (unat l) (unat (len - l));
          mem_write b' (unat b2) y })"

text \<open>\<open>split_write\<close> and \<open>split_read\<close> assert that the access fits the two halves.\<close>

definition split_write ::
  "bytes \<Rightarrow> u64 \<Rightarrow> bytes \<Rightarrow> u64 \<Rightarrow> bytes \<Rightarrow> u64 \<Rightarrow> u64 \<Rightarrow> (bytes \<times> bytes) option" where
  "split_write src len buf_1 len_1 buf_2 len_2 off = do {
     c_assert (len + off \<le> len_1 + len_2);
     if off + len \<le> len_1 then do {
       x \<leftarrow> mem_read src 0 (unat len);
       b1 \<leftarrow> mem_write buf_1 (unat off) x;
       Some (b1, buf_2) }
     else if off \<ge> len_1 then do {
       x \<leftarrow> mem_read src 0 (unat len);
       b2 \<leftarrow> mem_write buf_2 (unat (off - len_1)) x;
       Some (buf_1, b2) }
     else do {
       let l = len_1 - off;
       x \<leftarrow> mem_read src 0 (unat l);
       b1 \<leftarrow> mem_write buf_1 (unat off) x;
       y \<leftarrow> mem_read src (unat l) (unat (len - l));
       b2 \<leftarrow> mem_write buf_2 0 y;
       Some (b1, b2) } }"

definition split_read ::
  "u64 \<Rightarrow> bytes \<Rightarrow> u64 \<Rightarrow> bytes \<Rightarrow> u64 \<Rightarrow> u64 \<Rightarrow> bytes option" where
  "split_read len buf_1 len_1 buf_2 len_2 off = do {
     c_assert (len + off \<le> len_1 + len_2);
     if off + len \<le> len_1 then mem_read buf_1 (unat off) (unat len)
     else if off \<ge> len_1 then mem_read buf_2 (unat (off - len_1)) (unat len)
     else do {
       let l = len_1 - off;
       x \<leftarrow> mem_read buf_1 (unat off) (unat l);
       y \<leftarrow> mem_read buf_2 0 (unat (len - l));
       Some (x @ y) } }"

section \<open>Ring accesses\<close>

text \<open>
  \<open>ring_ok b b_len pos len\<close>: the buffer has the stated length, the position is inside it and the
  access is no longer than the ring, whose size is below half the address space.
\<close>

definition ring_ok :: "bytes \<Rightarrow> u64 \<Rightarrow> u64 \<Rightarrow> u64 \<Rightarrow> bool" where
  "ring_ok b b_len pos len \<longleftrightarrow>
     length b = unat b_len \<and> pos < b_len \<and> len \<le> b_len \<and> unat b_len < 2 ^ 63"

lemma ring_ok_sum:
  assumes "ring_ok b b_len pos len"
  shows "unat (pos + len) = unat pos + unat len"
  using assms
  by (intro unat_add_no_wrap) (simp add: ring_ok_def word_less_nat_alt word_le_nat_alt)

lemma ring_ok_nat:
  assumes "ring_ok b b_len pos len"
  shows "length b = unat b_len" "unat pos < length b" "unat len \<le> length b"
    "unat (b_len - pos) = length b - unat pos"
    "pos + len \<le> b_len \<longleftrightarrow> unat pos + unat len \<le> length b"
  using assms
  by (auto simp: ring_ok_def word_less_nat_alt word_le_nat_alt ring_ok_sum [OF assms] word_facts)

lemma ring_ok_rest:
  assumes "ring_ok b b_len pos len" and "length b < unat pos + unat len"
  shows "unat (len - (b_len - pos)) = unat len - (length b - unat pos)"
  using ring_ok_nat [OF assms(1)] assms(2) by (subst unat_sub_le) auto

lemma circ_read_eq:
  assumes ok: "ring_ok b b_len pos len"
  shows "circ_read b b_len pos len = Some (circ_slice b (unat pos) (unat len))"
proof (cases "unat pos + unat len \<le> length b")
  case True
  with ring_ok_nat [OF ok] show ?thesis
    by (simp add: circ_read_def circ_range_def mem_simps circ_slice_flat)
next
  case False
  with ring_ok_nat [OF ok] ring_ok_rest [OF ok] show ?thesis
    by (simp add: circ_read_def circ_range_def mem_simps circ_slice_wrap Let_def)
qed

lemma circ_write_splice:
  assumes ok: "ring_ok b b_len pos len" and src: "length src = unat len"
  shows "circ_write src b b_len pos len = Some (circ_splice b (unat pos) src)"
proof (cases "unat pos + unat len \<le> length b")
  case True
  with ring_ok_nat [OF ok] src show ?thesis
    by (simp add: circ_write_def circ_range_def mem_simps circ_splice_flat)
next
  case False
  with ring_ok_nat [OF ok] ring_ok_rest [OF ok] src show ?thesis
    by (simp add: circ_write_def circ_range_def mem_simps circ_splice_wrap Let_def)
qed

lemma ring_ok_write:
  "ring_ok b b_len pos len \<Longrightarrow> ring_ok (circ_splice b p src) b_len pos len"
  by (simp add: ring_ok_def)

text \<open>
  C32: On a ring, \<open>circ_read\<close> returns exactly the requested slice across the wrap-around without
  reading outside the buffer; bytes written with \<open>circ_write\<close> are read back by \<open>circ_read\<close>, and
  the part of the ring that the write does not reach is unchanged.
\<close>

theorem circ_write_read:
  assumes ok: "ring_ok b b_len pos len" and src: "length src = unat len"
    and fit: "unat len \<le> k" "k + m \<le> unat b_len"
  shows "circ_read b b_len pos len = Some (circ_slice b (unat pos) (unat len)) \<and>
    (\<exists>b'. circ_write src b b_len pos len = Some b' \<and>
      circ_read b' b_len pos len = Some src \<and>
      circ_slice b' (unat pos + k) m = circ_slice b (unat pos + k) m)"
proof -
  have "circ_read (circ_splice b (unat pos) src) b_len pos len = Some src"
    using circ_splice_slice_same [of "unat pos" b src] src ring_ok_nat [OF ok]
    by (simp add: circ_read_eq ring_ok_write [OF ok])
  moreover have "circ_slice (circ_splice b (unat pos) src) (unat pos + k) m =
      circ_slice b (unat pos + k) m"
    using src fit ring_ok_nat [OF ok] by (intro circ_splice_slice_other) auto
  ultimately show ?thesis using circ_write_splice [OF ok src] circ_read_eq [OF ok] by blast
qed

theorem circ_write_read_witness:
  "circ_read [1, 2, 3, 4] 4 3 2 = Some (circ_slice [1, 2, 3, 4] (unat (3::u64)) (unat (2::u64))) \<and>
    (\<exists>b'. circ_write [8, 9] [1, 2, 3, 4] 4 3 2 = Some b' \<and>
      circ_read b' 4 3 2 = Some [8, 9] \<and>
      circ_slice b' (unat (3::u64) + 2) 2 = circ_slice [1, 2, 3, 4] (unat (3::u64) + 2) 2)"
  by (rule circ_write_read) (simp_all add: ring_ok_def)

lemma circ_offset_mod:
  assumes "pos < len" and "off \<le> len" and "unat len < 2 ^ 63"
  shows "unat (circ_offset pos len off) = (unat pos + unat off) mod unat len"
proof -
  have s: "unat (pos + off) = unat pos + unat off"
    using assms by (intro unat_add_no_wrap) (simp add: word_less_nat_alt word_le_nat_alt)
  have "unat pos + unat off < 2 * unat len"
    using assms by (simp add: word_less_nat_alt word_le_nat_alt)
  then show ?thesis
    using s by (auto simp: circ_offset_def Let_def mod_below_twice word_le_nat_alt word_facts)
qed

section \<open>Split buffers\<close>

definition split_ok :: "bytes \<Rightarrow> u64 \<Rightarrow> bytes \<Rightarrow> u64 \<Rightarrow> u64 \<Rightarrow> u64 \<Rightarrow> bool" where
  "split_ok buf_1 len_1 buf_2 len_2 off len \<longleftrightarrow>
     length buf_1 = unat len_1 \<and> length buf_2 = unat len_2 \<and>
     unat len + unat off \<le> unat len_1 + unat len_2 \<and> unat len_1 + unat len_2 < 2 ^ 64"

lemma split_ok_nat:
  assumes "split_ok buf_1 len_1 buf_2 len_2 off len"
  shows "unat (len + off) = unat len + unat off"
    "unat (len_1 + len_2) = unat len_1 + unat len_2"
    "unat (off + len) = unat off + unat len"
  using assms by (auto simp: split_ok_def word_facts)

lemma mem_splice_append:
  "off + length src \<le> length a \<Longrightarrow> mem_splice (a @ b) off src = mem_splice a off src @ b"
  "length a \<le> off \<Longrightarrow> mem_splice (a @ b) off src = a @ mem_splice b (off - length a) src"
  "off < length a \<Longrightarrow> length a < off + length src \<Longrightarrow>
     mem_splice (a @ b) off src =
       mem_splice a off (take (length a - off) src) @ mem_splice b 0 (drop (length a - off) src)"
  by (simp_all add: mem_splice_def add.commute)

text \<open>
  C33: reading or writing the two halves of a split buffer is reading or writing their
  concatenation; in particular the assertion holds and no byte outside the halves is touched.
\<close>

theorem split_write_concat:
  assumes ok: "split_ok buf_1 len_1 buf_2 len_2 off len" and src: "length src = unat len"
  shows "\<exists>b1 b2. split_write src len buf_1 len_1 buf_2 len_2 off = Some (b1, b2) \<and>
      length b1 = length buf_1 \<and> b1 @ b2 = mem_splice (buf_1 @ buf_2) (unat off) src \<and>
      split_read len b1 len_1 b2 len_2 off = Some src"
proof -
  note n = split_ok_nat [OF ok]
  have lens: "length buf_1 = unat len_1" "length buf_2 = unat len_2"
    "unat len + unat off \<le> length buf_1 + length buf_2"
    using ok by (auto simp: split_ok_def)
  have asrt: "len + off \<le> len_1 + len_2"
    using lens n by (simp add: word_le_nat_alt)
  consider (first) "unat off + unat len \<le> length buf_1"
    | (second) "length buf_1 < unat off + unat len" "length buf_1 \<le> unat off"
    | (both) "unat off < length buf_1" "length buf_1 < unat off + unat len"
    by linarith
  then show ?thesis
  proof cases
    case first
    with lens n asrt src show ?thesis
      by (simp add: split_write_def split_read_def mem_simps word_le_nat_alt
          mem_splice_append mem_splice_same_n)
  next
    case second
    with lens n asrt src show ?thesis
      by (simp add: split_write_def split_read_def mem_simps word_le_nat_alt
          mem_splice_append mem_splice_same_n word_facts)
  next
    case both
    have rest: "unat (len - (len_1 - off)) = unat len - (unat len_1 - unat off)"
      "unat (len_1 - off) = unat len_1 - unat off"
      using both lens by (simp_all add: word_facts)
    with both lens n asrt src show ?thesis
      by (auto simp: split_write_def split_read_def mem_simps word_le_nat_alt Let_def
          mem_splice_def add.commute)
  qed
qed

theorem split_write_concat_witness:
  "\<exists>b1 b2. split_write [8, 9] 2 [1, 2, 3] 3 [4, 5] 2 2 = Some (b1, b2) \<and>
      length b1 = length [1, 2, 3::u8] \<and> b1 @ b2 = mem_splice ([1, 2, 3] @ [4, 5]) (unat (2::u64)) [8, 9] \<and>
      split_read 2 b1 3 b2 2 2 = Some [8, 9]"
  by (rule split_write_concat) (simp_all add: split_ok_def)

end
