(* ===== verification/Byte_Queue.thy ===== *)
theory Byte_Queue
  imports Tas_Prelude
begin

text \<open>
  The contract of a bounded byte queue, as the VM proxies use it: \<open>contents\<close> is the sequence of
  bytes in the queue, \<open>push\<close> appends a message or refuses it with return value 0, \<open>pop\<close> takes
  bytes from the front, \<open>peek\<close> only reads them. The lemmas of the locale are the ones the message
  channel needs; the ring of \<open>src/proxy/shmring.c\<close> is its instance.
\<close>

locale byte_queue =
  fixes push :: "'q \<Rightarrow> bytes \<Rightarrow> u64 \<Rightarrow> (u64 \<times> 'q) option"
    and pop :: "'q \<Rightarrow> u64 \<Rightarrow> (u64 \<times> bytes \<times> 'q) option"
    and peek :: "'q \<Rightarrow> u64 \<Rightarrow> (u64 \<times> bytes) option"
    and free :: "'q \<Rightarrow> u64"
    and contents :: "'q \<Rightarrow> bytes"
    and cap :: "'q \<Rightarrow> nat"
    and invar :: "'q \<Rightarrow> bool"
  assumes contents_bound: "invar q \<Longrightarrow> length (contents q) \<le> cap q"
    and free_room: "invar q \<Longrightarrow> unat (free q) = cap q - length (contents q)"
    and push_room: "invar q \<Longrightarrow> 0 < sz \<Longrightarrow> length src = unat sz \<Longrightarrow> sz \<le> free q \<Longrightarrow>
      \<exists>q'. push q src sz = Some (sz, q') \<and> invar q' \<and> cap q' = cap q \<and>
           contents q' = contents q @ src"
    and push_full: "invar q \<Longrightarrow> free q < sz \<Longrightarrow> push q src sz = Some (0, q)"
    and pop_front: "invar q \<Longrightarrow> 0 < sz \<Longrightarrow> unat sz \<le> length (contents q) \<Longrightarrow>
      \<exists>q'. pop q sz = Some (sz, take (unat sz) (contents q), q') \<and> invar q' \<and> cap q' = cap q \<and>
           contents q' = drop (unat sz) (contents q)"
    and pop_short: "invar q \<Longrightarrow> length (contents q) < unat sz \<Longrightarrow> pop q sz = Some (0, [], q)"
    and peek_front: "invar q \<Longrightarrow> unat sz \<le> length (contents q) \<Longrightarrow>
      peek q sz = Some (sz, take (unat sz) (contents q))"
begin

lemma pop_message:
  assumes "invar q" and "contents q = m @ rest" and "length m = unat sz" and "m \<noteq> []"
  shows "\<exists>q'. pop q sz = Some (sz, m, q') \<and> invar q' \<and> cap q' = cap q \<and> contents q' = rest"
proof -
  have "0 < unat sz" using assms(4) by (simp flip: assms(3))
  then have "0 < sz" by (simp add: word_less_nat_alt)
  with pop_front [of q sz] assms show ?thesis by simp
qed

lemma peek_first:
  assumes "invar q" and "contents q = x # rest"
  shows "peek q 1 = Some (1, [x])"
  using peek_front [of q 1] assms by simp

lemma push_then_pop:
  assumes "invar q" and "contents q = []" and "0 < sz" and "length m = unat sz"
    and "unat sz \<le> cap q"
  shows "\<exists>q' q''. push q m sz = Some (sz, q') \<and> pop q' sz = Some (sz, m, q'') \<and>
     invar q'' \<and> contents q'' = []"
proof -
  have "sz \<le> free q" using assms by (simp add: word_le_nat_alt free_room)
  then obtain q' where p: "push q m sz = Some (sz, q')" "invar q'" "contents q' = m"
    using push_room [OF assms(1,3,4)] assms(2) by auto
  have "m \<noteq> []" using assms(3,4) by (auto simp: word_less_nat_alt)
  then show ?thesis using p pop_message [OF p(2), of m "[]" sz] assms(4) by auto
qed

end

end
