(* ===== verification/Shmring.thy ===== *)
theory Shmring
  imports Byte_Queue
begin

text \<open>
  The shared-memory byte ring of the VM proxies (\<open>src/proxy/shmring.c\<close>) and the message
  channel built on it (\<open>src/proxy/channel.c\<close>).

  The header fields \<open>write_pos\<close>, \<open>read_pos\<close> and \<open>full\<close> are C \<open>int\<close>s, kept as 32-bit words
  that are sign-extended (\<open>i2s\<close>) when C converts them to \<open>size_t\<close>; \<open>ring_size\<close> is a
  \<open>size_t\<close>. The locale \<open>byte_queue\<close> is the contract the channel relies on, and the ring is
  shown to satisfy it: its contents are the bytes between the two positions, a push appends, a
  pop takes from the front.
\<close>

section \<open>Model of the ring\<close>

record ring_header =
  write_pos :: u32
  read_pos :: u32
  full :: u32
  ring_size :: u64

record ring_buffer =
  hdr :: ring_header
  buf :: bytes
  rb_size :: u64

abbreviation i2s :: "u32 \<Rightarrow> u64" where "i2s x \<equiv> scast x"
abbreviation s2i :: "u64 \<Rightarrow> u32" where "s2i x \<equiv> ucast x"

text \<open>
  \<open>shmring_init\<close> only records where the ring lives; the header and the buffer are whatever the
  shared memory holds. \<open>malloc_ok\<close> says whether the allocation of the descriptor succeeds.
\<close>

definition shmring_init ::
  "bool \<Rightarrow> ring_header \<Rightarrow> bytes \<Rightarrow> u64 \<Rightarrow> ring_buffer option" where
  "shmring_init malloc_ok h b sz =
     (if malloc_ok then Some \<lparr>hdr = h, buf = b, rb_size = sz\<rparr> else None)"

text \<open>\<open>hdr_size\<close> stands for \<open>sizeof(struct ring_header)\<close>, which depends on \<open>pthread_mutex_t\<close>.\<close>

definition shmring_reset :: "u64 \<Rightarrow> ring_buffer \<Rightarrow> u64 \<Rightarrow> ring_buffer option" where
  "shmring_reset hdr_size ring sz = do {
     b \<leftarrow> mem_write (buf ring) 0 (replicate (unat sz - unat hdr_size) 0);
     Some (ring\<lparr>hdr := \<lparr>write_pos = 0, read_pos = 0, full = 0, ring_size = sz - hdr_size\<rparr>,
                buf := b\<rparr>) }"

definition shmring_is_empty :: "ring_buffer \<Rightarrow> int" where
  "shmring_is_empty ring =
     (let h = hdr ring in if full h = 0 \<and> write_pos h = read_pos h then 1 else 0)"

definition shmring_get_freesz :: "ring_buffer \<Rightarrow> u64" where
  "shmring_get_freesz ring =
     (let h = hdr ring; w_pos = write_pos h; r_pos = read_pos h in
      if full h = 0 \<and> w_pos = r_pos then ring_size h
      else if sint w_pos > sint r_pos then (ring_size h - i2s w_pos) + i2s r_pos
      else i2s (r_pos - w_pos))"

text \<open>
  \<open>advance pos sz n\<close> is the pair of statements \<open>pos += sz; pos %= n\<close> on an \<open>int\<close>;
  the remainder by a zero ring sz traps.
\<close>

definition advance :: "u32 \<Rightarrow> u64 \<Rightarrow> u64 \<Rightarrow> u32 option" where
  "advance pos sz n = do {
     let pos = s2i (i2s pos + sz);
     c_assert (n \<noteq> 0);
     Some (s2i (i2s pos mod n)) }"

definition pop_fragmented :: "ring_buffer \<Rightarrow> u64 \<Rightarrow> (u64 \<times> bytes \<times> ring_buffer) option" where
  "pop_fragmented rx sz = do {
     let h = hdr rx;
     let sz1 = ring_size h - i2s (read_pos h);
     x \<leftarrow> mem_read (buf rx) (unat (i2s (read_pos h))) (unat sz1);
     let sz2 = sz - sz1;
     y \<leftarrow> mem_read (buf rx) 0 (unat sz2);
     rp \<leftarrow> advance (read_pos h) sz (ring_size h);
     Some (sz, x @ y, rx\<lparr>hdr := h\<lparr>read_pos := rp, full := 0\<rparr>\<rparr>) }"

definition shmring_pop :: "ring_buffer \<Rightarrow> u64 \<Rightarrow> (u64 \<times> bytes \<times> ring_buffer) option" where
  "shmring_pop rx sz =
     (let h = hdr rx; freesz = shmring_get_freesz rx in
      if ring_size h - freesz < sz then Some (0, [], rx)
      else if ring_size h - i2s (read_pos h) < sz then pop_fragmented rx sz
      else do {
        x \<leftarrow> mem_read (buf rx) (unat (i2s (read_pos h))) (unat sz);
        rp \<leftarrow> advance (read_pos h) sz (ring_size h);
        Some (sz, x, rx\<lparr>hdr := h\<lparr>read_pos := rp, full := 0\<rparr>\<rparr>) })"

text \<open>In \<open>read_fragmented\<close> and \<open>push_fragmented\<close> the two sizes are \<open>int\<close>s.\<close>

definition read_fragmented :: "ring_buffer \<Rightarrow> u64 \<Rightarrow> (u64 \<times> bytes) option" where
  "read_fragmented rx sz = do {
     let h = hdr rx;
     let sz1 = s2i (ring_size h - i2s (read_pos h));
     x \<leftarrow> mem_read (buf rx) (unat (i2s (read_pos h))) (unat (i2s sz1));
     let sz2 = s2i (sz - i2s sz1);
     y \<leftarrow> mem_read (buf rx) 0 (unat (i2s sz2));
     Some (sz, x @ y) }"

definition shmring_read :: "ring_buffer \<Rightarrow> u64 \<Rightarrow> (u64 \<times> bytes) option" where
  "shmring_read rx sz =
     (let h = hdr rx; freesz = shmring_get_freesz rx in
      if ring_size h - freesz < sz then Some (0, [])
      else if ring_size h - i2s (read_pos h) < sz then read_fragmented rx sz
      else do {
        x \<leftarrow> mem_read (buf rx) (unat (i2s (read_pos h))) (unat sz);
        Some (sz, x) })"

definition push_fragmented :: "ring_buffer \<Rightarrow> bytes \<Rightarrow> u64 \<Rightarrow> (u64 \<times> ring_buffer) option" where
  "push_fragmented tx src sz = do {
     let h = hdr tx;
     let sz1 = s2i (ring_size h - i2s (write_pos h));
     x \<leftarrow> mem_read src 0 (unat (i2s sz1));
     b1 \<leftarrow> mem_write (buf tx) (unat (i2s (write_pos h))) x;
     let sz2 = s2i (sz - i2s sz1);
     y \<leftarrow> mem_read src (unat (i2s sz1)) (unat (i2s sz2));
     b2 \<leftarrow> mem_write b1 0 y;
     wp \<leftarrow> advance (write_pos h) sz (ring_size h);
     let fl = (if wp = read_pos h then 1 else full h);
     Some (sz, tx\<lparr>hdr := h\<lparr>write_pos := wp, full := fl\<rparr>, buf := b2\<rparr>) }"

definition shmring_push :: "ring_buffer \<Rightarrow> bytes \<Rightarrow> u64 \<Rightarrow> (u64 \<times> ring_buffer) option" where
  "shmring_push tx src sz =
     (let h = hdr tx; freesz = shmring_get_freesz tx in
      if freesz < sz then Some (0, tx)
      else if ring_size h - i2s (write_pos h) < sz then push_fragmented tx src sz
      else do {
        x \<leftarrow> mem_read src 0 (unat sz);
        b \<leftarrow> mem_write (buf tx) (unat (i2s (write_pos h))) x;
        wp \<leftarrow> advance (write_pos h) sz (ring_size h);
        let fl = (if wp = read_pos h then 1 else full h);
        Some (sz, tx\<lparr>hdr := h\<lparr>write_pos := wp, full := fl\<rparr>, buf := b\<rparr>) })"

section \<open>Invariant and contents\<close>

definition ring_inv :: "ring_buffer \<Rightarrow> bool" where
  "ring_inv r \<longleftrightarrow>
     0 < ring_size (hdr r) \<and> unat (ring_size (hdr r)) < 2 ^ 30 \<and>
     length (buf r) = unat (ring_size (hdr r)) \<and>
     unat (write_pos (hdr r)) < length (buf r) \<and> unat (read_pos (hdr r)) < length (buf r) \<and>
     (full (hdr r) \<noteq> 0 \<longrightarrow> write_pos (hdr r) = read_pos (hdr r))"

definition ring_used :: "ring_buffer \<Rightarrow> nat" where
  "ring_used r =
     (let n = length (buf r); w = unat (write_pos (hdr r)); p = unat (read_pos (hdr r)) in
      if full (hdr r) \<noteq> 0 then n else (w + n - p) mod n)"

definition ring_list :: "ring_buffer \<Rightarrow> bytes" where
  "ring_list r = circ_slice (buf r) (unat (read_pos (hdr r))) (ring_used r)"

lemma length_ring_list [simp]: "length (ring_list r) = ring_used r"
  by (simp add: ring_list_def)

text \<open>Positions are below \<open>2 ^ 31\<close>, so the conversions between \<open>int\<close> and \<open>size_t\<close> are exact.\<close>

lemma sint_small:
  assumes "unat (x :: u32) < 2 ^ 31"
  shows "sint x = int (unat x)"
proof -
  have "int (unat x) < int (2 ^ 31)" using assms by (simp only: of_nat_less_iff)
  then have "uint x < 2 ^ 31" by simp
  moreover have "- (2 ^ 31) \<le> uint x" by (rule order_trans [of _ 0]) simp_all
  ultimately show ?thesis by (simp add: sint_uint signed_take_bit_int_eq_self)
qed

lemma i2s_small:
  assumes "unat (x :: u32) < 2 ^ 31"
  shows "unat (i2s x) = unat x"
proof -
  have "i2s x = of_nat (unat x)"
    using sint_small [OF assms] by (simp add: scast_eq)
  then show ?thesis using assms by (simp add: unat_of_nat)
qed

lemma s2i_small: "unat (x :: u64) < 2 ^ 31 \<Longrightarrow> unat (s2i x) = unat x"
  by (simp add: unat_ucast_narrow)

lemma ring_invD:
  assumes "ring_inv r"
  shows "length (buf r) = unat (ring_size (hdr r))" "0 < length (buf r)" "length (buf r) < 2 ^ 30"
    "unat (write_pos (hdr r)) < length (buf r)" "unat (read_pos (hdr r)) < length (buf r)"
    "unat (i2s (write_pos (hdr r))) = unat (write_pos (hdr r))"
    "unat (i2s (read_pos (hdr r))) = unat (read_pos (hdr r))"
    "full (hdr r) \<noteq> 0 \<Longrightarrow> write_pos (hdr r) = read_pos (hdr r)"
  using assms by (auto simp: ring_inv_def i2s_small word_less_nat_alt)

lemma ring_used_le: "ring_inv r \<Longrightarrow> ring_used r \<le> length (buf r)"
  by (auto simp: ring_used_def Let_def ring_inv_def intro!: less_imp_le mod_less_divisor)

lemma ring_used_cases:
  assumes inv: "ring_inv r"
  shows "ring_used r =
    (if full (hdr r) \<noteq> 0 then length (buf r)
     else if unat (read_pos (hdr r)) \<le> unat (write_pos (hdr r))
     then unat (write_pos (hdr r)) - unat (read_pos (hdr r))
     else unat (write_pos (hdr r)) + length (buf r) - unat (read_pos (hdr r)))"
  using ring_invD [OF inv] by (simp add: ring_used_def Let_def ring_distance_rev)

lemma freesz_eq:
  assumes inv: "ring_inv r"
  shows "unat (shmring_get_freesz r) = length (buf r) - ring_used r"
proof -
  note d = ring_invD [OF inv]
  let ?w = "write_pos (hdr r)" and ?p = "read_pos (hdr r)"
  have s: "sint ?p < sint ?w \<longleftrightarrow> unat ?p < unat ?w"
    using d by (simp add: sint_small del: of_nat_unat)
  have down: "unat (i2s (?p - ?w)) = unat ?p - unat ?w" if "unat ?w \<le> unat ?p"
    using d that by (simp add: i2s_small unat_sub_le)
  have up: "unat ((ring_size (hdr r) - i2s ?w) + i2s ?p) = length (buf r) - unat ?w + unat ?p"
    if "unat ?p < unat ?w"
    using d that by (subst unat_add_no_wrap) (auto simp: unat_sub_le)
  show ?thesis
    using d s down up ring_used_cases [OF inv]
    by (auto simp: shmring_get_freesz_def Let_def word_unat_eq_iff)
qed

lemma advance_eq:
  assumes "unat pos < unat n" and "unat n < 2 ^ 30" and "unat sz \<le> unat n"
  shows "\<exists>p. advance pos sz n = Some p \<and> unat p = (unat pos + unat sz) mod unat n"
proof -
  have i: "unat (i2s pos) = unat pos" using assms by (simp add: i2s_small)
  have sum: "unat (i2s pos + sz) = unat pos + unat sz"
    using assms i by (subst unat_add_no_wrap) auto
  have lt: "unat pos + unat sz < 2 ^ 31" using assms by simp
  have conv: "unat (i2s (s2i (i2s pos + sz))) = unat pos + unat sz"
    using lt sum by (simp add: i2s_small s2i_small)
  have nz: "n \<noteq> 0" using assms by (auto simp: word_unat_eq_iff)
  have m: "(unat pos + unat sz) mod unat n < 2 ^ 31"
  proof -
    have "(unat pos + unat sz) mod unat n < unat n"
      using assms(1) by (intro mod_less_divisor) linarith
    with assms(2) show ?thesis by simp
  qed
  have "unat (s2i (i2s (s2i (i2s pos + sz)) mod n)) = (unat pos + unat sz) mod unat n"
    using m conv by (subst s2i_small) (simp_all add: unat_mod)
  with nz show ?thesis by (simp add: advance_def Let_def)
qed

lemma write_pos_eq:
  assumes inv: "ring_inv r"
  shows "unat (write_pos (hdr r)) = (unat (read_pos (hdr r)) + ring_used r) mod length (buf r)"
  using ring_invD [OF inv] ring_used_cases [OF inv] by (auto simp: mod_below_twice)

lemma push_read_pos:
  assumes inv: "ring_inv r"
  shows "(unat (write_pos (hdr r)) + (length (buf r) - ring_used r)) mod length (buf r) =
     unat (read_pos (hdr r))"
proof -
  have "(unat (write_pos (hdr r)) + (length (buf r) - ring_used r)) mod length (buf r) =
      (unat (read_pos (hdr r)) + length (buf r)) mod length (buf r)"
  proof -
    have "unat (read_pos (hdr r)) + ring_used r + (length (buf r) - ring_used r) =
        unat (read_pos (hdr r)) + length (buf r)"
      using ring_used_le [OF inv] by simp
    then show ?thesis by (simp only: write_pos_eq [OF inv] mod_add_left_eq)
  qed
  then show ?thesis using ring_invD [OF inv] by simp
qed

subsection \<open>Reading\<close>

lemma pop_guard:
  assumes inv: "ring_inv r"
  shows "ring_size (hdr r) - shmring_get_freesz r < sz \<longleftrightarrow> ring_used r < unat sz"
proof -
  have "unat (ring_size (hdr r) - shmring_get_freesz r) = ring_used r"
    using ring_invD [OF inv] freesz_eq [OF inv] ring_used_le [OF inv]
    by (simp add: unat_sub_le)
  then show ?thesis by (simp add: word_less_nat_alt)
qed

lemma wrap_guard:
  assumes inv: "ring_inv r" and pos: "unat pos < length (buf r)"
  shows "unat (ring_size (hdr r) - i2s pos) = length (buf r) - unat pos"
    "ring_size (hdr r) - i2s pos < sz \<longleftrightarrow> length (buf r) < unat pos + unat sz"
proof -
  show u: "unat (ring_size (hdr r) - i2s pos) = length (buf r) - unat pos"
    using ring_invD [OF inv] pos by (simp add: unat_sub_le i2s_small)
  show "ring_size (hdr r) - i2s pos < sz \<longleftrightarrow> length (buf r) < unat pos + unat sz"
    using u pos by (auto simp: word_less_nat_alt)
qed

lemma pop_bytes:
  assumes inv: "ring_inv r" and le: "unat sz \<le> ring_used r"
  shows "\<exists>rp. shmring_pop r sz =
      Some (sz, take (unat sz) (ring_list r), r\<lparr>hdr := (hdr r)\<lparr>read_pos := rp, full := 0\<rparr>\<rparr>) \<and>
    unat rp = (unat (read_pos (hdr r)) + unat sz) mod length (buf r)"
proof -
  note d = ring_invD [OF inv] and g = wrap_guard [OF inv ring_invD(5) [OF inv]]
  have szN: "unat sz \<le> length (buf r)" using le ring_used_le [OF inv] by simp
  obtain rp where rp: "advance (read_pos (hdr r)) sz (ring_size (hdr r)) = Some rp"
      "unat rp = (unat (read_pos (hdr r)) + unat sz) mod length (buf r)"
    using advance_eq [of "read_pos (hdr r)" "ring_size (hdr r)" sz] d szN by auto
  have list: "take (unat sz) (ring_list r) = circ_slice (buf r) (unat (read_pos (hdr r))) (unat sz)"
    using circ_slice_add [of "buf r" "unat (read_pos (hdr r))" "unat sz" "ring_used r - unat sz"] le
    by (simp add: ring_list_def)
  show ?thesis
  proof (cases "length (buf r) < unat (read_pos (hdr r)) + unat sz")
    case False
    with rp d list show ?thesis
      by (intro exI [of _ rp]) (simp add: shmring_pop_def Let_def pop_guard [OF inv] le g mem_simps circ_slice_flat not_less)
  next
    case True
    have rest: "unat (sz - (ring_size (hdr r) - i2s (read_pos (hdr r)))) =
        unat sz - (length (buf r) - unat (read_pos (hdr r)))"
      using True g(1) by (subst unat_sub_le) auto
    from True rp d list rest szN show ?thesis
      by (intro exI [of _ rp])
        (simp add: shmring_pop_def pop_fragmented_def Let_def pop_guard [OF inv] le g mem_simps
          circ_slice_wrap not_less)
  qed
qed

lemma read_bytes:
  assumes inv: "ring_inv r" and le: "unat sz \<le> ring_used r"
  shows "shmring_read r sz = Some (sz, take (unat sz) (ring_list r))"
proof -
  note d = ring_invD [OF inv] and g = wrap_guard [OF inv ring_invD(5) [OF inv]]
  have szN: "unat sz \<le> length (buf r)" using le ring_used_le [OF inv] by simp
  have list: "take (unat sz) (ring_list r) = circ_slice (buf r) (unat (read_pos (hdr r))) (unat sz)"
    using circ_slice_add [of "buf r" "unat (read_pos (hdr r))" "unat sz" "ring_used r - unat sz"] le
    by (simp add: ring_list_def)
  show ?thesis
  proof (cases "length (buf r) < unat (read_pos (hdr r)) + unat sz")
    case False
    with d list show ?thesis
      by (simp add: shmring_read_def Let_def pop_guard [OF inv] le g mem_simps circ_slice_flat not_less)
  next
    case True
    let ?sz1 = "s2i (ring_size (hdr r) - i2s (read_pos (hdr r)))"
    have sz1: "unat (i2s ?sz1) = length (buf r) - unat (read_pos (hdr r))"
      using g(1) d by (simp add: i2s_small s2i_small)
    have "unat (sz - i2s ?sz1) = unat sz - (length (buf r) - unat (read_pos (hdr r)))"
      using True sz1 by (subst unat_sub_le) auto
    then have sz2: "unat (i2s (s2i (sz - i2s ?sz1))) =
        unat sz - (length (buf r) - unat (read_pos (hdr r)))"
      using szN d by (simp add: i2s_small s2i_small)
    from True d list sz1 sz2 szN show ?thesis
      by (simp add: shmring_read_def read_fragmented_def Let_def pop_guard [OF inv] le g mem_simps
          circ_slice_wrap not_less)
  qed
qed

subsection \<open>The ring as a byte queue\<close>

lemma ring_used_after_pop:
  assumes inv: "ring_inv r" and le: "unat sz \<le> ring_used r" and pos: "0 < sz"
    and rp: "unat rp = (unat (read_pos (hdr r)) + unat sz) mod length (buf r)"
  shows "ring_used (r\<lparr>hdr := (hdr r)\<lparr>read_pos := rp, full := 0\<rparr>\<rparr>) = ring_used r - unat sz"
proof -
  let ?N = "length (buf r)" and ?k = "ring_used r - unat sz"
  have N: "0 < ?N" using ring_invD [OF inv] by blast
  have k: "?k < ?N" using ring_used_le [OF inv] pos le N by (auto simp: word_less_nat_alt)
  have w: "unat (write_pos (hdr r)) = (unat rp + ?k) mod ?N"
  proof -
    have "unat (read_pos (hdr r)) + unat sz + ?k = unat (read_pos (hdr r)) + ring_used r"
      using le by simp
    then show ?thesis by (simp only: write_pos_eq [OF inv] rp mod_add_left_eq)
  qed
  have "unat rp < ?N" using N by (simp add: rp)
  from ring_distance [OF this k]
  have "(unat (write_pos (hdr r)) + ?N - unat rp) mod ?N = ?k" by (simp only: w)
  then show ?thesis
    unfolding ring_used_def [of "r\<lparr>hdr := (hdr r)\<lparr>read_pos := rp, full := 0\<rparr>\<rparr>"]
    by (simp add: Let_def)
qed

lemma pop_correct:
  assumes inv: "ring_inv r" and le: "unat sz \<le> ring_used r" and pos: "0 < sz"
  shows "\<exists>r'. shmring_pop r sz = Some (sz, take (unat sz) (ring_list r), r') \<and>
      ring_inv r' \<and> ring_list r' = drop (unat sz) (ring_list r)"
proof -
  obtain rp where pop: "shmring_pop r sz =
      Some (sz, take (unat sz) (ring_list r), r\<lparr>hdr := (hdr r)\<lparr>read_pos := rp, full := 0\<rparr>\<rparr>)"
    and rp: "unat rp = (unat (read_pos (hdr r)) + unat sz) mod length (buf r)"
    using pop_bytes [OF inv le] by blast
  let ?r' = "r\<lparr>hdr := (hdr r)\<lparr>read_pos := rp, full := 0\<rparr>\<rparr>"
  have "ring_inv ?r'"
    using inv rp ring_invD [OF inv] by (auto simp: ring_inv_def)
  moreover have "ring_list ?r' = drop (unat sz) (ring_list r)"
    using le circ_slice_add [of "buf r" "unat (read_pos (hdr r))" "unat sz" "ring_used r - unat sz"]
    by (simp add: ring_list_def ring_used_after_pop [OF inv le pos rp] rp circ_slice_mod)
  ultimately show ?thesis using pop by blast
qed

lemma push_bytes:
  assumes inv: "ring_inv r" and fit: "unat sz \<le> length (buf r) - ring_used r"
    and src: "length src = unat sz"
  shows "\<exists>wp. shmring_push r src sz =
      Some (sz, r\<lparr>hdr := (hdr r)\<lparr>write_pos := wp,
                   full := (if wp = read_pos (hdr r) then 1 else full (hdr r))\<rparr>,
                 buf := circ_splice (buf r) (unat (write_pos (hdr r))) src\<rparr>) \<and>
    unat wp = (unat (write_pos (hdr r)) + unat sz) mod length (buf r)"
proof -
  note d = ring_invD [OF inv] and g = wrap_guard [OF inv ring_invD(4) [OF inv]]
  have szN: "unat sz \<le> length (buf r)" using fit by simp
  have free: "\<not> shmring_get_freesz r < sz"
    using fit freesz_eq [OF inv] by (simp add: word_less_nat_alt)
  obtain wp where wp: "advance (write_pos (hdr r)) sz (ring_size (hdr r)) = Some wp"
      "unat wp = (unat (write_pos (hdr r)) + unat sz) mod length (buf r)"
    using advance_eq [of "write_pos (hdr r)" "ring_size (hdr r)" sz] d szN by auto
  show ?thesis
  proof (cases "length (buf r) < unat (write_pos (hdr r)) + unat sz")
    case False
    have b: "mem_write (buf r) (unat (write_pos (hdr r))) src =
        Some (circ_splice (buf r) (unat (write_pos (hdr r))) src)"
      using False d(4) src by (simp add: mem_simps circ_splice_flat)
    have "shmring_push r src sz =
        Some (sz, r\<lparr>hdr := (hdr r)\<lparr>write_pos := wp,
                   full := (if wp = read_pos (hdr r) then 1 else full (hdr r))\<rparr>,
                 buf := circ_splice (buf r) (unat (write_pos (hdr r))) src\<rparr>)"
      using False b wp(1) free src by (simp add: shmring_push_def Let_def g d(6) mem_simps)
    then show ?thesis using wp(2) by (intro exI [of _ wp]) simp
  next
    case True
    let ?sz1 = "s2i (ring_size (hdr r) - i2s (write_pos (hdr r)))"
    have sz1: "unat (i2s ?sz1) = length (buf r) - unat (write_pos (hdr r))"
      using g(1) d by (simp add: i2s_small s2i_small)
    have "unat (sz - i2s ?sz1) = unat sz - (length (buf r) - unat (write_pos (hdr r)))"
      using True sz1 by (subst unat_sub_le) auto
    then have sz2: "unat (i2s (s2i (sz - i2s ?sz1))) =
        unat sz - (length (buf r) - unat (write_pos (hdr r)))"
      using szN d by (simp add: i2s_small s2i_small)
    let ?m = "length (buf r) - unat (write_pos (hdr r))"
    have b1: "mem_write (buf r) (unat (write_pos (hdr r))) (take ?m src) =
        Some (mem_splice (buf r) (unat (write_pos (hdr r))) (take ?m src))"
      using True d(4) src by (intro mem_write_ok) simp
    have b2: "mem_write (mem_splice (buf r) (unat (write_pos (hdr r))) (take ?m src)) 0 (drop ?m src) =
        Some (circ_splice (buf r) (unat (write_pos (hdr r))) src)"
      using True d(4) src szN by (simp add: mem_simps circ_splice_wrap)
    have "push_fragmented r src sz =
        Some (sz, r\<lparr>hdr := (hdr r)\<lparr>write_pos := wp,
                   full := (if wp = read_pos (hdr r) then 1 else full (hdr r))\<rparr>,
                 buf := circ_splice (buf r) (unat (write_pos (hdr r))) src\<rparr>)"
      using True src b1 b2 wp(1)
      by (simp add: push_fragmented_def Let_def sz1 sz2 d(6) mem_simps)
    moreover have "shmring_push r src sz = push_fragmented r src sz"
      using True free by (simp add: shmring_push_def Let_def g)
    ultimately show ?thesis using wp(2) by (intro exI [of _ wp]) simp
  qed
qed

lemma push_correct:
  assumes inv: "ring_inv r" and fit: "unat sz \<le> length (buf r) - ring_used r"
    and src: "length src = unat sz" and pos: "0 < sz"
  shows "\<exists>r'. shmring_push r src sz = Some (sz, r') \<and> ring_inv r' \<and>
      length (buf r') = length (buf r) \<and> ring_list r' = ring_list r @ src"
proof -
  let ?N = "length (buf r)" and ?p = "unat (read_pos (hdr r))" and ?w = "unat (write_pos (hdr r))"
  note d = ring_invD [OF inv]
  obtain wp where push: "shmring_push r src sz =
      Some (sz, r\<lparr>hdr := (hdr r)\<lparr>write_pos := wp,
                   full := (if wp = read_pos (hdr r) then 1 else full (hdr r))\<rparr>,
                 buf := circ_splice (buf r) ?w src\<rparr>)"
    and wp: "unat wp = (?w + unat sz) mod ?N"
    using push_bytes [OF inv fit src] by blast
  let ?r' = "r\<lparr>hdr := (hdr r)\<lparr>write_pos := wp,
                 full := (if wp = read_pos (hdr r) then 1 else full (hdr r))\<rparr>,
               buf := circ_splice (buf r) ?w src\<rparr>"
  have room: "ring_used r + unat sz \<le> ?N" "0 < unat sz"
    using fit ring_used_le [OF inv] pos by (auto simp: word_less_nat_alt)
  have nf: "full (hdr r) = 0"
  proof (rule ccontr)
    assume "full (hdr r) \<noteq> 0"
    then have "ring_used r = ?N" by (simp add: ring_used_def)
    with room show False by simp
  qed
  have wp': "unat wp = (?p + (ring_used r + unat sz)) mod ?N"
    unfolding wp write_pos_eq [OF inv] by (simp only: mod_add_left_eq add.assoc)
  have full_iff: "wp = read_pos (hdr r) \<longleftrightarrow> ring_used r + unat sz = ?N"
  proof
    assume "wp = read_pos (hdr r)"
    then have eq: "(?p + (ring_used r + unat sz)) mod ?N = ?p" using wp' by simp
    show "ring_used r + unat sz = ?N"
    proof (rule ccontr)
      assume "ring_used r + unat sz \<noteq> ?N"
      with room have "ring_used r + unat sz < ?N" by simp
      from ring_distance [OF d(5) this] have "ring_used r + unat sz = 0"
        by (simp only: eq) simp
      with room show False by simp
    qed
  next
    assume "ring_used r + unat sz = ?N"
    with wp' have "unat wp = ?p" using d(5) by simp
    then show "wp = read_pos (hdr r)" by (simp add: word_unat_eq_iff)
  qed
  have used: "ring_used ?r' = ring_used r + unat sz"
  proof (cases "ring_used r + unat sz = ?N")
    case True
    then show ?thesis unfolding ring_used_def [of ?r'] by (simp add: full_iff)
  next
    case False
    with room have "ring_used r + unat sz < ?N" by simp
    from ring_distance [OF d(5) this] have "(unat wp + ?N - ?p) mod ?N = ring_used r + unat sz"
      by (simp only: wp')
    with False nf show ?thesis unfolding ring_used_def [of ?r'] by (simp add: full_iff Let_def)
  qed
  have inv': "ring_inv ?r'"
    using inv nf mod_less_divisor [OF d(2)] by (simp add: ring_inv_def wp)
  let ?b' = "circ_splice (buf r) ?w src" and ?q = "?w + (?N - ring_used r)"
  note q = push_read_pos [OF inv]
  have old: "circ_slice ?b' ?p (ring_used r) = circ_slice (buf r) ?p (ring_used r)"
  proof -
    have "circ_slice ?b' ?q (ring_used r) = circ_slice (buf r) ?q (ring_used r)"
      using room d(4) src by (intro circ_splice_slice_other) simp_all
    then show ?thesis
      using circ_slice_mod [of ?b' ?q "ring_used r"] circ_slice_mod [of "buf r" ?q "ring_used r"]
      by (simp only: length_circ_splice q)
  qed
  have new: "circ_slice ?b' (?p + ring_used r) (unat sz) = src"
  proof -
    have "circ_slice ?b' ?w (length src) = src"
      using room d(4) src by (intro circ_splice_slice_same) simp_all
    then show ?thesis
      using circ_slice_mod [of ?b' "?p + ring_used r" "unat sz"]
      by (simp only: length_circ_splice write_pos_eq [OF inv, symmetric] src)
  qed
  have "ring_list ?r' = circ_slice ?b' ?p (ring_used r + unat sz)"
    unfolding ring_list_def [of ?r'] used by simp
  then have "ring_list ?r' = ring_list r @ src"
    by (simp only: circ_slice_add old new ring_list_def [of r])
  with push inv' show ?thesis by (intro exI [of _ ?r']) simp
qed

lemma pop_too_much:
  "ring_inv r \<Longrightarrow> ring_used r < unat sz \<Longrightarrow> shmring_pop r sz = Some (0, [], r)"
  by (simp add: shmring_pop_def Let_def pop_guard)

lemma pop_keeps_size:
  assumes "ring_inv r" and "unat sz \<le> ring_used r" and "shmring_pop r sz = Some (n, x, r')"
  shows "length (buf r') = length (buf r)"
  using pop_bytes [OF assms(1,2)] assms(3) by auto

interpretation shm: byte_queue shmring_push shmring_pop shmring_read shmring_get_freesz
  ring_list "\<lambda>r. length (buf r)" ring_inv
proof (unfold_locales, goal_cases)
  case (1 r)
  then show ?case by (simp add: ring_used_le)
next
  case (2 r)
  then show ?case by (simp add: freesz_eq)
next
  case (3 r sz src)
  then have "unat sz \<le> length (buf r) - ring_used r" by (simp add: word_le_nat_alt freesz_eq)
  with 3 show ?case using push_correct [of r sz src] by auto
next
  case (4 r sz src)
  then show ?case by (simp add: shmring_push_def Let_def)
next
  case (5 r sz)
  then show ?case using pop_correct [of r sz] pop_keeps_size [of r sz] by fastforce
next
  case (6 r sz)
  then show ?case by (simp add: pop_too_much)
next
  case (7 r sz)
  then show ?case by (simp add: read_bytes)
qed

lemma reset_inv:
  assumes "shmring_reset hdr_size r sz = Some r'" and "hdr_size < sz"
    and "unat sz < 2 ^ 30" and "length (buf r) = unat sz - unat hdr_size"
  shows "ring_inv r' \<and> ring_list r' = []"
  using assms
  by (auto simp: shmring_reset_def ring_inv_def ring_list_def ring_used_def mem_write_Some_iff
      mem_splice_def word_less_nat_alt unat_sub_le circ_slice_def)


definition demo_ring :: ring_buffer where
  "demo_ring = \<lparr>hdr = \<lparr>write_pos = 3, read_pos = 3, full = 0, ring_size = 4\<rparr>,
                buf = [0, 0, 0, 0], rb_size = 64\<rparr>"


text \<open>
  C37: pushing zero bytes into an empty ring marks it as full, so that the next push is refused and
  the reader sees a ring full of stale bytes.
\<close>

theorem shmring_push_zero_fills:
  assumes inv: "ring_inv r" and empty: "shmring_is_empty r = 1"
  shows "\<exists>r'. shmring_push r [] 0 = Some (0, r') \<and> shmring_is_empty r' = 0 \<and>
      shmring_get_freesz r' = 0"
proof -
  have e: "full (hdr r) = 0" "write_pos (hdr r) = read_pos (hdr r)"
    using empty by (auto simp: shmring_is_empty_def Let_def split: if_splits)
  obtain r' where r': "shmring_push r [] 0 = Some (0, r')"
      "full (hdr r') = 1" "write_pos (hdr r') = read_pos (hdr r')"
    using push_bytes [OF inv, of 0 "[]"] ring_invD [OF inv] e by (auto simp: word_unat_eq_iff)
  then show ?thesis by (auto simp: shmring_is_empty_def shmring_get_freesz_def)
qed

theorem shmring_push_zero_fills_witness:
  "\<exists>r'. shmring_push demo_ring [] 0 = Some (0, r') \<and> shmring_get_freesz r' = 0"
  using shmring_push_zero_fills [of demo_ring]
  by (auto simp: demo_ring_def ring_inv_def shmring_is_empty_def)

end
