(* ===== verification/Channel.thy ===== *)
theory Channel
  imports Shmring
begin

text \<open>
  The proxy message channel (\<open>src/proxy/channel.c\<close>) and the message fetch of the host proxy
  (\<open>channel_poll_vm\<close> in \<open>src/proxy/host/ivshmem.c\<close>). A channel is a pair of rings. The writer
  spins until its message fits: what the other end does to the ring between two attempts is the
  parameter \<open>peer\<close> of the model, so a writer whose peer never drains the ring has no result.
\<close>

section \<open>Model\<close>

record channel =
  ch_rx :: ring_buffer
  ch_tx :: ring_buffer

definition CHAN_SIZE :: u64 where "CHAN_SIZE = 0x2000"

definition MSG_TYPE_HELLO :: u8 where "MSG_TYPE_HELLO = 1"
definition MSG_TYPE_TASINFO_REQ :: u8 where "MSG_TYPE_TASINFO_REQ = 2"
definition MSG_TYPE_TASINFO_RES :: u8 where "MSG_TYPE_TASINFO_RES = 3"
definition MSG_TYPE_CONTEXT_REQ :: u8 where "MSG_TYPE_CONTEXT_REQ = 4"
definition MSG_TYPE_CONTEXT_RES :: u8 where "MSG_TYPE_CONTEXT_RES = 5"
definition MSG_TYPE_POKE_APP_CTX :: u8 where "MSG_TYPE_POKE_APP_CTX = 6"
definition MSG_TYPE_POKE_TAS_KERNEL :: u8 where "MSG_TYPE_POKE_TAS_KERNEL = 7"
definition MSG_TYPE_POKE_TAS_CORE :: u8 where "MSG_TYPE_POKE_TAS_CORE = 8"
definition MSG_TYPE_NEWAPP_REQ :: u8 where "MSG_TYPE_NEWAPP_REQ = 9"
definition MSG_TYPE_NEWAPP_RES :: u8 where "MSG_TYPE_NEWAPP_RES = 10"

lemmas MSG_TYPE_defs =
  MSG_TYPE_HELLO_def MSG_TYPE_TASINFO_REQ_def MSG_TYPE_TASINFO_RES_def MSG_TYPE_CONTEXT_REQ_def
  MSG_TYPE_CONTEXT_RES_def MSG_TYPE_POKE_APP_CTX_def MSG_TYPE_POKE_TAS_KERNEL_def
  MSG_TYPE_POKE_TAS_CORE_def MSG_TYPE_NEWAPP_REQ_def MSG_TYPE_NEWAPP_RES_def

definition channel_init ::
  "bool \<Rightarrow> bool \<Rightarrow> bool \<Rightarrow> (ring_header \<times> bytes) \<Rightarrow> (ring_header \<times> bytes) \<Rightarrow> channel option" where
  "channel_init chan_ok tx_ok rx_ok tx_mem rx_mem =
     (if \<not> chan_ok then None
      else do {
        tx \<leftarrow> shmring_init tx_ok (fst tx_mem) (snd tx_mem) CHAN_SIZE;
        rx \<leftarrow> shmring_init rx_ok (fst rx_mem) (snd rx_mem) CHAN_SIZE;
        Some \<lparr>ch_rx = rx, ch_tx = tx\<rparr> })"

partial_function (option) channel_write_loop ::
  "(nat \<Rightarrow> ring_buffer \<Rightarrow> ring_buffer) \<Rightarrow> nat \<Rightarrow> ring_buffer \<Rightarrow> bytes \<Rightarrow> u64 \<Rightarrow>
     (u64 \<times> ring_buffer) option" where
  "channel_write_loop peer k tx b sz =
     (if shmring_get_freesz tx \<ge> sz then do {
        (ret, tx') \<leftarrow> shmring_push tx b sz;
        c_assert (ret = sz \<or> ret = 0);
        Some (ret, tx') }
      else channel_write_loop peer (Suc k) (peer k tx) b sz)"

definition channel_write ::
  "(nat \<Rightarrow> ring_buffer \<Rightarrow> ring_buffer) \<Rightarrow> channel \<Rightarrow> bytes \<Rightarrow> u64 \<Rightarrow> (u64 \<times> channel) option" where
  "channel_write peer chan b sz = do {
     (ret, tx) \<leftarrow> channel_write_loop peer 0 (ch_tx chan) b sz;
     Some (ret, chan\<lparr>ch_tx := tx\<rparr>) }"

definition channel_read :: "channel \<Rightarrow> u64 \<Rightarrow> (u64 \<times> bytes \<times> channel) option" where
  "channel_read chan sz = do {
     (ret, x, rx) \<leftarrow> shmring_pop (ch_rx chan) sz;
     Some (ret, x, chan\<lparr>ch_rx := rx\<rparr>) }"

text \<open>When nothing can be read the message type is \<open>(uint8_t) -1\<close>.\<close>

definition channel_get_msg_type :: "channel \<Rightarrow> u8 option" where
  "channel_get_msg_type chan = do {
     (ret, x) \<leftarrow> shmring_read (ch_rx chan) 1;
     if i2s (s2i ret) < 1 then Some (- 1)
     else (case x of t # _ \<Rightarrow> Some t | [] \<Rightarrow> None) }"

text \<open>The sizes of the packed message structs of \<open>src/proxy/channel.h\<close>.\<close>

definition channel_get_type_size :: "u8 \<Rightarrow> u64" where
  "channel_get_type_size t =
     (if t = MSG_TYPE_HELLO then 1 + 4
      else if t = MSG_TYPE_TASINFO_REQ then 1
      else if t = MSG_TYPE_TASINFO_RES then 1 + 0x1000
      else if t = MSG_TYPE_CONTEXT_REQ then 1 + 3 * 4 + (3 * 4 + 2 * 4)
      else if t = MSG_TYPE_CONTEXT_RES then 1 + 2 * 4 + 8 + (32 + 16 * 128)
      else if t = MSG_TYPE_POKE_APP_CTX then 1 + 4
      else if t = MSG_TYPE_POKE_TAS_KERNEL then 1
      else if t = MSG_TYPE_POKE_TAS_CORE then 1 + 4
      else if t = MSG_TYPE_NEWAPP_REQ then 1 + 4
      else if t = MSG_TYPE_NEWAPP_RES then 1 + 4
      else - 1)"

text \<open>
  The fetch of \<open>channel_poll_vm\<close>: nothing on an empty ring, otherwise the type, its size and the
  message. The dispatch that follows only looks at the result.
\<close>

definition channel_poll_vm :: "channel \<Rightarrow> ((u8 \<times> bytes) option \<times> channel) option" where
  "channel_poll_vm chan =
     (if shmring_is_empty (ch_rx chan) \<noteq> 0 then Some (None, chan)
      else do {
        msg_type \<leftarrow> channel_get_msg_type chan;
        let msg_size = channel_get_type_size msg_type;
        (ret, msg, chan') \<leftarrow> channel_read chan msg_size;
        Some (Some (msg_type, msg), chan') })"

text \<open>\<open>channel_drain n\<close> polls until the ring is empty or \<open>n\<close> messages were fetched.\<close>

fun channel_drain :: "nat \<Rightarrow> channel \<Rightarrow> ((u8 \<times> bytes) list \<times> channel) option" where
  "channel_drain 0 chan = Some ([], chan)"
| "channel_drain (Suc n) chan =
     (case channel_poll_vm chan of
        None \<Rightarrow> None
      | Some (None, chan') \<Rightarrow> Some ([], chan')
      | Some (Some m, chan') \<Rightarrow> do { (ms, chan'') \<leftarrow> channel_drain n chan'; Some (m # ms, chan'') })"

section \<open>Writing\<close>

fun peer_run :: "(nat \<Rightarrow> ring_buffer \<Rightarrow> ring_buffer) \<Rightarrow> nat \<Rightarrow> nat \<Rightarrow> ring_buffer \<Rightarrow> ring_buffer" where
  "peer_run peer i 0 r = r"
| "peer_run peer i (Suc k) r = peer_run peer (Suc i) k (peer i r)"

lemma write_loop_room:
  assumes "ring_inv tx" and "0 < sz" and "length b = unat sz" and "sz \<le> shmring_get_freesz tx"
  shows "\<exists>tx'. channel_write_loop peer i tx b sz = Some (sz, tx') \<and> ring_inv tx' \<and>
     ring_list tx' = ring_list tx @ b"
  using shm.push_room [OF assms] assms(4) by (subst channel_write_loop.simps) auto

lemma write_loop_delivers:
  assumes "\<And>k r. ring_inv r \<Longrightarrow> ring_inv (peer k r)"
    and "ring_inv tx" and "0 < sz" and "length b = unat sz"
    and "sz \<le> shmring_get_freesz (peer_run peer i n tx)"
  shows "\<exists>k tx'. k \<le> n \<and> channel_write_loop peer i tx b sz = Some (sz, tx') \<and> ring_inv tx' \<and>
     ring_list tx' = ring_list (peer_run peer i k tx) @ b"
  using assms(2,5)
proof (induction n arbitrary: i tx)
  case 0
  then show ?case
    using write_loop_room [OF _ assms(3,4)] by (intro exI [of _ 0]) auto
next
  case (Suc n)
  show ?case
  proof (cases "sz \<le> shmring_get_freesz tx")
    case True
    then show ?thesis
      using write_loop_room [OF Suc.prems(1) assms(3,4)] by (intro exI [of _ 0]) auto
  next
    case False
    then have eq: "channel_write_loop peer i tx b sz =
        channel_write_loop peer (Suc i) (peer i tx) b sz"
      by (subst channel_write_loop.simps) simp
    from Suc.prems(2) have "sz \<le> shmring_get_freesz (peer_run peer (Suc i) n (peer i tx))" by simp
    from Suc.IH [OF assms(1) [OF Suc.prems(1)] this] obtain k tx' where
      "k \<le> n" "channel_write_loop peer (Suc i) (peer i tx) b sz = Some (sz, tx')" "ring_inv tx'"
      "ring_list tx' = ring_list (peer_run peer (Suc i) k (peer i tx)) @ b" by blast
    then show ?thesis using eq by (intro exI [of _ "Suc k"]) auto
  qed
qed

text \<open>
  C28: if the peer eventually makes room, the spinning writer returns the full size and its message
  ends up behind whatever the peer has left in the ring.
\<close>

theorem channel_write_delivers:
  assumes "\<And>k r. ring_inv r \<Longrightarrow> ring_inv (peer k r)"
    and "ring_inv (ch_tx chan)" and "0 < sz" and "length b = unat sz"
    and "sz \<le> shmring_get_freesz (peer_run peer 0 n (ch_tx chan))"
  shows "\<exists>k tx'. k \<le> n \<and> channel_write peer chan b sz = Some (sz, chan\<lparr>ch_tx := tx'\<rparr>) \<and>
     ring_inv tx' \<and> ring_list tx' = ring_list (peer_run peer 0 k (ch_tx chan)) @ b"
  using write_loop_delivers [OF assms] by (fastforce simp: channel_write_def)

definition demo_chan :: channel where
  "demo_chan = \<lparr>ch_rx = demo_ring, ch_tx = demo_ring\<rparr>"

theorem channel_write_delivers_witness:
  "\<exists>tx'. channel_write (\<lambda>_ r. r) demo_chan [1, 2, 3] 3 = Some (3, demo_chan\<lparr>ch_tx := tx'\<rparr>) \<and>
     ring_list tx' = [1, 2, 3]"
proof -
  have inv: "ring_inv demo_ring" by (simp add: ring_inv_def demo_ring_def)
  have free: "shmring_get_freesz demo_ring = 4" by (simp add: shmring_get_freesz_def demo_ring_def)
  have list: "ring_list demo_ring = []"
    by (simp add: ring_list_def ring_used_def demo_ring_def circ_slice_def)
  show ?thesis
    using channel_write_delivers [of "\<lambda>_ r. r" demo_chan 3 "[1, 2, 3]" 0] inv free list
    by (auto simp: demo_chan_def)
qed

section \<open>Reading\<close>

definition well_formed_msg :: "bytes \<Rightarrow> bool" where
  "well_formed_msg m \<longleftrightarrow> m \<noteq> [] \<and> length m = unat (channel_get_type_size (hd m))"

lemma used_zero_iff:
  assumes inv: "ring_inv r"
  shows "ring_used r = 0 \<longleftrightarrow> full (hdr r) = 0 \<and> write_pos (hdr r) = read_pos (hdr r)"
  using ring_invD(2,4,5) [OF inv]
  by (auto simp: ring_used_cases [OF inv] word_unat_eq_iff split: if_splits)

lemma empty_iff:
  assumes "ring_inv r"
  shows "shmring_is_empty r = (if ring_list r = [] then 1 else 0)"
proof -
  have "ring_list r = [] \<longleftrightarrow> ring_used r = 0" by (metis length_0_conv length_ring_list)
  then show ?thesis using used_zero_iff [OF assms] by (simp add: shmring_is_empty_def Let_def)
qed

lemma poll_empty:
  assumes "ring_inv (ch_rx chan)" and "ring_list (ch_rx chan) = []"
  shows "channel_poll_vm chan = Some (None, chan)"
  using assms by (simp add: channel_poll_vm_def empty_iff)

lemma poll_message:
  assumes inv: "ring_inv (ch_rx chan)" and cont: "ring_list (ch_rx chan) = m @ rest"
    and wf: "well_formed_msg m"
  shows "\<exists>chan'. channel_poll_vm chan = Some (Some (hd m, m), chan') \<and>
     ring_inv (ch_rx chan') \<and> ring_list (ch_rx chan') = rest"
proof -
  from wf obtain t ts where m: "m = t # ts" by (cases m) (auto simp: well_formed_msg_def)
  have len: "length m = unat (channel_get_type_size t)" using wf m by (simp add: well_formed_msg_def)
  have "shmring_read (ch_rx chan) 1 = Some (1, [t])"
    using shm.peek_first [OF inv, of t "ts @ rest"] cont m by simp
  then have ty: "channel_get_msg_type chan = Some t"
    by (simp add: channel_get_msg_type_def)
  obtain rx' where "shmring_pop (ch_rx chan) (channel_get_type_size t) =
      Some (channel_get_type_size t, m, rx')" "ring_inv rx'" "ring_list rx' = rest"
    using shm.pop_message [OF inv cont len] m by auto
  then show ?thesis
    using inv cont m ty by (simp add: channel_poll_vm_def empty_iff channel_read_def)
qed

text \<open>
  C29: message framing. When the receive ring holds a sequence of well-formed messages (each as long
  as its type byte says), polling returns exactly these messages, in the order they were written,
  and leaves the ring empty.
\<close>

theorem channel_drain_messages:
  assumes "ring_inv (ch_rx chan)" and "ring_list (ch_rx chan) = concat ms"
    and "\<forall>m \<in> set ms. well_formed_msg m" and "length ms < n"
  shows "\<exists>chan'. channel_drain n chan = Some (map (\<lambda>m. (hd m, m)) ms, chan') \<and>
     ring_inv (ch_rx chan') \<and> ring_list (ch_rx chan') = []"
  using assms
proof (induction ms arbitrary: chan n)
  case Nil
  then obtain k where "n = Suc k" by (cases n) auto
  with Nil show ?case by (simp add: poll_empty)
next
  case (Cons m ms)
  then obtain k where n: "n = Suc k" and k: "length ms < k" by (cases n) auto
  obtain chan' where c: "channel_poll_vm chan = Some (Some (hd m, m), chan')"
      "ring_inv (ch_rx chan')" "ring_list (ch_rx chan') = concat ms"
    using poll_message [of chan m "concat ms"] Cons.prems by auto
  from Cons.IH [OF c(2,3) _ k] Cons.prems obtain chan'' where
    "channel_drain k chan' = Some (map (\<lambda>m. (hd m, m)) ms, chan'')"
    "ring_inv (ch_rx chan'')" "ring_list (ch_rx chan'') = []" by auto
  then show ?case using c n by simp
qed

definition demo_rx_chan :: channel where
  "demo_rx_chan =
     \<lparr>ch_rx = \<lparr>hdr = \<lparr>write_pos = 1, read_pos = 3, full = 0, ring_size = 4\<rparr>,
                buf = [7, 0, 0, 2], rb_size = 64\<rparr>,
      ch_tx = demo_ring\<rparr>"

theorem channel_drain_messages_witness:
  "\<exists>chan'. channel_drain 3 demo_rx_chan = Some ([(2, [2]), (7, [7])], chan') \<and>
     ring_list (ch_rx chan') = []"
proof -
  have "ring_inv (ch_rx demo_rx_chan)" by (simp add: ring_inv_def demo_rx_chan_def)
  moreover have "ring_list (ch_rx demo_rx_chan) = concat [[2], [7]]"
    by (simp add: ring_list_def ring_used_def demo_rx_chan_def circ_slice_def)
  moreover have "\<forall>m \<in> set [[2], [7]]. well_formed_msg m"
    by (simp add: well_formed_msg_def channel_get_type_size_def MSG_TYPE_defs)
  ultimately show ?thesis
    using channel_drain_messages [of demo_rx_chan "[[2], [7]]" 3] by auto
qed

end
