(* ===== verification/Region_Allocator.thy ===== *)
theory Region_Allocator
  imports Tas_Prelude
begin

text \<open>
  The contract of an allocator of address ranges, as the slow path uses it for queue and payload
  buffers: \<open>inv s live\<close> says that the allocator state \<open>s\<close> and the list \<open>live\<close> of handles
  handed out so far are consistent. An allocation hands out a region of the requested size that is
  disjoint from every live region; a failed one changes nothing; freeing a live handle makes it
  available again. The client facts are about any sequence of such calls.
\<close>

datatype 'h alloc_op = Alloc u64 | Free 'h

fun run_ops ::
  "('s \<Rightarrow> u64 \<Rightarrow> ('s \<times> 'h option) option) \<Rightarrow> ('s \<Rightarrow> 'h \<Rightarrow> 's option) \<Rightarrow>
     's \<times> 'h list \<Rightarrow> 'h alloc_op list \<Rightarrow> ('s \<times> 'h list) option" where
  "run_ops al fr (s, live) [] = Some (s, live)"
| "run_ops al fr (s, live) (Alloc n # ops) =
     (case al s n of
        None \<Rightarrow> None
      | Some (s', None) \<Rightarrow> run_ops al fr (s', live) ops
      | Some (s', Some h) \<Rightarrow> run_ops al fr (s', h # live) ops)"
| "run_ops al fr (s, live) (Free h # ops) =
     (if h \<in> set live
      then (case fr s h of None \<Rightarrow> None | Some s' \<Rightarrow> run_ops al fr (s', remove1 h live) ops)
      else run_ops al fr (s, live) ops)"

locale region_allocator =
  fixes alloc :: "'s \<Rightarrow> u64 \<Rightarrow> ('s \<times> 'h option) option"
    and free :: "'s \<Rightarrow> 'h \<Rightarrow> 's option"
    and region :: "'h \<Rightarrow> nat set"
    and inv :: "'s \<Rightarrow> 'h list \<Rightarrow> bool"
  assumes alloc_total: "inv s live \<Longrightarrow> \<exists>r. alloc s n = Some r"
    and alloc_some: "inv s live \<Longrightarrow> alloc s n = Some (s', Some h) \<Longrightarrow>
      inv s' (h # live) \<and> card (region h) = unat n"
    and alloc_none: "inv s live \<Longrightarrow> alloc s n = Some (s', None) \<Longrightarrow> s' = s"
    and free_live: "inv s live \<Longrightarrow> h \<in> set live \<Longrightarrow>
      \<exists>s'. free s h = Some s' \<and> inv s' (remove1 h live)"
    and live_disjoint: "inv s live \<Longrightarrow> i < j \<Longrightarrow> j < length live \<Longrightarrow>
      region (live ! i) \<inter> region (live ! j) = {}"
begin

lemma run_keeps:
  assumes "inv s live"
  shows "\<exists>s' live'. run_ops alloc free (s, live) ops = Some (s', live') \<and> inv s' live'"
  using assms
proof (induction ops arbitrary: s live)
  case Nil
  then show ?case by simp
next
  case (Cons x ops)
  show ?case
  proof (cases x)
    case (Alloc n)
    obtain s' r where a: "alloc s n = Some (s', r)"
      using alloc_total [OF Cons.prems, of n] by auto
    show ?thesis
    proof (cases r)
      case None
      with a Alloc Cons show ?thesis using alloc_none [OF Cons.prems] by fastforce
    next
      case (Some h)
      with a have "inv s' (h # live)" using alloc_some [OF Cons.prems] by blast
      from Cons.IH [OF this] a Some Alloc show ?thesis by simp
    qed
  next
    case (Free h)
    show ?thesis
    proof (cases "h \<in> set live")
      case True
      with free_live [OF Cons.prems] obtain s' where
        "free s h = Some s'" "inv s' (remove1 h live)" by blast
      with Cons.IH True Free show ?thesis by simp
    next
      case False
      with Cons Free show ?thesis by simp
    qed
  qed
qed

lemma run_disjoint:
  assumes "inv s live" and "run_ops alloc free (s, live) ops = Some (s', live')"
    and "i < j" and "j < length live'"
  shows "region (live' ! i) \<inter> region (live' ! j) = {}"
  using run_keeps [OF assms(1), of ops] assms(2-4) live_disjoint by auto

end

end
