(* ===== verification/Packet_Defs.thy ===== *)
theory Packet_Defs
  imports Tas_Prelude
begin

text \<open>
  Packet formats (\<open>src/include/packet_defs.h\<close>) and big-endian integers
  (\<open>src/include/utils.h\<close>). A header struct is a record with the struct's fields in order; a
  big-endian integer keeps its raw memory value, as the wrapper structs of the C code do, and is
  read and written with \<open>f_beui..\<close> and \<open>t_beui..\<close>.
\<close>

unbundle bit_operations_syntax

section \<open>Big-endian integers\<close>

definition bswap16 :: "u16 \<Rightarrow> u16" where
  "bswap16 w = push_bit 8 w OR drop_bit 8 w"

definition bswap32 :: "u32 \<Rightarrow> u32" where
  "bswap32 w = push_bit 24 w OR (push_bit 8 w AND 0xFF0000) OR (drop_bit 8 w AND 0xFF00) OR drop_bit 24 w"

datatype beui16 = BE16 u16
datatype beui32 = BE32 u32

fun f_beui16 :: "beui16 \<Rightarrow> u16" where "f_beui16 (BE16 w) = bswap16 w"
fun f_beui32 :: "beui32 \<Rightarrow> u32" where "f_beui32 (BE32 w) = bswap32 w"
definition t_beui16 :: "u16 \<Rightarrow> beui16" where "t_beui16 w = BE16 (bswap16 w)"
definition t_beui32 :: "u32 \<Rightarrow> beui32" where "t_beui32 w = BE32 (bswap32 w)"

abbreviation ntohs :: "u16 \<Rightarrow> u16" where "ntohs \<equiv> bswap16"
abbreviation htons :: "u16 \<Rightarrow> u16" where "htons \<equiv> bswap16"

lemma bswap16_invol [simp]: "bswap16 (bswap16 w) = w"
  by (rule bit_word_eqI) (auto simp: bswap16_def bit_simps)

lemma less_32_cases: "n < (32::nat) \<Longrightarrow> n < 8 \<or> (8 \<le> n \<and> n < 16) \<or> (16 \<le> n \<and> n < 24) \<or> (24 \<le> n \<and> n < 32)"
  by arith

lemma bit_mask_FF:
  "bit (0xFF0000 :: u32) n \<longleftrightarrow> 16 \<le> n \<and> n < 24"
  "bit (0xFF00 :: u32) n \<longleftrightarrow> 8 \<le> n \<and> n < 16"
proof -
  have m1: "(0xFF0000 :: u32) = push_bit 16 (mask 8)"
    by (simp add: mask_numeral push_bit_eq_mult)
  show "bit (0xFF0000 :: u32) n \<longleftrightarrow> 16 \<le> n \<and> n < 24"
    unfolding m1 by (auto simp: bit_simps)
  have m2: "(0xFF00 :: u32) = push_bit 8 (mask 8)"
    by (simp add: mask_numeral push_bit_eq_mult)
  show "bit (0xFF00 :: u32) n \<longleftrightarrow> 8 \<le> n \<and> n < 16"
    unfolding m2 by (auto simp: bit_simps)
qed

lemma bit_bswap32:
  "bit (bswap32 w) n \<longleftrightarrow>
     n < 32 \<and> bit w (if n < 8 then n + 24 else if n < 16 then n + 8 else if n < 24 then n - 8 else n - 24)"
proof (cases "n < 32")
  case True
  then show ?thesis
    unfolding bswap32_def bit_or_iff bit_and_iff bit_mask_FF
    using less_32_cases [OF True]
    by (elim disjE conjE)
      (auto simp: bit_push_bit_iff bit_drop_bit_eq add.commute dest: bit_imp_le_length)
next
  case False
  then show ?thesis using bit_imp_le_length [of "bswap32 w" n] by auto
qed

lemma bswap32_invol [simp]: "bswap32 (bswap32 w) = w"
proof (rule bit_word_eqI)
  fix n assume "n < LENGTH(32)"
  then have n: "n < 32" by simp
  show "bit (bswap32 (bswap32 w)) n = bit w n"
    using less_32_cases [OF n] by (elim disjE conjE) (auto simp: bit_bswap32)
qed

lemma f_t_beui16 [simp]: "f_beui16 (t_beui16 w) = w"
  by (simp add: t_beui16_def)

lemma f_t_beui32 [simp]: "f_beui32 (t_beui32 w) = w"
  by (simp add: t_beui32_def)

lemma t_f_beui16 [simp]: "t_beui16 (f_beui16 b) = b"
  by (cases b) (simp add: t_beui16_def)

lemma t_f_beui32 [simp]: "t_beui32 (f_beui32 b) = b"
  by (cases b) (simp add: t_beui32_def)

section \<open>Headers\<close>

type_synonym tas_eth_addr = "48 word"
type_synonym ip_addr_t = beui32

record eth_hdr =
  eth_dest :: tas_eth_addr
  eth_src :: tas_eth_addr
  eth_type :: beui16

record ip_hdr =
  ip_v_hl :: u8
  ip_tos :: u8
  ip_len :: beui16
  ip_id :: beui16
  ip_offset :: beui16
  ip_ttl :: u8
  ip_proto :: u8
  ip_chksum :: u16
  ip_src :: ip_addr_t
  ip_dest :: ip_addr_t

record gre_hdr =
  gre_c_k_s_ver :: beui16
  gre_proto :: beui16
  gre_key :: beui32

record tcp_hdr =
  tcp_src :: beui16
  tcp_dest :: beui16
  tcp_seqno :: beui32
  tcp_ackno :: beui32
  tcp_hdrlen_rsvd_flags :: u16
  tcp_wnd :: beui16
  tcp_chksum :: u16
  tcp_urgp :: beui16

record tcp_timestamp_opt =
  ts_kind :: u8
  ts_length :: u8
  ts_val :: beui32
  ts_ecr :: beui32

record pkt_tcp =
  p_eth :: eth_hdr
  p_ip :: ip_hdr
  p_tcp :: tcp_hdr

record pkt_gre =
  g_eth :: eth_hdr
  g_out_ip :: ip_hdr
  g_gre :: gre_hdr
  g_in_ip :: ip_hdr
  g_tcp :: tcp_hdr

text \<open>Sizes of the packed structs.\<close>

definition sizeof_eth_hdr :: u64 where "sizeof_eth_hdr = 14"
definition sizeof_ip_hdr :: u64 where "sizeof_ip_hdr = 20"
definition sizeof_tcp_hdr :: u64 where "sizeof_tcp_hdr = 20"
definition sizeof_gre_hdr :: u64 where "sizeof_gre_hdr = 8"
definition sizeof_pkt_tcp :: u64 where
  "sizeof_pkt_tcp = sizeof_eth_hdr + sizeof_ip_hdr + sizeof_tcp_hdr"
definition sizeof_pkt_gre :: u64 where
  "sizeof_pkt_gre = sizeof_eth_hdr + sizeof_ip_hdr + sizeof_gre_hdr + sizeof_ip_hdr + sizeof_tcp_hdr"
definition sizeof_ts_opt :: u64 where "sizeof_ts_opt = 10"

lemmas sizeof_defs = sizeof_eth_hdr_def sizeof_ip_hdr_def sizeof_tcp_hdr_def sizeof_gre_hdr_def
  sizeof_pkt_tcp_def sizeof_pkt_gre_def sizeof_ts_opt_def

definition ETH_TYPE_IP :: u16 where "ETH_TYPE_IP = 0x0800"
definition IP_PROTO_TCP :: u8 where "IP_PROTO_TCP = 6"
definition IP_PROTO_GRE :: u8 where "IP_PROTO_GRE = 47"
definition GRE_PROTO_IP :: u16 where "GRE_PROTO_IP = 0x0800"
definition TAS_IP_ECN_NONE :: u8 where "TAS_IP_ECN_NONE = 0"
definition TAS_IP_ECN_ECT0 :: u8 where "TAS_IP_ECN_ECT0 = 2"
definition TAS_IP_ECN_CE :: u8 where "TAS_IP_ECN_CE = 3"

definition TAS_TCP_FIN :: u16 where "TAS_TCP_FIN = 0x01"
definition TAS_TCP_SYN :: u16 where "TAS_TCP_SYN = 0x02"
definition TAS_TCP_RST :: u16 where "TAS_TCP_RST = 0x04"
definition TAS_TCP_PSH :: u16 where "TAS_TCP_PSH = 0x08"
definition TAS_TCP_ACK :: u16 where "TAS_TCP_ACK = 0x10"
definition TAS_TCP_ECE :: u16 where "TAS_TCP_ECE = 0x40"
definition TAS_TCP_CWR :: u16 where "TAS_TCP_CWR = 0x80"
definition TAS_TCP_FLAGS :: u16 where "TAS_TCP_FLAGS = 0x1ff"

definition TCP_OPT_END_OF_OPTIONS :: u8 where "TCP_OPT_END_OF_OPTIONS = 0"
definition TCP_OPT_NO_OP :: u8 where "TCP_OPT_NO_OP = 1"
definition TCP_OPT_TIMESTAMP :: u8 where "TCP_OPT_TIMESTAMP = 8"

lemmas pkt_consts = ETH_TYPE_IP_def IP_PROTO_TCP_def IP_PROTO_GRE_def GRE_PROTO_IP_def
  TAS_IP_ECN_NONE_def TAS_IP_ECN_ECT0_def TAS_IP_ECN_CE_def
  TAS_TCP_FIN_def TAS_TCP_SYN_def TAS_TCP_RST_def TAS_TCP_PSH_def TAS_TCP_ACK_def TAS_TCP_ECE_def
  TAS_TCP_CWR_def TAS_TCP_FLAGS_def TCP_OPT_END_OF_OPTIONS_def TCP_OPT_NO_OP_def TCP_OPT_TIMESTAMP_def

definition IPH_V :: "ip_hdr \<Rightarrow> u8" where "IPH_V h = drop_bit 4 (ip_v_hl h)"
definition IPH_HL :: "ip_hdr \<Rightarrow> u8" where "IPH_HL h = ip_v_hl h AND 0x0f"
definition IPH_ECN :: "ip_hdr \<Rightarrow> u8" where "IPH_ECN h = ip_tos h AND 0x3"
definition IPH_VHL_SET :: "u8 \<Rightarrow> u8 \<Rightarrow> ip_hdr \<Rightarrow> ip_hdr" where
  "IPH_VHL_SET v hl h = h\<lparr>ip_v_hl := push_bit 4 v OR hl\<rparr>"
definition IPH_ECN_SET :: "u8 \<Rightarrow> ip_hdr \<Rightarrow> ip_hdr" where
  "IPH_ECN_SET e h = h\<lparr>ip_tos := (ip_tos h AND 0xfc) OR e\<rparr>"

definition TCPH_HDRLEN :: "tcp_hdr \<Rightarrow> u16" where
  "TCPH_HDRLEN h = drop_bit 12 (ntohs (tcp_hdrlen_rsvd_flags h))"
definition TCPH_FLAGS :: "tcp_hdr \<Rightarrow> u16" where
  "TCPH_FLAGS h = ntohs (tcp_hdrlen_rsvd_flags h) AND TAS_TCP_FLAGS"
definition TCPH_HDRLEN_FLAGS_SET :: "u16 \<Rightarrow> u16 \<Rightarrow> tcp_hdr \<Rightarrow> tcp_hdr" where
  "TCPH_HDRLEN_FLAGS_SET len flags h =
     h\<lparr>tcp_hdrlen_rsvd_flags := htons (push_bit 12 len OR flags)\<rparr>"
definition GREH_CKSV_SET :: "u16 \<Rightarrow> u16 \<Rightarrow> u16 \<Rightarrow> u16 \<Rightarrow> gre_hdr \<Rightarrow> gre_hdr" where
  "GREH_CKSV_SET c k s v h =
     h\<lparr>gre_c_k_s_ver := t_beui16 (push_bit 15 c OR push_bit 13 k OR push_bit 12 s OR v)\<rparr>"

section \<open>The timestamp option in memory\<close>

text \<open>A raw 32-bit value in memory, least significant byte first as on x86.\<close>

fun be32_store :: "beui32 \<Rightarrow> bytes" where
  "be32_store (BE32 w) = [ucast w, ucast (drop_bit 8 w), ucast (drop_bit 16 w), ucast (drop_bit 24 w)]"

fun be32_load :: "bytes \<Rightarrow> beui32" where
  "be32_load (a # b # c # d # _) =
     BE32 (ucast a OR push_bit 8 (ucast b) OR push_bit 16 (ucast c) OR push_bit 24 (ucast d))"
| "be32_load _ = BE32 0"

definition ts_opt_store :: "tcp_timestamp_opt \<Rightarrow> bytes" where
  "ts_opt_store t = [ts_kind t, ts_length t] @ be32_store (ts_val t) @ be32_store (ts_ecr t)"

definition ts_opt_load :: "bytes \<Rightarrow> nat \<Rightarrow> tcp_timestamp_opt option" where
  "ts_opt_load mem off = do {
     b \<leftarrow> mem_read mem off (unat sizeof_ts_opt);
     Some \<lparr>ts_kind = b ! 0, ts_length = b ! 1, ts_val = be32_load (drop 2 b), ts_ecr = be32_load (drop 6 b)\<rparr> }"

lemma be32_load_store [simp]: "be32_load (be32_store v @ r) = v"
proof (cases v)
  case (BE32 w)
  have "ucast (ucast w :: u8) OR push_bit 8 (ucast (ucast (drop_bit 8 w) :: u8))
      OR push_bit 16 (ucast (ucast (drop_bit 16 w) :: u8)) OR push_bit 24 (ucast (ucast (drop_bit 24 w) :: u8)) = w"
    (is "?l = w")
  proof (rule bit_word_eqI)
    fix n assume "n < LENGTH(32)"
    then have n: "n < 32" by simp
    show "bit ?l n = bit w n"
      using less_32_cases [OF n] by (elim disjE conjE) (auto simp: bit_simps)
  qed
  then show ?thesis using BE32 by simp
qed

lemma length_be32_store [simp]: "length (be32_store v) = 4"
  by (cases v) simp

lemma ts_opt_load_store:
  "ts_opt_load (pre @ ts_opt_store v @ post) (length pre) = Some v"
proof -
  have l: "length (ts_opt_store v) = 10" by (simp add: ts_opt_store_def)
  have "drop 2 (ts_opt_store v) = be32_store (ts_val v) @ be32_store (ts_ecr v)"
    "drop 6 (ts_opt_store v) = be32_store (ts_ecr v) @ []"
    by (simp_all add: ts_opt_store_def)
  with l show ?thesis
    by (simp add: ts_opt_load_def mem_read_def sizeof_defs) (simp add: ts_opt_store_def be32_load_store [of _ "[]", simplified])
qed

lemma bit_below:
  fixes w :: "'a::len word"
  assumes "unat w < 2 ^ k" and "k \<le> n"
  shows "\<not> bit w n"
proof -
  have "unat w < 2 ^ n"
    using assms power_increasing [of k n "2::nat"] by linarith
  then have "\<not> bit (unat w) n" by (simp add: bit_iff_odd)
  then show ?thesis by (simp add: bit_unsigned_iff)
qed

lemma TCPH_HDRLEN_set [simp]:
  assumes "unat len < 2 ^ 4" and "unat flags < 2 ^ 12"
  shows "TCPH_HDRLEN (TCPH_HDRLEN_FLAGS_SET len flags h) = len"
proof -
  have "drop_bit 12 (push_bit 12 len OR flags) = len"
    using bit_below [OF assms(1)] bit_below [OF assms(2)]
    by (intro bit_word_eqI) (auto simp: bit_simps not_le [symmetric])
  then show ?thesis by (simp add: TCPH_HDRLEN_def TCPH_HDRLEN_FLAGS_SET_def)
qed

lemma TCPH_FLAGS_set [simp]:
  "TCPH_FLAGS (TCPH_HDRLEN_FLAGS_SET len flags h) = flags AND TAS_TCP_FLAGS"
proof -
  have m: "TAS_TCP_FLAGS = mask 9" by (simp add: TAS_TCP_FLAGS_def mask_numeral)
  have "(push_bit 12 len OR flags) AND TAS_TCP_FLAGS = flags AND TAS_TCP_FLAGS"
    unfolding m by (intro bit_word_eqI) (auto simp: bit_simps)
  then show ?thesis by (simp add: TCPH_FLAGS_def TCPH_HDRLEN_FLAGS_SET_def)
qed

end
