(* ===== verification/Tas_Memif.thy ===== *)
theory Tas_Memif
  imports Packet_Defs
begin

text \<open>
  The memory layout shared by fast path, slow path and applications (\<open>src/include/tas_memif.h\<close>):
  queue entries, application context registers, flow state and the flow lookup table. The spin lock
  of the flow state is left out: every operation that takes it is one step of the model.
\<close>

definition FLEXNIC_PL_VMST_NUM :: nat where "FLEXNIC_PL_VMST_NUM = 6"
definition FLEXNIC_PL_APPCTX_NUM :: nat where "FLEXNIC_PL_APPCTX_NUM = 32"
definition FLEXNIC_PL_FLOWST_NUM :: nat where "FLEXNIC_PL_FLOWST_NUM = 128 * 1024"
definition FLEXNIC_PL_FLOWHT_ENTRIES :: nat where
  "FLEXNIC_PL_FLOWHT_ENTRIES = FLEXNIC_PL_FLOWST_NUM * 2"
definition FLEXNIC_PL_FLOWHT_NBSZ :: nat where "FLEXNIC_PL_FLOWHT_NBSZ = 4"

definition FLEXNIC_PL_FLOWST_SLOWPATH :: u64 where "FLEXNIC_PL_FLOWST_SLOWPATH = 1"
definition FLEXNIC_PL_FLOWST_ECN :: u64 where "FLEXNIC_PL_FLOWST_ECN = 8"
definition FLEXNIC_PL_FLOWST_TXFIN :: u64 where "FLEXNIC_PL_FLOWST_TXFIN = 16"
definition FLEXNIC_PL_FLOWST_RXFIN :: u64 where "FLEXNIC_PL_FLOWST_RXFIN = 32"
definition FLEXNIC_PL_FLOWST_RX_MASK :: u64 where "FLEXNIC_PL_FLOWST_RX_MASK = NOT 63"

lemmas flowst_flags = FLEXNIC_PL_FLOWST_SLOWPATH_def FLEXNIC_PL_FLOWST_ECN_def
  FLEXNIC_PL_FLOWST_TXFIN_def FLEXNIC_PL_FLOWST_RXFIN_def FLEXNIC_PL_FLOWST_RX_MASK_def

definition FLEXTCP_PL_ARX_INVALID :: u8 where "FLEXTCP_PL_ARX_INVALID = 0"
definition FLEXTCP_PL_ARX_CONNUPDATE :: u16 where "FLEXTCP_PL_ARX_CONNUPDATE = 1"
definition FLEXTCP_PL_ARX_FLRXDONE :: u16 where "FLEXTCP_PL_ARX_FLRXDONE = 1"
definition FLEXTCP_PL_ATX_CONNUPDATE :: u8 where "FLEXTCP_PL_ATX_CONNUPDATE = 1"
definition FLEXTCP_PL_ATX_FLTXDONE :: u8 where "FLEXTCP_PL_ATX_FLTXDONE = 1"

text \<open>Application receive and transmit queue entries (the \<open>connupdate\<close> message).\<close>

record flextcp_pl_arx =
  arx_opaque :: u64
  arx_rx_bump :: u32
  arx_rx_pos :: u32
  arx_tx_bump :: u32
  arx_flags :: u8
  arx_type :: u8

record flextcp_pl_atx =
  atx_rx_bump :: u32
  atx_tx_bump :: u32
  atx_flow_id :: u32
  atx_bump_seq :: u16
  atx_flags :: u8
  atx_type :: u8

text \<open>Kernel receive and transmit queue entries.\<close>

record flextcp_pl_krx =
  krx_addr :: u64
  krx_len :: u16
  krx_fn_core :: u16
  krx_flow_group :: u16
  krx_vmid :: u16
  krx_type :: u8

datatype ktx_msg =
    KtxPacket u64 u16
  | KtxConnretran u32

record flextcp_pl_ktx =
  ktx_msg_of :: ktx_msg
  ktx_type :: u8

record flextcp_pl_appctx =
  ac_rx_base :: u64
  ac_tx_base :: u64
  ac_rx_len :: u32
  ac_tx_len :: u32
  ac_vm_id :: u32
  ac_last_ts :: u64
  ac_rx_head :: u32
  ac_tx_head :: u32
  ac_rx_avail :: u32

record flextcp_pl_flowst =
  fs_opaque :: u64
  fs_rx_base_sp :: u64
  fs_tx_base :: u64
  fs_rx_len :: u32
  fs_tx_len :: u32
  fs_tunnel_id :: beui32
  fs_out_local_ip :: beui32
  fs_out_remote_ip :: beui32
  fs_in_local_ip :: beui32
  fs_in_remote_ip :: beui32
  fs_local_port :: beui16
  fs_remote_port :: beui16
  fs_remote_mac :: tas_eth_addr
  fs_db_id :: u16
  fs_app_id :: u16
  fs_vm_id :: u16
  fs_flow_group :: u16
  fs_bump_seq :: u16
  fs_rx_avail :: u32
  fs_rx_next_pos :: u32
  fs_rx_next_seq :: u32
  fs_rx_remote_avail :: u32
  fs_rx_dupack_cnt :: u32
  fs_rx_ooo_start :: u32
  fs_rx_ooo_len :: u32
  fs_tx_avail :: u32
  fs_tx_sent :: u32
  fs_tx_next_pos :: u32
  fs_tx_next_seq :: u32
  fs_tx_next_ts :: u32
  fs_tx_rate :: u32
  fs_cnt_tx_drops :: u16
  fs_cnt_rx_acks :: u16
  fs_cnt_rx_ack_bytes :: u32
  fs_cnt_rx_ecn_bytes :: u32
  fs_rtt_est :: u32

record flextcp_pl_flowhte =
  hte_flow_id :: u32
  hte_flow_hash :: u32

definition FLEXNIC_PL_FLOWHTE_VALID :: u32 where "FLEXNIC_PL_FLOWHTE_VALID = push_bit 31 1"
definition FLEXNIC_PL_FLOWHTE_POSSHIFT :: nat where "FLEXNIC_PL_FLOWHTE_POSSHIFT = 29"

end
