(* ===== verification/Packetmem.thy ===== *)
theory Packetmem
  imports Region_Allocator Tas_Memif
begin

text \<open>
  The allocator of packet memory (\<open>src/tas/slow/packetmem.c\<close>). Each VM, and the slow path, has a
  free list of handles; a handle is a range of the VM's shared memory. The linked list is a HOL
  list whose order is the order of the \<open>next\<close> pointers. The result of \<open>malloc\<close> for a handle is
  the parameter \<open>ph_ok\<close>.

  The invariant \<open>pm_inv\<close> says that the free handles and the handles that are in use partition the
  managed range: every address of it is covered exactly once.
\<close>

section \<open>Model\<close>

record packetmem_handle =
  ph_base :: u64
  ph_len :: u64

type_synonym freelists = "packetmem_handle list list"


fun packetmem_init_from ::
  "(nat \<Rightarrow> bool) \<Rightarrow> u64 \<Rightarrow> u64 \<Rightarrow> nat \<Rightarrow> nat \<Rightarrow> freelists \<Rightarrow> int \<times> freelists" where
  "packetmem_init_from ph_ok data_mem_off dma_mem_size i 0 fl = (0, fl)"
| "packetmem_init_from ph_ok data_mem_off dma_mem_size i (Suc k) fl =
     (if \<not> ph_ok i then (- 1, fl)
      else packetmem_init_from ph_ok data_mem_off dma_mem_size (Suc i) k
        (fl[i := [\<lparr>ph_base = data_mem_off, ph_len = dma_mem_size - data_mem_off\<rparr>]]))"

definition packetmem_init :: "(nat \<Rightarrow> bool) \<Rightarrow> u64 \<Rightarrow> u64 \<Rightarrow> freelists \<Rightarrow> int \<times> freelists" where
  "packetmem_init ph_ok data_mem_off dma_mem_size fl =
     packetmem_init_from ph_ok data_mem_off dma_mem_size 0 (FLEXNIC_PL_VMST_NUM + 1) fl"

text \<open>The search loop of \<open>packetmem_alloc\<close>: the position of the first handle that fits.\<close>

fun first_fit :: "packetmem_handle list \<Rightarrow> u64 \<Rightarrow> nat option" where
  "first_fit [] n = None"
| "first_fit (ph # phs) n =
     (if ph_len ph < n then map_option Suc (first_fit phs n) else Some 0)"

definition packetmem_alloc ::
  "bool \<Rightarrow> nat \<Rightarrow> freelists \<Rightarrow> u64 \<Rightarrow> (freelists \<times> packetmem_handle option) option" where
  "packetmem_alloc ph_ok vmid fl n =
     (if \<not> vmid < length fl then None
      else (let l = fl ! vmid in
        case first_fit l n of
          None \<Rightarrow> Some (fl, None)
        | Some i \<Rightarrow>
            let ph = l ! i in
            if ph_len ph = n then Some (fl[vmid := take i l @ drop (Suc i) l], Some ph)
            else if \<not> ph_ok then Some (fl, None)
            else Some (fl[vmid := l[i := \<lparr>ph_base = ph_base ph + n, ph_len = ph_len ph - n\<rparr>]],
                       Some \<lparr>ph_base = ph_base ph, ph_len = n\<rparr>)))"

text \<open>
  The search loop of \<open>packetmem_free\<close>: it stops at the last handle, or at one whose successor is
  not below the freed handle, and returns how many handles it has passed. The freed handle is
  inserted after the handle passed last (\<open>ph_prev\<close>), so at this position.
\<close>

fun free_position :: "packetmem_handle list \<Rightarrow> u64 \<Rightarrow> nat" where
  "free_position (ph # ph' # phs) base =
     (if ph_base ph' < base then Suc (free_position (ph' # phs) base) else 0)"
| "free_position phs base = 0"

text \<open>
  \<open>merge_items\<close>: the inserted handle is at position \<open>i\<close>; it is first merged with its
  predecessor, if there is one, and the result then with its successor.
\<close>

definition merge_with_next :: "nat \<Rightarrow> packetmem_handle list \<Rightarrow> packetmem_handle list" where
  "merge_with_next i l =
     (if Suc i < length l \<and> ph_base (l ! i) + ph_len (l ! i) = ph_base (l ! Suc i)
      then take i l @ (l ! i)\<lparr>ph_len := ph_len (l ! i) + ph_len (l ! Suc i)\<rparr> # drop (i + 2) l
      else l)"

definition merge_items :: "nat \<Rightarrow> packetmem_handle list \<Rightarrow> packetmem_handle list" where
  "merge_items i l =
     (if i \<noteq> 0 \<and> ph_base (l ! (i - 1)) + ph_len (l ! (i - 1)) = ph_base (l ! i)
      then merge_with_next (i - 1) (merge_with_next (i - 1) l)
      else merge_with_next i l)"

definition packetmem_free ::
  "nat \<Rightarrow> freelists \<Rightarrow> packetmem_handle \<Rightarrow> freelists option" where
  "packetmem_free vmid fl handle =
     (if \<not> vmid < length fl then None
      else (let l = fl ! vmid; i = free_position l (ph_base handle) in
        Some (fl[vmid := merge_items i (take i l @ handle # drop i l)])))"

section \<open>Coverage\<close>

definition ph_region :: "packetmem_handle \<Rightarrow> nat set" where
  "ph_region h = {unat (ph_base h) ..< unat (ph_base h) + unat (ph_len h)}"

definition ph_wf :: "packetmem_handle \<Rightarrow> bool" where
  "ph_wf h \<longleftrightarrow> unat (ph_base h) + unat (ph_len h) < 2 ^ 64"

definition cover :: "packetmem_handle list \<Rightarrow> nat \<Rightarrow> nat" where
  "cover l a = (\<Sum>h\<leftarrow>l. if a \<in> ph_region h then 1 else 0)"

definition pm_inv :: "nat \<Rightarrow> nat \<Rightarrow> packetmem_handle list \<Rightarrow> packetmem_handle list \<Rightarrow> bool" where
  "pm_inv lo hi l live \<longleftrightarrow>
     (\<forall>h \<in> set l \<union> set live. ph_wf h) \<and>
     (\<forall>a. cover l a + cover live a = (if lo \<le> a \<and> a < hi then 1 else 0))"

lemma cover_simps [simp]:
  "cover [] a = 0"
  "cover (h # l) a = (if a \<in> ph_region h then 1 else 0) + cover l a"
  "cover (l @ m) a = cover l a + cover m a"
  by (simp_all add: cover_def)

lemma cover_split_at:
  assumes "i < length l"
  shows "cover l a = cover (take i l) a + (if a \<in> ph_region (l ! i) then 1 else 0) + cover (drop (Suc i) l) a"
proof -
  have "l = take i l @ l ! i # drop (Suc i) l" using assms by (simp add: id_take_nth_drop)
  then have "cover l a = cover (take i l @ l ! i # drop (Suc i) l) a" by simp
  then show ?thesis by simp
qed

lemma pm_inv_transfer:
  assumes "pm_inv lo hi l live" and "\<forall>h \<in> set l' \<union> set live'. ph_wf h"
    and "\<And>a. cover l' a + cover live' a = cover l a + cover live a"
  shows "pm_inv lo hi l' live'"
  using assms by (simp add: pm_inv_def)

lemma cover_take_drop: "cover (take i l) a + cover (drop i l) a = cover l a"
  by (metis append_take_drop_id cover_simps(3))

lemma cover_remove1: "h \<in> set l \<Longrightarrow> cover (remove1 h l) a + (if a \<in> ph_region h then 1 else 0) = cover l a"
  by (induction l) auto

lemma cover_member: "i < length l \<Longrightarrow> a \<in> ph_region (l ! i) \<Longrightarrow> 1 \<le> cover l a"
  by (simp add: cover_split_at)

lemma cover_two:
  assumes "i < j" and "j < length l" and "a \<in> ph_region (l ! i)" and "a \<in> ph_region (l ! j)"
  shows "2 \<le> cover l a"
proof -
  have "cover (drop (Suc i) l) a \<ge> 1"
    using assms cover_member [of "j - Suc i" "drop (Suc i) l" a] by simp
  then show ?thesis using assms cover_split_at [of i l a] by simp
qed


lemma ph_wf_end: "ph_wf h \<Longrightarrow> unat (ph_base h + ph_len h) = unat (ph_base h) + unat (ph_len h)"
  unfolding ph_wf_def by (rule unat_add_no_wrap) simp

lemma merged_handle:
  assumes "ph_wf g" and "ph_wf h" and "ph_base g + ph_len g = ph_base h"
  shows "ph_wf (g\<lparr>ph_len := ph_len g + ph_len h\<rparr>)"
    and "(if a \<in> ph_region (g\<lparr>ph_len := ph_len g + ph_len h\<rparr>) then 1 else (0::nat)) =
         (if a \<in> ph_region g then 1 else 0) + (if a \<in> ph_region h then 1 else 0)"
proof -
  have b: "unat (ph_base h) = unat (ph_base g) + unat (ph_len g)"
    using ph_wf_end [OF assms(1)] assms(3) by simp
  have l: "unat (ph_len g + ph_len h) = unat (ph_len g) + unat (ph_len h)"
    using assms(2) b by (intro unat_add_no_wrap) (simp add: ph_wf_def)
  show "ph_wf (g\<lparr>ph_len := ph_len g + ph_len h\<rparr>)"
    using assms(2) b l by (simp add: ph_wf_def)
  show "(if a \<in> ph_region (g\<lparr>ph_len := ph_len g + ph_len h\<rparr>) then 1 else (0::nat)) =
         (if a \<in> ph_region g then 1 else 0) + (if a \<in> ph_region h then 1 else 0)"
    using b l by (auto simp: ph_region_def)
qed

lemma merge_with_next_keeps:
  assumes "\<forall>h \<in> set l. ph_wf h"
  shows "(\<forall>h \<in> set (merge_with_next i l). ph_wf h) \<and> cover (merge_with_next i l) a = cover l a"
proof (cases "Suc i < length l \<and> ph_base (l ! i) + ph_len (l ! i) = ph_base (l ! Suc i)")
  case True
  have wf: "ph_wf (l ! i)" "ph_wf (l ! Suc i)" using True assms by auto
  have "cover l a = cover (take i l) a + (if a \<in> ph_region (l ! i) then 1 else 0) +
      ((if a \<in> ph_region (l ! Suc i) then 1 else 0) + cover (drop (i + 2) l) a)"
    using cover_split_at [of i l a] True by (simp flip: Cons_nth_drop_Suc)
  then show ?thesis
    using True assms merged_handle [OF wf] by (auto simp: merge_with_next_def dest: in_set_takeD in_set_dropD)
next
  case False
  then have "merge_with_next i l = l" by (auto simp: merge_with_next_def)
  with assms show ?thesis by simp
qed

lemma merge_items_keeps:
  assumes "\<forall>h \<in> set l. ph_wf h"
  shows "(\<forall>h \<in> set (merge_items i l). ph_wf h) \<and> cover (merge_items i l) a = cover l a"
  using assms merge_with_next_keeps [of l] merge_with_next_keeps [of "merge_with_next (i - 1) l"]
  by (simp add: merge_items_def)

lemma first_fit_Some:
  "first_fit l n = Some i \<Longrightarrow> i < length l \<and> n \<le> ph_len (l ! i)"
  by (induction l arbitrary: i) (auto split: if_splits)

lemma split_handle:
  assumes "ph_wf h" and "n \<le> ph_len h"
  defines "g \<equiv> \<lparr>ph_base = ph_base h, ph_len = n\<rparr>"
    and "r \<equiv> \<lparr>ph_base = ph_base h + n, ph_len = ph_len h - n\<rparr>"
  shows "ph_wf g" "ph_wf r"
    and "(if a \<in> ph_region h then 1 else (0::nat)) =
      (if a \<in> ph_region g then 1 else 0) + (if a \<in> ph_region r then 1 else 0)"
proof -
  have le: "unat n \<le> unat (ph_len h)" using assms(2) by (simp add: word_le_nat_alt)
  have b: "unat (ph_base h + n) = unat (ph_base h) + unat n"
    using assms(1) le by (intro unat_add_no_wrap) (simp add: ph_wf_def)
  have l: "unat (ph_len h - n) = unat (ph_len h) - unat n"
    using le by (rule unat_sub_le)
  show "ph_wf g" "ph_wf r" using assms(1) le b l by (auto simp: ph_wf_def g_def r_def)
  show "(if a \<in> ph_region h then 1 else (0::nat)) =
      (if a \<in> ph_region g then 1 else 0) + (if a \<in> ph_region r then 1 else 0)"
    using le b l by (auto simp: ph_region_def g_def r_def)
qed


section \<open>The allocator contract\<close>

lemma alloc_some_inv:
  assumes inv: "pm_inv lo hi (fl ! vmid) live" and v: "vmid < length fl"
    and al: "packetmem_alloc ph_ok vmid fl n = Some (fl', Some h)"
  shows "length fl' = length fl \<and> pm_inv lo hi (fl' ! vmid) (h # live) \<and> ph_len h = n"
proof -
  let ?l = "fl ! vmid"
  obtain i where i: "first_fit ?l n = Some i"
    using al v by (auto simp: packetmem_alloc_def Let_def split: option.splits)
  let ?ph = "?l ! i"
  have il: "i < length ?l" and fits: "n \<le> ph_len ?ph" using first_fit_Some [OF i] by auto
  have wf: "ph_wf ?ph" using inv il by (auto simp: pm_inv_def)
  note cs = cover_split_at [OF il]
  show ?thesis
  proof (cases "ph_len ?ph = n")
    case True
    then have "h = ?ph" and "fl' = fl[vmid := take i ?l @ drop (Suc i) ?l]"
      using al v i by (simp_all add: packetmem_alloc_def Let_def)
    moreover have "pm_inv lo hi (take i ?l @ drop (Suc i) ?l) (?ph # live)"
    proof (rule pm_inv_transfer [OF inv])
      show "\<forall>h \<in> set (take i ?l @ drop (Suc i) ?l) \<union> set (?ph # live). ph_wf h"
        using inv wf by (auto simp: pm_inv_def dest: in_set_takeD in_set_dropD)
      show "cover (take i ?l @ drop (Suc i) ?l) a + cover (?ph # live) a = cover ?l a + cover live a" for a
        using cs [of a] by simp
    qed
    ultimately show ?thesis using v True by simp
  next
    case False
    let ?r = "\<lparr>ph_base = ph_base ?ph + n, ph_len = ph_len ?ph - n\<rparr>"
    have h: "h = \<lparr>ph_base = ph_base ?ph, ph_len = n\<rparr>" and fl': "fl' = fl[vmid := ?l[i := ?r]]"
      using al v i False by (simp_all add: packetmem_alloc_def Let_def split: if_splits)
    have "cover (?l[i := ?r]) a + (if a \<in> ph_region h then 1 else 0) = cover ?l a" for a
      using cs [of a] cover_split_at [of i "?l[i := ?r]" a] split_handle(3) [OF wf fits, of a] il h
      by simp
    then have c: "cover (?l[i := ?r]) a + cover (h # live) a = cover ?l a + cover live a" for a
      by (simp add: add.assoc [symmetric])
    have "\<forall>g \<in> set (?l[i := ?r]) \<union> set (h # live). ph_wf g"
      using inv h split_handle(1,2) [OF wf fits]
      by (auto simp: pm_inv_def dest!: set_update_subset_insert [THEN subsetD])
    then have "pm_inv lo hi (?l[i := ?r]) (h # live)" by (rule pm_inv_transfer [OF inv _ c])
    then show ?thesis using v fl' h by simp
  qed
qed

lemma alloc_none_same:
  "packetmem_alloc ph_ok vmid fl n = Some (fl', None) \<Longrightarrow> fl' = fl"
  by (auto simp: packetmem_alloc_def Let_def split: option.splits if_splits)

lemma free_inv:
  assumes inv: "pm_inv lo hi (fl ! vmid) live" and v: "vmid < length fl" and h: "h \<in> set live"
  shows "\<exists>fl'. packetmem_free vmid fl h = Some fl' \<and> length fl' = length fl \<and>
    pm_inv lo hi (fl' ! vmid) (remove1 h live)"
proof -
  let ?l = "fl ! vmid"
  let ?i = "free_position ?l (ph_base h)"
  let ?m = "take ?i ?l @ h # drop ?i ?l"
  have wf: "\<forall>g \<in> set ?m. ph_wf g"
    using inv h by (auto simp: pm_inv_def dest: in_set_takeD in_set_dropD)
  have c: "cover (merge_items ?i ?m) a + cover (remove1 h live) a = cover ?l a + cover live a" for a
    using cover_remove1 [OF h, of a] cover_take_drop [of ?i ?l a] merge_items_keeps [OF wf, of ?i a]
    by simp
  have "\<forall>g \<in> set (merge_items ?i ?m) \<union> set (remove1 h live). ph_wf g"
    using inv merge_items_keeps [OF wf, of ?i]
    by (auto simp: pm_inv_def dest: set_remove1_subset [THEN subsetD])
  then have "pm_inv lo hi (merge_items ?i ?m) (remove1 h live)"
    by (rule pm_inv_transfer [OF inv _ c])
  then show ?thesis using v by (simp add: packetmem_free_def Let_def)
qed

lemma inv_disjoint:
  assumes "pm_inv lo hi l live" and "i < j" and "j < length live"
  shows "ph_region (live ! i) \<inter> ph_region (live ! j) = {}"
proof (rule ccontr)
  assume "\<not> ?thesis"
  then obtain a where "2 \<le> cover live a" using cover_two [OF assms(2,3)] by blast
  moreover have "cover l a + cover live a \<le> 1" using assms(1) by (simp add: pm_inv_def)
  ultimately show False by simp
qed

interpretation pm: region_allocator "packetmem_alloc ph_ok vmid" "packetmem_free vmid" ph_region
  "\<lambda>fl live. vmid < length fl \<and> pm_inv lo hi (fl ! vmid) live"
  for ph_ok vmid lo hi
proof unfold_locales
  fix fl n live
  assume "vmid < length fl \<and> pm_inv lo hi (fl ! vmid) live"
  then show "\<exists>r. packetmem_alloc ph_ok vmid fl n = Some r"
    by (cases "first_fit (fl ! vmid) n") (auto simp: packetmem_alloc_def Let_def)
next
  fix fl live n fl' h
  assume "vmid < length fl \<and> pm_inv lo hi (fl ! vmid) live"
    and "packetmem_alloc ph_ok vmid fl n = Some (fl', Some h)"
  then show "(vmid < length fl' \<and> pm_inv lo hi (fl' ! vmid) (h # live)) \<and> card (ph_region h) = unat n"
    using alloc_some_inv [of lo hi fl vmid live ph_ok n fl' h] by (simp add: ph_region_def)
qed (use alloc_none_same free_inv inv_disjoint in fastforce)+


section \<open>Properties\<close>

lemma init_from_lists:
  assumes "fst (packetmem_init_from ph_ok off sz i k fl) = 0" and "length fl = i + k"
  shows "length (snd (packetmem_init_from ph_ok off sz i k fl)) = i + k \<and>
    (\<forall>v < i + k. snd (packetmem_init_from ph_ok off sz i k fl) ! v =
       (if v < i then fl ! v else [\<lparr>ph_base = off, ph_len = sz - off\<rparr>]))"
  using assms
proof (induction k arbitrary: i fl)
  case (Suc k)
  then show ?case
    using Suc.IH [of "Suc i" "fl[i := [\<lparr>ph_base = off, ph_len = sz - off\<rparr>]]"]
    by (auto simp: nth_list_update not_less less_Suc_eq split: if_splits)
qed simp

lemma init_pm_inv:
  assumes "packetmem_init ph_ok off sz fl = (0, fl')" and "length fl = FLEXNIC_PL_VMST_NUM + 1"
    and "v \<le> FLEXNIC_PL_VMST_NUM" and "off \<le> sz"
  shows "v < length fl' \<and> pm_inv (unat off) (unat sz) (fl' ! v) []"
proof -
  have *: "length fl' = FLEXNIC_PL_VMST_NUM + 1" "fl' ! v = [\<lparr>ph_base = off, ph_len = sz - off\<rparr>]"
    using assms init_from_lists [of ph_ok off sz 0 "FLEXNIC_PL_VMST_NUM + 1" fl]
    by (auto simp: packetmem_init_def simp del: packetmem_init_from.simps)
  have le: "unat off \<le> unat sz" using assms(4) by (simp add: word_le_nat_alt)
  then show ?thesis
    using * assms(3) unat_sub_le [OF le] unat_lt_u64 [of sz]
    by (auto simp: pm_inv_def ph_wf_def ph_region_def)
qed

text \<open>
  C30: After \<open>packetmem_init\<close>, any sequence of \<open>packetmem_alloc\<close> and \<open>packetmem_free\<close> calls on
  a VM's memory runs without an error, and then each address of the managed range belongs to
  exactly one handle, free or in use, while no handle reaches outside the range: buffers in use
  never overlap each other or a free range, and no memory is lost.
\<close>

theorem packetmem_partition:
  assumes "packetmem_init ph_init off sz fl = (0, fl0)" and "length fl = FLEXNIC_PL_VMST_NUM + 1"
    and "v \<le> FLEXNIC_PL_VMST_NUM" and "off \<le> sz"
  shows "\<exists>fl' live. run_ops (packetmem_alloc ph_ok v) (packetmem_free v) (fl0, []) ops = Some (fl', live) \<and>
    (\<forall>a. cover (fl' ! v @ live) a = (if unat off \<le> a \<and> a < unat sz then 1 else 0)) \<and>
    (\<forall>i j. i < j \<and> j < length live \<longrightarrow> ph_region (live ! i) \<inter> ph_region (live ! j) = {})"
proof -
  have inv: "v < length fl0 \<and> pm_inv (unat off) (unat sz) (fl0 ! v) []"
    using init_pm_inv [OF assms] .
  obtain fl' live where
    r: "run_ops (packetmem_alloc ph_ok v) (packetmem_free v) (fl0, []) ops = Some (fl', live)"
    and i: "pm_inv (unat off) (unat sz) (fl' ! v) live"
    using pm.run_keeps [OF inv, of ph_ok ops] by blast
  then show ?thesis using inv_disjoint [OF i] by (auto simp: pm_inv_def)
qed

definition demo_list :: "packetmem_handle list" where
  "demo_list = [\<lparr>ph_base = 100, ph_len = 200\<rparr>]"

definition demo_lists :: freelists where
  "demo_lists = [demo_list, demo_list, demo_list, demo_list, demo_list, demo_list, demo_list]"

lemma demo_init: "packetmem_init (\<lambda>i. True) 100 300 (replicate 7 []) = (0, demo_lists)"
  by (simp add: packetmem_init_def FLEXNIC_PL_VMST_NUM_def demo_lists_def demo_list_def eval_nat_numeral)

theorem packetmem_partition_witness:
  "\<exists>fl' live. run_ops (packetmem_alloc True 1) (packetmem_free 1) (demo_lists, [])
       [Alloc 10, Alloc 20, Free \<lparr>ph_base = 100, ph_len = 10\<rparr>] = Some (fl', live) \<and>
    (\<forall>a. cover (fl' ! 1 @ live) a = (if unat (100::u64) \<le> a \<and> a < unat (300::u64) then 1 else 0)) \<and>
    (\<forall>i j. i < j \<and> j < length live \<longrightarrow> ph_region (live ! i) \<inter> ph_region (live ! j) = {})"
  by (rule packetmem_partition [OF demo_init]) (simp_all add: FLEXNIC_PL_VMST_NUM_def)

lemma first_fit_dropWhile:
  "first_fit l n = (case dropWhile (\<lambda>h. ph_len h < n) l of
     [] \<Rightarrow> None | _ \<Rightarrow> Some (length (takeWhile (\<lambda>h. ph_len h < n) l)))"
  by (induction l) (simp_all del: dropWhile_eq_Nil_conv split: list.split)

text \<open>
  C31: Allocation is first fit: the handles before the first one that is long enough stay, that
  one is handed out whole when its length is exact and otherwise cut at its front, and a request
  that no single free handle can serve, or whose new handle cannot be allocated, changes nothing.
\<close>

theorem packetmem_alloc_first_fit:
  assumes "v < length fl"
  shows "packetmem_alloc ph_ok v fl n =
    (case dropWhile (\<lambda>h. ph_len h < n) (fl ! v) of
       [] \<Rightarrow> Some (fl, None)
     | g # post \<Rightarrow>
         let pre = takeWhile (\<lambda>h. ph_len h < n) (fl ! v) in
         if ph_len g = n then Some (fl[v := pre @ post], Some g)
         else if \<not> ph_ok then Some (fl, None)
         else Some (fl[v := pre @ \<lparr>ph_base = ph_base g + n, ph_len = ph_len g - n\<rparr> # post],
                    Some \<lparr>ph_base = ph_base g, ph_len = n\<rparr>))"
proof (cases "dropWhile (\<lambda>h. ph_len h < n) (fl ! v)")
  case Nil
  then show ?thesis using assms first_fit_dropWhile [of "fl ! v" n] by (simp add: packetmem_alloc_def Let_def del: dropWhile_eq_Nil_conv)
next
  case (Cons g post)
  define pre where "pre = takeWhile (\<lambda>h. ph_len h < n) (fl ! v)"
  have l: "fl ! v = pre @ g # post"
    using takeWhile_dropWhile_id [of "\<lambda>h. ph_len h < n" "fl ! v"] Cons by (simp add: pre_def)
  have "first_fit (fl ! v) n = Some (length pre)"
    using first_fit_dropWhile [of "fl ! v" n] Cons by (simp add: pre_def)
  then show ?thesis unfolding Cons pre_def [symmetric] packetmem_alloc_def Let_def
    using assms by (simp add: l)
qed

theorem packetmem_alloc_first_fit_witness:
  "packetmem_alloc True 1 demo_lists 50 =
    Some (demo_lists[1 := [\<lparr>ph_base = 150, ph_len = 150\<rparr>]], Some \<lparr>ph_base = 100, ph_len = 50\<rparr>)"
  using packetmem_alloc_first_fit [where v = 1 and fl = demo_lists and ph_ok = True and n = 50]
  by (simp add: demo_lists_def demo_list_def)


end
