(* ===== verification/Tcp_Common.thy ===== *)
theory Tcp_Common
  imports Tas_Memif
begin

text \<open>
  Sequence number checks and option parsing of the fast path (\<open>src/tas/fast/tcp_common.h\<close>).
  Sequence numbers are 32-bit words and wrap around as in C. A return value of \<open>-1\<close> is \<open>None\<close>, a
  return value of 0 with the out parameters set is \<open>Some\<close> of them.
\<close>

section \<open>Model\<close>

definition tcp_valid_rxseq :: "flextcp_pl_flowst \<Rightarrow> u32 \<Rightarrow> u16 \<Rightarrow> (u16 \<times> u16) option" where
  "tcp_valid_rxseq fs pkt_seq pkt_bytes =
     (let pseq_a = pkt_seq; pseq_b = pkt_seq + ucast pkt_bytes;
          sseq_a = fs_rx_next_seq fs; sseq_b = fs_rx_next_seq fs + fs_rx_avail fs in
      if pseq_a \<le> pseq_b \<and> sseq_a \<le> sseq_b then
        if pseq_b < sseq_a then None
        else if pseq_a > sseq_a then None
        else Some (ucast (sseq_a - pseq_a), if pseq_b > sseq_b then ucast (pseq_b - sseq_b) else 0)
      else if pseq_a \<le> pseq_b \<and> sseq_a > sseq_b then
        if pseq_a \<ge> sseq_b \<and> pseq_b < sseq_a then None
        else if pseq_a > sseq_a \<or> pseq_a < sseq_b then None
        else Some (ucast (sseq_a - pseq_a), 0)
      else if pseq_a > pseq_b \<and> sseq_a \<le> sseq_b then
        if pseq_b < sseq_a then None
        else if pseq_a > sseq_a then None
        else Some (ucast (sseq_a - pseq_a), if pseq_b > sseq_b then ucast (pseq_b - sseq_b) else 0)
      else
        if pseq_a > sseq_a then None
        else Some (ucast (sseq_a - pseq_a), if pseq_b > sseq_b then ucast (pseq_b - sseq_b) else 0))"

definition tcp_trim_rxbuf :: "flextcp_pl_flowst \<Rightarrow> u32 \<Rightarrow> u16 \<Rightarrow> (u16 \<times> u16) option" where
  "tcp_trim_rxbuf fs pkt_seq pkt_bytes =
     (let pseq_a = pkt_seq; pseq_b = pkt_seq + ucast pkt_bytes;
          sseq_a = fs_rx_next_seq fs; sseq_b = fs_rx_next_seq fs + fs_rx_avail fs in
      if pseq_a \<le> pseq_b \<and> sseq_a \<le> sseq_b then
        if pseq_b < sseq_a then None
        else if pseq_a > sseq_b then None
        else Some (if pseq_a < sseq_a then ucast (sseq_a - pseq_a) else 0,
                   if pseq_b > sseq_b then ucast (pseq_b - sseq_b) else 0)
      else if pseq_a \<le> pseq_b \<and> sseq_a > sseq_b then
        if pseq_a > sseq_b \<and> pseq_b < sseq_a then None
        else Some (if pseq_a > sseq_b \<and> pseq_a < sseq_a then ucast (sseq_a - pseq_a) else 0,
                   if pseq_b \<ge> sseq_b \<and> pseq_b < sseq_a then ucast (pseq_b - sseq_b) else 0)
      else if pseq_a > pseq_b \<and> sseq_a \<le> sseq_b then
        if pseq_a > sseq_b \<and> pseq_b < sseq_a then None
        else Some (if sseq_a \<le> pseq_b \<or> sseq_a > pseq_a then ucast (sseq_a - pseq_a) else 0,
                   if pseq_b > sseq_b \<or> sseq_a \<ge> pseq_a then ucast (pseq_b - sseq_b) else 0)
      else
        Some (if pseq_a < sseq_a then ucast (sseq_a - pseq_a) else 0,
              if pseq_b > sseq_b then ucast (pseq_b - sseq_b) else 0))"

definition tcp_valid_rxack :: "flextcp_pl_flowst \<Rightarrow> u32 \<Rightarrow> u32 option" where
  "tcp_valid_rxack fs ack =
     (let fsack_a = fs_tx_next_seq fs - fs_tx_sent fs;
          fsack_b = fs_tx_next_seq fs + fs_tx_avail fs in
      if fsack_a \<le> fsack_b then
        if ack < fsack_a \<or> ack > fsack_b then None else Some (ack - fsack_a)
      else
        if fsack_a > ack \<and> ack > fsack_b then None else Some (ack - fsack_a))"

definition tcp_txavail :: "flextcp_pl_flowst \<Rightarrow> u32 option \<Rightarrow> u32" where
  "tcp_txavail fs pavail =
     (let buf_avail = (case pavail of Some a \<Rightarrow> a | None \<Rightarrow> fs_tx_avail fs);
          fc_avail = (if fs_tx_sent fs > fs_rx_remote_avail fs then 0
                      else fs_rx_remote_avail fs - fs_tx_sent fs) in
      min buf_avail fc_avail)"

text \<open>
  Option parsing. \<open>opt\<close> is the memory that follows the header struct; the timestamp option is
  reported by its offset there. The result \<open>None\<close> stands for an access outside that memory or for a
  loop that does not end; otherwise it is the return code and the option pointer.
\<close>

partial_function (option) parse_options_loop ::
  "bytes \<Rightarrow> u16 \<Rightarrow> u16 \<Rightarrow> u16 option \<Rightarrow> (int \<times> u16 option) option" where
  "parse_options_loop opt opts_len off ts =
     (if \<not> off < opts_len then Some (0, ts)
      else if \<not> unat off < length opt then None
      else
        let opt_kind = opt ! unat off; opt_avail = (ucast (opts_len - off) :: u8) in
        if opt_kind = TCP_OPT_END_OF_OPTIONS then Some (0, ts)
        else if opt_kind = TCP_OPT_NO_OP then parse_options_loop opt opts_len (off + 1) ts
        else if opt_avail < 2 then Some (- 1, ts)
        else if \<not> Suc (unat off) < length opt then None
        else
          let opt_len = opt ! Suc (unat off) in
          if opt_kind = TCP_OPT_TIMESTAMP then
            if (ucast opt_len :: u64) \<noteq> sizeof_ts_opt then Some (- 1, ts)
            else parse_options_loop opt opts_len (off + ucast opt_len) (Some off)
          else parse_options_loop opt opts_len (off + ucast opt_len) ts)"

definition tcp_parse_options_hdr :: "u64 \<Rightarrow> tcp_hdr \<Rightarrow> bytes \<Rightarrow> u16 \<Rightarrow> (int \<times> u16 option) option" where
  "tcp_parse_options_hdr sizeof_p tcp opt len =
     (let opts_len = TCPH_HDRLEN tcp * 4 - 20 in
      if TCPH_HDRLEN tcp < 5 \<or> ucast opts_len > (ucast len - sizeof_p) then Some (- 1, None)
      else parse_options_loop opt opts_len 0 None)"

definition tcp_parse_options :: "pkt_tcp \<Rightarrow> bytes \<Rightarrow> u16 \<Rightarrow> (int \<times> u16 option) option" where
  "tcp_parse_options p opt len = tcp_parse_options_hdr sizeof_pkt_tcp (p_tcp p) opt len"

definition tcp_parse_options_gre :: "pkt_gre \<Rightarrow> bytes \<Rightarrow> u16 \<Rightarrow> (int \<times> u16 option) option" where
  "tcp_parse_options_gre p opt len = tcp_parse_options_hdr sizeof_pkt_gre (g_tcp p) opt len"

section \<open>Circular arithmetic\<close>

text \<open>Addition and subtraction of 32-bit sequence numbers as integers with the wrap-around written out.\<close>

definition wadd :: "int \<Rightarrow> int \<Rightarrow> int" where
  "wadd x y = (if x + y < 4294967296 then x + y else x + y - 4294967296)"
definition wsub :: "int \<Rightarrow> int \<Rightarrow> int" where
  "wsub x y = (if y \<le> x then x - y else x - y + 4294967296)"
definition u32_val :: "int \<Rightarrow> bool" where "u32_val x \<longleftrightarrow> 0 \<le> x \<and> x < 4294967296"

lemma u32_val_uint: "u32_val (uint (x::u32))"
  using uint_lt2p [of x] by (simp add: u32_val_def)
lemma uint_wsub: "uint (x - y :: u32) = wsub (uint x) (uint y)"
  using uint_lt2p [of x] uint_lt2p [of y] by (simp add: uint_sub_if' wsub_def)
lemma uint_wadd: "uint (x + y :: u32) = wadd (uint x) (uint y)"
  by (simp add: uint_plus_if' wadd_def)

lemmas circ_arith = wadd_def wsub_def u32_val_def

text \<open>\<open>trim_ok\<close>: cutting \<open>S\<close> bytes from the front and \<open>E\<close> from the end of the interval of length \<open>N\<close> at
  \<open>P\<close> leaves exactly its bytes in the window of length \<open>W\<close> at \<open>A\<close>.\<close>

definition trim_ok :: "int \<Rightarrow> int \<Rightarrow> int \<Rightarrow> int \<Rightarrow> int \<Rightarrow> int \<Rightarrow> bool" where
  "trim_ok P N A W S E \<longleftrightarrow> 0 \<le> S \<and> 0 \<le> E \<and> S + E \<le> N \<and>
     (\<forall>I. 0 \<le> I \<and> I < N \<longrightarrow> (S \<le> I \<and> I < N - E) = (wsub (wadd P I) A < W))"

lemma trim_cases:
  fixes P N A W :: int
  assumes val: "u32_val P" "u32_val N" "u32_val A" "u32_val W" "N \<le> 65535" "W \<le> 2147483648"
  defines "PB \<equiv> wadd P N" and "B \<equiv> wadd A W"
  shows "P \<le> PB \<Longrightarrow> A \<le> B \<Longrightarrow> \<not> PB < A \<Longrightarrow> \<not> P > B \<Longrightarrow>
      trim_ok P N A W (if P < A then wsub A P else 0) (if PB > B then wsub PB B else 0)"
    and "P \<le> PB \<Longrightarrow> \<not> A \<le> B \<Longrightarrow> \<not> (P > B \<and> PB < A) \<Longrightarrow>
      trim_ok P N A W (if P > B \<and> P < A then wsub A P else 0) (if PB \<ge> B \<and> PB < A then wsub PB B else 0)"
    and "\<not> P \<le> PB \<Longrightarrow> A \<le> B \<Longrightarrow> \<not> (P > B \<and> PB < A) \<Longrightarrow> \<not> (A < P \<and> P \<le> B) \<Longrightarrow>
      trim_ok P N A W (if A \<le> PB \<or> A > P then wsub A P else 0) (if PB > B \<or> A \<ge> P then wsub PB B else 0)"
    and "\<not> P \<le> PB \<Longrightarrow> \<not> A \<le> B \<Longrightarrow>
      trim_ok P N A W (if P < A then wsub A P else 0) (if PB > B then wsub PB B else 0)"
    and "P \<le> PB \<Longrightarrow> A \<le> B \<Longrightarrow> PB < A \<or> P > B \<Longrightarrow> 0 \<le> I \<Longrightarrow> I < N \<Longrightarrow> \<not> wsub (wadd P I) A < W"
    and "(P \<le> PB) \<noteq> (A \<le> B) \<Longrightarrow> P > B \<Longrightarrow> PB < A \<Longrightarrow> 0 \<le> I \<Longrightarrow> I < N \<Longrightarrow> \<not> wsub (wadd P I) A < W"
  using val unfolding PB_def B_def circ_arith trim_ok_def by (auto split: if_splits)
lemma uint_narrow: "uint (x::u32) \<le> 65535 \<Longrightarrow> uint (ucast x :: u16) = uint x"
  by (simp add: unsigned_ucast_eq take_bit_int_eq_self)

lemma uint_widen: "uint (ucast (n::u16) :: u32) = uint n"
  using uint_lt2p [of n] by (simp add: unsigned_ucast_eq take_bit_int_eq_self)

lemma trim_ok_narrow:
  assumes "trim_ok P N A W (uint (x::u32)) (uint (y::u32))" and "N \<le> 65535"
  shows "trim_ok P N A W (uint (ucast x :: u16)) (uint (ucast y :: u16))"
proof -
  have "uint x \<le> 65535" "uint y \<le> 65535"
    using assms uint_ge_0 [of x] uint_ge_0 [of y] unfolding trim_ok_def by linarith+
  with assms(1) show ?thesis by (simp add: uint_narrow)
qed

section \<open>Trimming\<close>

definition in_rx_window :: "flextcp_pl_flowst \<Rightarrow> u32 \<Rightarrow> bool" where
  "in_rx_window fs q \<longleftrightarrow> q - fs_rx_next_seq fs < fs_rx_avail fs"

text \<open>The packet's interval wraps around and begins inside a window that does not wrap around.\<close>

definition trim_wraps :: "flextcp_pl_flowst \<Rightarrow> u32 \<Rightarrow> u16 \<Rightarrow> bool" where
  "trim_wraps fs seq n \<longleftrightarrow>
     seq + ucast n < seq \<and> fs_rx_next_seq fs < seq \<and> seq \<le> fs_rx_next_seq fs + fs_rx_avail fs"

definition trim_window :: "u32 \<Rightarrow> u32 \<Rightarrow> u32 \<Rightarrow> u32 \<Rightarrow> (u32 \<times> u32) option" where
  "trim_window p n a w =
     (let pb = p + n; b = a + w in
      if p \<le> pb \<and> a \<le> b then
        if pb < a then None else if p > b then None
        else Some (if p < a then a - p else 0, if pb > b then pb - b else 0)
      else if p \<le> pb \<and> a > b then
        if p > b \<and> pb < a then None
        else Some (if p > b \<and> p < a then a - p else 0, if pb \<ge> b \<and> pb < a then pb - b else 0)
      else if p > pb \<and> a \<le> b then
        if p > b \<and> pb < a then None
        else Some (if a \<le> pb \<or> a > p then a - p else 0, if pb > b \<or> a \<ge> p then pb - b else 0)
      else Some (if p < a then a - p else 0, if pb > b then pb - b else 0))"

lemma trim_rxbuf_window:
  "tcp_trim_rxbuf fs seq n =
     map_option (map_prod ucast ucast) (trim_window seq (ucast n) (fs_rx_next_seq fs) (fs_rx_avail fs))"
proof -
  have if0: "ucast (if c then x else 0 :: u32) = (if c then ucast x else 0 :: u16)" for c x by simp
  show ?thesis
    unfolding tcp_trim_rxbuf_def trim_window_def Let_def
      if_distrib [of "map_option (map_prod ucast ucast)"] option.map map_prod_simp if0 ..
qed

lemma trim_window_int:
  assumes "w \<le> 0x80000000" and "uint n \<le> 65535" and nw: "\<not> (p + n < p \<and> a < p \<and> p \<le> a + w)"
  shows "case trim_window p n a w of
      None \<Rightarrow> \<forall>I. 0 \<le> I \<and> I < uint n \<longrightarrow> \<not> wsub (wadd (uint p) I) (uint a) < uint w
    | Some (ts, te) \<Rightarrow> trim_ok (uint p) (uint n) (uint a) (uint w) (uint ts) (uint te)"
proof -
  have W: "uint w \<le> 2147483648" using assms(1) by (simp add: word_le_def)
  note trim = trim_cases [OF u32_val_uint [of p] u32_val_uint [of n] u32_val_uint [of a]
      u32_val_uint [of w] assms(2) W]
  have if0: "uint (if c then x else 0 :: u32) = (if c then uint x else 0)" for c x by simp
  note ints = word_less_def word_le_def uint_wadd uint_wsub if0
  note win = trim_window_def [of p n a w, unfolded Let_def]
  consider (rej1) "p \<le> p + n" "a \<le> a + w" "p + n < a \<or> p > a + w"
    | (rej2) "(p \<le> p + n) \<noteq> (a \<le> a + w)" "p > a + w" "p + n < a"
    | (c1) "p \<le> p + n" "a \<le> a + w" "\<not> p + n < a" "\<not> p > a + w"
    | (c2) "p \<le> p + n" "\<not> a \<le> a + w" "\<not> (p > a + w \<and> p + n < a)"
    | (c3) "\<not> p \<le> p + n" "a \<le> a + w" "\<not> (p > a + w \<and> p + n < a)"
    | (c4) "\<not> p \<le> p + n" "\<not> a \<le> a + w"
    by blast
  then show ?thesis
  proof cases
    case rej1
    then have eq: "trim_window p n a w = None" unfolding win by auto
    show ?thesis unfolding eq option.case using trim(5) rej1 unfolding ints by blast
  next
    case rej2
    then have eq: "trim_window p n a w = None" unfolding win by auto
    show ?thesis unfolding eq option.case using trim(6) rej2 unfolding ints by blast
  next
    case c1
    then have eq: "trim_window p n a w =
        Some (if p < a then a - p else 0, if p + n > a + w then p + n - (a + w) else 0)"
      unfolding win by simp
    show ?thesis unfolding eq option.case prod.case unfolding ints
      by (rule trim(1)) (use c1 in \<open>simp_all add: ints\<close>)
  next
    case c2
    then have eq: "trim_window p n a w =
        Some (if p > a + w \<and> p < a then a - p else 0,
              if p + n \<ge> a + w \<and> p + n < a then p + n - (a + w) else 0)"
      unfolding win by auto
    show ?thesis unfolding eq option.case prod.case unfolding ints
      by (rule trim(2)) (use c2 in \<open>simp_all add: ints\<close>)
  next
    case c3
    then have eq: "trim_window p n a w =
        Some (if a \<le> p + n \<or> a > p then a - p else 0,
              if p + n > a + w \<or> a \<ge> p then p + n - (a + w) else 0)"
      unfolding win by auto
    show ?thesis unfolding eq option.case prod.case unfolding ints
      by (rule trim(3)) (use c3 nw in \<open>simp_all add: ints\<close>)
  next
    case c4
    then have eq: "trim_window p n a w =
        Some (if p < a then a - p else 0, if p + n > a + w then p + n - (a + w) else 0)"
      unfolding win by auto
    show ?thesis unfolding eq option.case prod.case unfolding ints
      by (rule trim(4)) (use c4 in \<open>simp_all add: ints\<close>)
  qed
qed

lemma trim_ok_nat:
  fixes n ts te :: u16
  assumes "trim_ok P (uint n) A W (uint ts) (uint te)"
  shows "unat ts + unat te \<le> unat n \<and>
    (\<forall>i < unat n. (unat ts \<le> i \<and> i < unat n - unat te) = (wsub (wadd P (int i)) A < W))"
proof (intro conjI allI impI)
  have e: "uint n = int (unat n)" "uint ts = int (unat ts)" "uint te = int (unat te)" by simp_all
  show s: "unat ts + unat te \<le> unat n"
    using assms unfolding trim_ok_def e by linarith
  fix i assume i: "i < unat n"
  have "(int (unat ts) \<le> int i \<and> int i < int (unat n) - int (unat te)) = (wsub (wadd P (int i)) A < W)"
    using assms i unfolding trim_ok_def e by (elim conjE allE [of _ "int i"]) (simp del: of_nat_unat)
  moreover have "(int (unat ts) \<le> int i \<and> int i < int (unat n) - int (unat te)) = (unat ts \<le> i \<and> i < unat n - unat te)"
    using s by linarith
  ultimately show "(unat ts \<le> i \<and> i < unat n - unat te) = (wsub (wadd P (int i)) A < W)" by simp
qed

lemma wadd_wsub_window:
  assumes "i < unat (n::u16)"
  shows "wsub (wadd (uint seq) (int i)) (uint a) = uint (seq + of_nat i - a :: u32)"
proof -
  have "i < 65536" using assms unat_lt_u16 [of n] by linarith
  then have "uint (of_nat i :: u32) = int i" by (simp add: unsigned_of_nat take_bit_int_eq_self take_bit_nat_eq_self)
  then show ?thesis by (simp add: uint_wadd uint_wsub)
qed

lemma trim_rxbuf_exact:
  assumes "fs_rx_avail fs \<le> 0x80000000" and "\<not> trim_wraps fs seq n"
  shows "case tcp_trim_rxbuf fs seq n of
      None \<Rightarrow> \<forall>i < unat n. \<not> in_rx_window fs (seq + of_nat i)
    | Some (ts, te) \<Rightarrow> unat ts + unat te \<le> unat n \<and>
        (\<forall>i < unat n. (unat ts \<le> i \<and> i < unat n - unat te) = in_rx_window fs (seq + of_nat i))"
proof -
  let ?a = "fs_rx_next_seq fs" and ?w = "fs_rx_avail fs"
  have n: "uint (ucast n :: u32) = uint n" by (rule uint_widen)
  have le: "uint n \<le> 65535" using uint_lt2p [of n] by simp
  have win: "in_rx_window fs (seq + of_nat i) \<longleftrightarrow> wsub (wadd (uint seq) (int i)) (uint ?a) < uint ?w"
    if "i < unat n" for i
    using wadd_wsub_window [OF that] by (simp add: in_rx_window_def word_less_def)
  have t: "case trim_window seq (ucast n) ?a ?w of
      None \<Rightarrow> \<forall>I. 0 \<le> I \<and> I < uint n \<longrightarrow> \<not> wsub (wadd (uint seq) I) (uint ?a) < uint ?w
    | Some (ts, te) \<Rightarrow> trim_ok (uint seq) (uint n) (uint ?a) (uint ?w) (uint ts) (uint te)"
    using trim_window_int [OF assms(1), of "ucast n" seq ?a, unfolded n, OF le] assms(2)
    by (simp add: trim_wraps_def)
  show ?thesis
  proof (cases "trim_window seq (ucast n) ?a ?w")
    case None
    have "0 \<le> int i \<and> int i < uint n" if "i < unat n" for i
      using that of_nat_unat [of n, where ?'a = int] by linarith
    with None t win show ?thesis by (simp add: trim_rxbuf_window)
  next
    case (Some r)
    obtain x y where r: "r = (x, y)" by (cases r)
    have ok: "trim_ok (uint seq) (uint n) (uint ?a) (uint ?w) (uint (ucast x :: u16)) (uint (ucast y :: u16))"
      using t Some r by (intro trim_ok_narrow [OF _ le]) simp
    then show ?thesis using trim_ok_nat [OF ok] Some r win by (simp add: trim_rxbuf_window)
  qed
qed


definition demo_flow :: flextcp_pl_flowst where
  "demo_flow = \<lparr>fs_opaque = 7, fs_rx_base_sp = 0, fs_tx_base = 64, fs_rx_len = 64, fs_tx_len = 32,
     fs_tunnel_id = BE32 0, fs_out_local_ip = BE32 1, fs_out_remote_ip = BE32 2, fs_in_local_ip = BE32 0,
     fs_in_remote_ip = BE32 0, fs_local_port = BE16 1, fs_remote_port = BE16 2,
     fs_remote_mac = 0x060504030201, fs_db_id = 0, fs_app_id = 0, fs_vm_id = 0, fs_flow_group = 0,
     fs_bump_seq = 0, fs_rx_avail = 50, fs_rx_next_pos = 0, fs_rx_next_seq = 0xFFFFFF9C,
     fs_rx_remote_avail = 1000, fs_rx_dupack_cnt = 0, fs_rx_ooo_start = 0, fs_rx_ooo_len = 0,
     fs_tx_avail = 10, fs_tx_sent = 5, fs_tx_next_pos = 5, fs_tx_next_seq = 2, fs_tx_next_ts = 0,
     fs_tx_rate = 1000, fs_cnt_tx_drops = 0, fs_cnt_rx_acks = 0, fs_cnt_rx_ack_bytes = 0,
     fs_cnt_rx_ecn_bytes = 0, fs_rtt_est = 0\<rparr>"



section \<open>Acknowledgements\<close>

lemma word_interval:
  fixes a w x :: u32
  shows "x - a \<le> w \<longleftrightarrow> (if a \<le> a + w then a \<le> x \<and> x \<le> a + w else a \<le> x \<or> x \<le> a + w)"
proof -
  have "wsub X A \<le> V \<longleftrightarrow>
      (if A \<le> wadd A V then A \<le> X \<and> X \<le> wadd A V else A \<le> X \<or> X \<le> wadd A V)"
    if "u32_val X" "u32_val A" "u32_val V" for X A V
    using that unfolding circ_arith by auto
  from this [OF u32_val_uint [of x] u32_val_uint [of a] u32_val_uint [of w]] show ?thesis
    by (simp only: word_le_def uint_wadd uint_wsub)
qed

lemma valid_rxack_window:
  "tcp_valid_rxack fs ack =
     (let una = fs_tx_next_seq fs - fs_tx_sent fs in
      if ack - una \<le> fs_tx_sent fs + fs_tx_avail fs then Some (ack - una) else None)"
proof -
  let ?una = "fs_tx_next_seq fs - fs_tx_sent fs" and ?b = "fs_tx_next_seq fs + fs_tx_avail fs"
  have e: "?una + (fs_tx_sent fs + fs_tx_avail fs) = ?b" by simp
  have iv: "ack - ?una \<le> fs_tx_sent fs + fs_tx_avail fs \<longleftrightarrow>
      (if ?una \<le> ?b then ?una \<le> ack \<and> ack \<le> ?b else ?una \<le> ack \<or> ack \<le> ?b)"
    using word_interval [of ack ?una "fs_tx_sent fs + fs_tx_avail fs"] unfolding e .
  show ?thesis
    unfolding tcp_valid_rxack_def Let_def iv by (auto simp only: not_less not_le split: if_split)
qed

text \<open>
  C23: An acknowledgement is valid exactly when it acknowledges between nothing and everything that
  was sent or waits in the send buffer, counted from the oldest unacknowledged byte with wrap-around;
  the reported bump is that number of bytes.
\<close>

theorem tcp_valid_rxack_window:
  "tcp_valid_rxack fs ack =
     (let una = fs_tx_next_seq fs - fs_tx_sent fs in
      if ack - una \<le> fs_tx_sent fs + fs_tx_avail fs then Some (ack - una) else None)"
  by (rule valid_rxack_window)

section \<open>Options\<close>

text \<open>Option lists as a sender writes them.\<close>

datatype tcp_option = NoOp | Timestamp bytes | Other u8 bytes

fun option_bytes :: "tcp_option \<Rightarrow> bytes" where
  "option_bytes NoOp = [TCP_OPT_NO_OP]"
| "option_bytes (Timestamp d) = TCP_OPT_TIMESTAMP # 10 # d"
| "option_bytes (Other k d) = k # (of_nat (length d) + 2) # d"

fun option_ok :: "tcp_option \<Rightarrow> bool" where
  "option_ok NoOp = True"
| "option_ok (Timestamp d) = (length d = 8)"
| "option_ok (Other k d) = (k \<notin> {TCP_OPT_END_OF_OPTIONS, TCP_OPT_NO_OP, TCP_OPT_TIMESTAMP} \<and> length d \<le> 38)"

fun last_timestamp :: "nat \<Rightarrow> tcp_option list \<Rightarrow> u16 option \<Rightarrow> u16 option" where
  "last_timestamp off [] ts = ts"
| "last_timestamp off (x # xs) ts =
     last_timestamp (off + length (option_bytes x)) xs
       (case x of Timestamp _ \<Rightarrow> Some (of_nat off) | _ \<Rightarrow> ts)"

definition options_bytes :: "tcp_option list \<Rightarrow> bytes" where
  "options_bytes xs = concat (map option_bytes xs)"

lemma parse_step:
  assumes "off < opts_len" and "unat off < length opt"
  shows parse_end: "opt ! unat off = TCP_OPT_END_OF_OPTIONS \<Longrightarrow>
      parse_options_loop opt opts_len off ts = Some (0, ts)"
    and parse_nop: "opt ! unat off = TCP_OPT_NO_OP \<Longrightarrow>
      parse_options_loop opt opts_len off ts = parse_options_loop opt opts_len (off + 1) ts"
    and parse_ts: "opt ! unat off = TCP_OPT_TIMESTAMP \<Longrightarrow>
      \<not> (ucast (opts_len - off) :: u8) < 2 \<Longrightarrow> Suc (unat off) < length opt \<Longrightarrow> opt ! Suc (unat off) = 10 \<Longrightarrow>
      parse_options_loop opt opts_len off ts = parse_options_loop opt opts_len (off + 10) (Some off)"
    and parse_other: "opt ! unat off \<notin> {TCP_OPT_END_OF_OPTIONS, TCP_OPT_NO_OP, TCP_OPT_TIMESTAMP} \<Longrightarrow>
      \<not> (ucast (opts_len - off) :: u8) < 2 \<Longrightarrow> Suc (unat off) < length opt \<Longrightarrow>
      parse_options_loop opt opts_len off ts =
        parse_options_loop opt opts_len (off + ucast (opt ! Suc (unat off))) ts"
  using assms by (simp_all add: parse_options_loop.simps [of opt opts_len off ts] pkt_consts sizeof_defs)

lemma parse_options_loop_bytes:
  assumes "\<forall>x \<in> set xs. option_ok x"
    and "length pre + length (options_bytes xs) + k \<le> 40"
    and "opts_len = of_nat (length pre + length (options_bytes xs) + k)"
  shows "parse_options_loop (pre @ options_bytes xs @ replicate k TCP_OPT_END_OF_OPTIONS @ tail) opts_len
      (of_nat (length pre)) ts = Some (0, last_timestamp (length pre) xs ts)"
  using assms
proof (induction xs arbitrary: pre ts)
  case Nil
  then have n: "unat (of_nat (length pre) :: u16) = length pre" "unat opts_len = length pre + k"
    by (simp_all add: unat_of_nat_small options_bytes_def del: of_nat_add)
  show ?case
  proof (cases k)
    case 0
    with Nil show ?thesis by (simp add: parse_options_loop.simps options_bytes_def)
  next
    case (Suc j)
    have "of_nat (length pre) < opts_len" using n Suc by (simp add: word_less_nat_alt)
    from parse_end [OF this] n(1) Suc show ?thesis by (simp add: options_bytes_def)
  qed
next
  case (Cons x xs)
  let ?mem = "pre @ options_bytes (x # xs) @ replicate k TCP_OPT_END_OF_OPTIONS @ tail"
  let ?off = "of_nat (length pre) :: u16"
  have bs: "options_bytes (x # xs) = option_bytes x @ options_bytes xs" by (simp add: options_bytes_def)
  have lens: "length (options_bytes (x # xs)) = length (option_bytes x) + length (options_bytes xs)"
    by (simp add: bs)
  have pos: "0 < length (option_bytes x)" by (cases x) auto
  have le: "length pre < 40" "length pre + length (option_bytes x) + length (options_bytes xs) + k \<le> 40"
    using Cons.prems(2) lens pos by linarith+
  have unat_off: "unat ?off = length pre" using le by (simp add: unat_of_nat_small)
  have nth: "?mem ! (length pre + j) = option_bytes x ! j" if "j < length (option_bytes x)" for j
    using that by (simp add: bs nth_append)
  have IH: "parse_options_loop ?mem opts_len (of_nat (length pre + length (option_bytes x))) ts' =
      Some (0, last_timestamp (length pre + length (option_bytes x)) xs ts')" for ts'
    using Cons.IH [of "pre @ option_bytes x" ts'] Cons.prems bs by simp
  have lt: "?off < opts_len" using Cons.prems(2,3) lens pos le
    by (simp add: word_less_nat_alt unat_of_nat_small del: of_nat_add)
  have rem: "opts_len - ?off = of_nat (length (option_bytes x) + length (options_bytes xs) + k)"
    using Cons.prems(3) lens by simp
  have avail: "\<not> (ucast (opts_len - ?off) :: u8) < 2" if "2 \<le> length (option_bytes x)"
    unfolding rem using that le
    by (simp add: word_less_nat_alt ucast_of_nat_small unat_of_nat_small del: of_nat_add)
  have mem: "unat ?off < length ?mem" "2 \<le> length (option_bytes x) \<Longrightarrow> Suc (unat ?off) < length ?mem"
    using pos by (simp_all add: unat_off lens)
  note step = parse_step [OF lt mem(1), unfolded unat_off]
  show ?case
  proof (cases x)
    case NoOp
    then show ?thesis using step(2) nth [of 0] IH [of ts] by (simp add: add.commute)
  next
    case (Timestamp d)
    then show ?thesis using step(3) [of ts] nth [of 0] nth [of 1] IH [of "Some ?off"] Cons.prems(1) avail mem(2)
      by (simp add: add.commute unat_off)
  next
    case (Other k d)
    have "ucast (of_nat (length d + 2) :: u8) = (of_nat (length d + 2) :: u16)"
      using Other Cons.prems(1) by (intro ucast_of_nat_small) simp
    then show ?thesis
      using Other step(4) [of ts] nth [of 0] nth [of 1] IH [of ts] Cons.prems(1) avail mem(2)
      by (simp add: add_ac unat_off)
  qed
qed

definition zero_length_option :: "bytes \<Rightarrow> u16 \<Rightarrow> u16 \<Rightarrow> bool" where
  "zero_length_option opt opts_len off \<longleftrightarrow>
     off < opts_len \<and> \<not> (ucast (opts_len - off) :: u8) < 2 \<and>
     opt ! unat off \<notin> {TCP_OPT_END_OF_OPTIONS, TCP_OPT_NO_OP, TCP_OPT_TIMESTAMP} \<and>
     opt ! Suc (unat off) = 0"

lemma parse_zero_length:
  "parse_options_loop opt opts_len off ts = Some y \<Longrightarrow> \<not> zero_length_option opt opts_len off"
  by (erule parse_options_loop.raw_induct
      [rotated, where P = "\<lambda>opt opts_len off ts y. \<not> zero_length_option opt opts_len off"])
    (auto simp: zero_length_option_def Let_def split: if_splits, blast)

text \<open>
  C24: Parsing a well-formed option list, padded with end-of-options bytes to the header length that
  the TCP header announces, succeeds and finds the last timestamp option of the list.
\<close>

theorem tcp_parse_options_wellformed:
  assumes "\<forall>x \<in> set xs. option_ok x"
    and "unat (TCPH_HDRLEN (p_tcp p)) * 4 = 20 + length (options_bytes xs) + k"
    and "length (options_bytes xs) + k \<le> 40"
    and "54 + length (options_bytes xs) + k \<le> unat len"
  shows "tcp_parse_options p (options_bytes xs @ replicate k TCP_OPT_END_OF_OPTIONS @ rest) len =
    Some (0, last_timestamp 0 xs None)"
proof -
  let ?h = "TCPH_HDRLEN (p_tcp p)" and ?n = "length (options_bytes xs) + k"
  have h: "5 \<le> unat ?h" "unat ?h \<le> 15" using assms(2,3) by simp_all
  have "unat (?h * 4 - 20) = ?n"
    using h assms(2) by (simp add: word_facts unat_word_ariths unat_sub_le)
  then have opts: "?h * 4 - 20 = of_nat ?n" using assms(3)
    by (simp add: word_unat_eq_iff unat_of_nat_small del: of_nat_add)
  have "\<not> ?h < 5" using h by (simp add: word_less_nat_alt)
  moreover have "\<not> (ucast (of_nat ?n :: u16) :: u64) > ucast len - sizeof_pkt_tcp"
    using assms(3,4) by (simp add: word_less_nat_alt sizeof_defs unat_sub_le ucast_of_nat_small unat_of_nat_small del: of_nat_add)
  ultimately show ?thesis
    using parse_options_loop_bytes [of xs "[]" k "of_nat ?n" rest None] assms(1,3) opts
    by (simp add: tcp_parse_options_def tcp_parse_options_hdr_def del: of_nat_add)
qed


definition demo_hdr :: "u16 \<Rightarrow> pkt_tcp" where
  "demo_hdr hl =
     \<lparr>p_eth = \<lparr>eth_dest = 0, eth_src = 0, eth_type = t_beui16 ETH_TYPE_IP\<rparr>,
      p_ip = \<lparr>ip_v_hl = 0x45, ip_tos = 0, ip_len = t_beui16 52, ip_id = t_beui16 3, ip_offset = t_beui16 0,
        ip_ttl = 255, ip_proto = IP_PROTO_TCP, ip_chksum = 0, ip_src = BE32 2, ip_dest = BE32 1\<rparr>,
      p_tcp = TCPH_HDRLEN_FLAGS_SET hl TAS_TCP_ACK
        \<lparr>tcp_src = BE16 2, tcp_dest = BE16 1, tcp_seqno = t_beui32 0, tcp_ackno = t_beui32 0,
         tcp_hdrlen_rsvd_flags = 0, tcp_wnd = t_beui16 100, tcp_chksum = 0, tcp_urgp = t_beui16 0\<rparr>\<rparr>"

lemma demo_hdrlen [simp]: "unat hl < 16 \<Longrightarrow> TCPH_HDRLEN (p_tcp (demo_hdr hl)) = hl"
  by (simp add: demo_hdr_def pkt_consts)

theorem tcp_parse_options_wellformed_witness:
  "tcp_parse_options (demo_hdr 8)
     (options_bytes [NoOp, Timestamp [0, 0, 0, 1, 0, 0, 0, 2]] @ replicate 1 TCP_OPT_END_OF_OPTIONS @ [7, 7]) 68 =
   Some (0, Some 1)"
  using tcp_parse_options_wellformed
    [of "[NoOp, Timestamp [0, 0, 0, 1, 0, 0, 0, 2]]" "demo_hdr 8" 1 68 "[7, 7]"]
  by (simp add: options_bytes_def)

text \<open>
  C25: A TCP option other than end-of-options, no-operation and timestamp that carries the length 0
  makes the option parser loop forever: such a packet has no result although all the bytes the
  parser looks at are there.
\<close>

theorem tcp_parse_options_zero_length_loops:
  assumes "kind \<notin> {TCP_OPT_END_OF_OPTIONS, TCP_OPT_NO_OP, TCP_OPT_TIMESTAMP}"
    and "6 \<le> TCPH_HDRLEN (p_tcp p)" and "TCPH_HDRLEN (p_tcp p) \<le> 15" and "94 \<le> len"
  shows "tcp_parse_options p (kind # 0 # rest) len = None"
proof -
  let ?h = "TCPH_HDRLEN (p_tcp p)"
  have h: "6 \<le> unat ?h" "unat ?h \<le> 15" using assms(2,3) by (simp_all add: word_le_nat_alt)
  have u: "unat (?h * 4 - 20) = unat ?h * 4 - 20"
    using h by (simp add: word_facts unat_word_ariths unat_sub_le)
  have "94 \<le> unat len" using assms(4) by (simp add: word_le_nat_alt)
  then have "\<not> (ucast (?h * 4 - 20) :: u64) > ucast len - sizeof_pkt_tcp"
    using h by (simp add: word_less_nat_alt sizeof_defs unat_sub_le u)
  moreover have "\<not> ?h < 5" using h by (simp add: word_less_nat_alt)
  moreover have "zero_length_option (kind # 0 # rest) (?h * 4 - 20) 0"
    using assms(1) h u by (auto simp: zero_length_option_def word_less_nat_alt unsigned_ucast_eq take_bit_eq_mod)
  ultimately show ?thesis
    using parse_zero_length [of "kind # 0 # rest" "?h * 4 - 20" 0 None]
    by (auto simp: tcp_parse_options_def tcp_parse_options_hdr_def intro: ccontr)
qed

theorem tcp_parse_options_zero_length_loops_witness:
  "tcp_parse_options (demo_hdr 6) [30, 0, 0, 0] 100 = None"
  by (rule tcp_parse_options_zero_length_loops) (simp_all add: pkt_consts)

text \<open>
  C26: The parser does not check that a timestamp option ends within the options: in a header with
  four option bytes it accepts an option that begins in the last two, and the timestamps it reports
  are then the first eight bytes of the payload.
\<close>

theorem tcp_parse_options_timestamp_overrun:
  assumes "TCPH_HDRLEN (p_tcp p) = 6" and "58 \<le> len"
    and mem_def: "mem = [TCP_OPT_NO_OP, TCP_OPT_NO_OP, TCP_OPT_TIMESTAMP, 10] @ payload"
  shows "tcp_parse_options p mem len = Some (0, Some 2) \<and>
    (payload = be32_store v @ be32_store e @ r \<longrightarrow>
      ts_opt_load mem 2 = Some \<lparr>ts_kind = TCP_OPT_TIMESTAMP, ts_length = 10, ts_val = v, ts_ecr = e\<rparr>)"
proof -
  have "58 \<le> unat len" using assms(2) by (simp add: word_le_nat_alt)
  then have l: "\<not> (ucast (4 :: u16) :: u64) > ucast len - sizeof_pkt_tcp"
    by (simp add: word_less_nat_alt sizeof_defs unat_sub_le)
  have "parse_options_loop mem 4 0 None = Some (0, Some 2)"
  proof -
    have "parse_options_loop mem 4 0 None = parse_options_loop mem 4 1 None"
      using parse_nop [of 0 4 mem None] by (simp add: mem_def)
    also have "\<dots> = parse_options_loop mem 4 2 None"
      using parse_nop [of 1 4 mem None] by (simp add: mem_def)
    also have "\<dots> = parse_options_loop mem 4 12 (Some 2)"
      using parse_ts [of 2 4 mem None] by (simp add: mem_def)
    also have "\<dots> = Some (0, Some 2)" by (subst parse_options_loop.simps) simp
    finally show ?thesis .
  qed
  moreover have "ts_opt_load mem 2 =
      Some \<lparr>ts_kind = TCP_OPT_TIMESTAMP, ts_length = 10, ts_val = v, ts_ecr = e\<rparr>"
    if "payload = be32_store v @ be32_store e @ r"
    using that ts_opt_load_store
      [of "[TCP_OPT_NO_OP, TCP_OPT_NO_OP]" "\<lparr>ts_kind = TCP_OPT_TIMESTAMP, ts_length = 10, ts_val = v, ts_ecr = e\<rparr>" r]
    by (simp add: mem_def ts_opt_store_def numeral_2_eq_2)
  ultimately show ?thesis
    using assms(1) l by (simp add: tcp_parse_options_def tcp_parse_options_hdr_def)
qed

theorem tcp_parse_options_timestamp_overrun_witness:
  "tcp_parse_options (demo_hdr 6) ([TCP_OPT_NO_OP, TCP_OPT_NO_OP, TCP_OPT_TIMESTAMP, 10] @ be32_store (BE32 5) @ be32_store (BE32 6)) 58 =
     Some (0, Some 2) \<and>
   ts_opt_load ([TCP_OPT_NO_OP, TCP_OPT_NO_OP, TCP_OPT_TIMESTAMP, 10] @ be32_store (BE32 5) @ be32_store (BE32 6)) 2 =
     Some \<lparr>ts_kind = TCP_OPT_TIMESTAMP, ts_length = 10, ts_val = BE32 5, ts_ecr = BE32 6\<rparr>"
  using tcp_parse_options_timestamp_overrun
    [OF _ _ refl, of "demo_hdr 6" 58 "be32_store (BE32 5) @ be32_store (BE32 6)" "BE32 5" "BE32 6" "[]"]
  by simp

end
