(* ===== verification/Idx_List.thy ===== *)
theory Idx_List
  imports Tas_Prelude
begin

text \<open>
  Linked lists of array indices, the way the fast path keeps its queues: an entry is named by its
  index, its successor is a field of the entry, and \<open>IDXLIST_INVAL\<close> ends the list
  (\<open>src/tas/fast/internal.h\<close>). \<open>idx_chain\<close> relates the successor function and a head to the list
  of indices; \<open>idx_fifo_rep\<close> adds a tail. The locale \<open>idx_fifo\<close> is the contract of the queues
  that the queue manager builds from them.
\<close>

definition IDXLIST_INVAL :: u32 where "IDXLIST_INVAL = - 1"

text \<open>\<open>idx_path nxt h xs e\<close>: following successors from \<open>h\<close> passes through \<open>xs\<close> and arrives at \<open>e\<close>.\<close>

fun idx_path :: "(u32 \<Rightarrow> u32) \<Rightarrow> u32 \<Rightarrow> u32 list \<Rightarrow> u32 \<Rightarrow> bool" where
  "idx_path nxt h [] e \<longleftrightarrow> h = e"
| "idx_path nxt h (x # xs) e \<longleftrightarrow> h = x \<and> x \<noteq> IDXLIST_INVAL \<and> idx_path nxt (nxt x) xs e"

abbreviation idx_chain :: "(u32 \<Rightarrow> u32) \<Rightarrow> u32 \<Rightarrow> u32 list \<Rightarrow> bool" where
  "idx_chain nxt h xs \<equiv> idx_path nxt h xs IDXLIST_INVAL"

lemma idx_path_cong:
  "(\<And>x. x \<in> set xs \<Longrightarrow> f x = g x) \<Longrightarrow> idx_path f h xs e = idx_path g h xs e"
  by (induction xs arbitrary: h) auto

lemma idx_path_upd [simp]:
  "y \<notin> set xs \<Longrightarrow> idx_path (f(y := v)) h xs e = idx_path f h xs e"
  by (rule idx_path_cong) auto

lemma idx_path_append:
  "idx_path f h (xs @ ys) e \<longleftrightarrow> (\<exists>m. idx_path f h xs m \<and> idx_path f m ys e)"
  by (induction xs arbitrary: h) auto

lemma idx_chain_unique: "idx_chain f h xs \<Longrightarrow> idx_chain f h ys \<Longrightarrow> xs = ys"
proof (induction xs arbitrary: h ys)
  case Nil
  then show ?case by (cases ys) auto
next
  case (Cons x xs)
  then show ?case by (cases ys) auto
qed

lemma idx_chain_head: "idx_chain f h xs \<Longrightarrow> h = (case xs of [] \<Rightarrow> IDXLIST_INVAL | x # _ \<Rightarrow> x)"
  by (cases xs) auto

lemma idx_chain_no_inval: "idx_chain f h xs \<Longrightarrow> IDXLIST_INVAL \<notin> set xs"
  by (induction xs arbitrary: h) auto

lemma idx_path_snoc_upd:
  assumes "idx_path f h xs e" and "xs \<noteq> []" and "distinct xs"
  shows "idx_path (f(last xs := y)) h xs y"
proof -
  have xs: "xs = butlast xs @ [last xs]" using assms(2) by simp
  have "idx_path f h (butlast xs @ [last xs]) e" using assms(1) xs by simp
  then have "idx_path f h (butlast xs) (last xs)" "last xs \<noteq> IDXLIST_INVAL"
    by (auto simp: idx_path_append)
  moreover have "last xs \<notin> set (butlast xs)"
    using assms(3) xs by (metis distinct_append not_distinct_conv_prefix append_butlast_last_id assms(2))
  ultimately have "idx_path (f(last xs := y)) h (butlast xs @ [last xs]) y"
    by (auto simp: idx_path_append)
  then show ?thesis using xs by simp
qed

lemma idx_chain_snoc:
  assumes "idx_chain f h xs" and "xs \<noteq> []" and "distinct xs" and "y \<notin> set xs" and "y \<noteq> IDXLIST_INVAL"
  shows "idx_chain (f(y := IDXLIST_INVAL, last xs := y)) h (xs @ [y])"
proof -
  have "idx_path ((f(y := IDXLIST_INVAL))(last xs := y)) h xs y"
    using assms by (intro idx_path_snoc_upd) auto
  moreover have "y \<noteq> last xs" using assms(2,4) last_in_set by metis
  ultimately show ?thesis using assms(5) by (auto simp: idx_path_append)
qed

lemma idx_chain_insert:
  assumes "idx_chain f h (A @ B)" and "distinct (A @ B)" and "y \<notin> set (A @ B)" and "y \<noteq> IDXLIST_INVAL"
  shows "A = [] \<Longrightarrow> idx_chain (f(y := h)) y (y # B)"
    and "A \<noteq> [] \<Longrightarrow> idx_chain (f(y := f (last A), last A := y)) h (A @ y # B)"
proof -
  show "idx_chain (f(y := h)) y (y # B)" if "A = []" using assms that by simp
  assume A: "A \<noteq> []"
  obtain m where m: "idx_path f h A m" "idx_path f m B IDXLIST_INVAL"
    using assms(1) by (auto simp: idx_path_append)
  have "f (last A) = m" using m(1) A by (induction A arbitrary: h) auto
  moreover have "idx_path ((f(y := f (last A)))(last A := y)) h A y"
    using m(1) A assms by (intro idx_path_snoc_upd) auto
  moreover have "y \<noteq> last A" "last A \<notin> set B" using last_in_set [OF A] assms by auto
  ultimately show "idx_chain (f(y := f (last A), last A := y)) h (A @ y # B)"
    using m(2) assms by (auto simp: idx_path_append)
qed

definition idx_fifo_rep :: "(u32 \<Rightarrow> u32) \<Rightarrow> u32 \<Rightarrow> u32 \<Rightarrow> u32 list \<Rightarrow> bool" where
  "idx_fifo_rep nxt h t xs \<longleftrightarrow>
     idx_chain nxt h xs \<and> distinct xs \<and> t = (if xs = [] then IDXLIST_INVAL else last xs)"

lemma idx_fifo_tail_inval:
  "idx_fifo_rep nxt h t xs \<Longrightarrow> t = IDXLIST_INVAL \<longleftrightarrow> xs = []"
  using idx_chain_no_inval [of nxt h xs] last_in_set [of xs] unfolding idx_fifo_rep_def
  by (metis (full_types))

lemma idx_fifo_push:
  assumes rep: "idx_fifo_rep nxt h t xs" and y: "y \<notin> set xs" "y \<noteq> IDXLIST_INVAL"
  shows "t = IDXLIST_INVAL \<Longrightarrow> idx_fifo_rep (nxt(y := IDXLIST_INVAL)) y y (xs @ [y])"
    and "t \<noteq> IDXLIST_INVAL \<Longrightarrow> idx_fifo_rep (nxt(y := IDXLIST_INVAL, t := y)) h y (xs @ [y])"
  using assms idx_fifo_tail_inval [OF rep] idx_chain_snoc [of nxt h xs y]
  by (auto simp: idx_fifo_rep_def)

lemma idx_fifo_pop:
  assumes "idx_fifo_rep nxt h t (x # xs)"
  shows "h = x" "x \<noteq> IDXLIST_INVAL" "x \<notin> set xs"
    "idx_fifo_rep nxt (nxt x) (if nxt x = IDXLIST_INVAL then IDXLIST_INVAL else t) xs"
proof -
  have "nxt x = IDXLIST_INVAL \<longleftrightarrow> xs = []"
    using assms by (cases xs) (auto simp: idx_fifo_rep_def)
  then show "h = x" "x \<noteq> IDXLIST_INVAL" "x \<notin> set xs"
    "idx_fifo_rep nxt (nxt x) (if nxt x = IDXLIST_INVAL then IDXLIST_INVAL else t) xs"
    using assms by (auto simp: idx_fifo_rep_def)
qed

lemma idx_fifo_cong:
  "idx_fifo_rep f h t xs \<Longrightarrow> (\<And>x. x \<in> set xs \<Longrightarrow> f x = g x) \<Longrightarrow> idx_fifo_rep g h t xs"
  using idx_path_cong [of xs f g h] by (simp add: idx_fifo_rep_def)

section \<open>The queue contract\<close>

locale idx_fifo =
  fixes push :: "'s \<Rightarrow> u32 \<Rightarrow> 's option"
    and pop :: "'s \<Rightarrow> (u32 \<times> 's) option"
    and rep :: "'s \<Rightarrow> u32 list \<Rightarrow> bool"
    and pushable :: "'s \<Rightarrow> u32 \<Rightarrow> bool"
  assumes push_ok: "rep s xs \<Longrightarrow> pushable s y \<Longrightarrow> y \<notin> set xs \<Longrightarrow>
      \<exists>s'. push s y = Some s' \<and> rep s' (xs @ [y]) \<and> pushable s' = pushable s"
    and push_twice: "rep s xs \<Longrightarrow> y \<in> set xs \<Longrightarrow> push s y = None"
    and pop_head: "rep s (x # xs) \<Longrightarrow> \<exists>s'. pop s = Some (x, s') \<and> rep s' xs \<and> pushable s' = pushable s"
begin

fun push_all :: "'s \<Rightarrow> u32 list \<Rightarrow> 's option" where
  "push_all s [] = Some s"
| "push_all s (y # ys) = (case push s y of None \<Rightarrow> None | Some s' \<Rightarrow> push_all s' ys)"

fun pop_n :: "nat \<Rightarrow> 's \<Rightarrow> (u32 list \<times> 's) option" where
  "pop_n 0 s = Some ([], s)"
| "pop_n (Suc n) s =
     (case pop s of None \<Rightarrow> None | Some (x, s') \<Rightarrow> map_option (\<lambda>(xs, s''). (x # xs, s'')) (pop_n n s'))"

lemma push_all_rep:
  "rep s xs \<Longrightarrow> distinct ys \<Longrightarrow> set ys \<inter> set xs = {} \<Longrightarrow> \<forall>y \<in> set ys. pushable s y \<Longrightarrow>
     \<exists>s'. push_all s ys = Some s' \<and> rep s' (xs @ ys)"
proof (induction ys arbitrary: s xs)
  case (Cons y ys)
  then have "rep s xs" "pushable s y" "y \<notin> set xs" by auto
  then obtain s' where "push s y = Some s'" "rep s' (xs @ [y])" "pushable s' = pushable s"
    using push_ok by blast
  with Cons.IH [of s' "xs @ [y]"] Cons.prems show ?case by auto
qed simp

lemma pop_n_rep:
  "rep s (xs @ ys) \<Longrightarrow> \<exists>s'. pop_n (length xs) s = Some (xs, s') \<and> rep s' ys"
proof (induction xs arbitrary: s)
  case (Cons x xs)
  then obtain s' where "pop s = Some (x, s')" "rep s' (xs @ ys)" using pop_head by fastforce
  with Cons.IH [of s'] show ?case by auto
qed simp

lemma fifo_order:
  assumes "rep s xs" and "distinct ys" and "set ys \<inter> set xs = {}" and "\<forall>y \<in> set ys. pushable s y"
  shows "\<exists>s1 s2. push_all s ys = Some s1 \<and> pop_n (length (xs @ ys)) s1 = Some (xs @ ys, s2) \<and> rep s2 []"
  using push_all_rep [OF assms] pop_n_rep [of _ "xs @ ys" "[]"] by fastforce

end

end
