(* ===== verification/Fastpath_State.thy ===== *)
theory Fastpath_State
  imports Complex_Main Tas_Memif Idx_List
begin

text \<open>
  The state of a fast path core: the queue manager's containers (\<open>src/tas/fast/qman.c\<close>), network
  buffers (\<open>src/tas/fast/network.h\<close>) and the dataplane context (\<open>src/tas/include/fastpath.h\<close>).
  A C array with a constant length is a function of its index, and every access to it checks the
  index against that length.
\<close>

definition BATCH_SIZE :: nat where "BATCH_SIZE = 16"
definition BUFCACHE_SIZE :: u16 where "BUFCACHE_SIZE = 128"
definition TXBUF_SIZE :: nat where "TXBUF_SIZE = 2 * BATCH_SIZE"
definition FLAG_ACTIVE :: u16 where "FLAG_ACTIVE = 1"
definition MAX_POLL_ROUNDS :: u16 where "MAX_POLL_ROUNDS = 15"
definition MAX_NULL_ROUNDS :: u16 where "MAX_NULL_ROUNDS = 2000"
definition QMAN_SKIPLIST_LEVELS :: nat where "QMAN_SKIPLIST_LEVELS = 4"
definition FLEXNIC_NUM_QMFLOWQUEUES :: nat where "FLEXNIC_NUM_QMFLOWQUEUES = 128 * 1024"

definition FLAG_INSKIPLIST :: u16 where "FLAG_INSKIPLIST = 1"
definition FLAG_INNOLIMITL :: u16 where "FLAG_INNOLIMITL = 2"

definition QMAN_SET_RATE :: u8 where "QMAN_SET_RATE = 1"
definition QMAN_SET_MAXCHUNK :: u8 where "QMAN_SET_MAXCHUNK = 2"
definition QMAN_SET_AVAIL :: u8 where "QMAN_SET_AVAIL = 8"
definition QMAN_ADD_AVAIL :: u8 where "QMAN_ADD_AVAIL = 16"

lemmas qman_flags = FLAG_INSKIPLIST_def FLAG_INNOLIMITL_def QMAN_SET_RATE_def QMAN_SET_MAXCHUNK_def
  QMAN_SET_AVAIL_def QMAN_ADD_AVAIL_def

section \<open>Queue manager\<close>

record flow_queue =
  fq_next_idxs :: "nat \<Rightarrow> u32"
  fq_next_ts :: u32
  fq_rate :: u32
  fq_avail :: u32
  fq_max_chunk :: u16
  fq_flags :: u16

record flow_qman =
  fm_queues :: "u32 \<Rightarrow> flow_queue"
  fm_head_idx :: "nat \<Rightarrow> u32"
  fm_nolimit_head_idx :: u32
  fm_nolimit_tail_idx :: u32
  fm_nolimit_first :: bool

record vm_queue =
  vq_id :: u32
  vq_next_idx :: u32
  vq_fqman :: flow_qman
  vq_avail :: u32
  vq_flags :: u16
  vq_ts_real :: u32
  vq_ts_virtual :: u32

record vm_qman =
  vm_queues :: "u32 \<Rightarrow> vm_queue"
  vm_head_idx :: u32
  vm_tail_idx :: u32

record qman_thread =
  qt_vqman :: vm_qman
  qt_rng :: u64

record skiplist_fstate =
  sk_cur_ts :: u32
  sk_rate_limited :: u8
  sk_orig_num :: nat

section \<open>Network buffers\<close>

text \<open>
  \<open>nb_id\<close> is the handle of the buffer and \<open>nb_buf\<close> its memory; the packet is the \<open>nb_len\<close> bytes from
  \<open>nb_off\<close>. \<open>nb_rss\<close> is the receive hash when the NIC supplied one, \<open>nb_offload\<close> the checksum offload
  that is requested for transmission, with the header lengths that go with it.
\<close>

datatype tx_offload = OffNone | OffTcp u8 u8 | OffGre u8 u8 u8

record network_buf =
  nb_id :: nat
  nb_buf :: bytes
  nb_off :: u16
  nb_len :: u16
  nb_rss :: "u32 option"
  nb_offload :: tx_offload

section \<open>Dataplane context\<close>

record polled_context =
  pc_id :: u32
  pc_vmid :: u32
  pc_next :: u32
  pc_prev :: u32
  pc_flags :: u16
  pc_null_rounds :: u16

record polled_vm =
  pv_id :: u32
  pv_next :: u32
  pv_prev :: u32
  pv_flags :: u16
  pv_poll_next_ctx :: u32
  pv_act_ctx_head :: u32
  pv_act_ctx_tail :: u32
  pv_ctxs :: "u32 \<Rightarrow> polled_context"

text \<open>
  The arrays \<open>arx_cache\<close>, \<open>arx_ctx\<close>, \<open>arx_vm\<close> with their fill count \<open>arx_num\<close> are one list of
  triples, and \<open>tx_handles\<close> with \<open>tx_num\<close> is a list. The counters are C integers of 32 bits. The
  forwarding rings of all cores are in the shared state below.
\<close>

record dataplane_context =
  dc_qman :: qman_thread
  dc_id :: u16
  dc_arx :: "(u16 \<times> u16 \<times> flextcp_pl_arx) list"
  dc_tx :: "network_buf list"
  dc_poll_rounds :: u16
  dc_poll_next_vm :: u32
  dc_act_head :: u32
  dc_act_tail :: u32
  dc_polled_vms :: "u32 \<Rightarrow> polled_vm"
  dc_counters_total :: u32
  dc_vm_counters :: "u32 \<Rightarrow> u32"
  dc_budgets :: "u32 \<Rightarrow> int"
  dc_bufcache :: "u16 \<Rightarrow> network_buf"
  dc_bufcache_num :: u16
  dc_bufcache_head :: u16
  dc_kernel_drop :: u64

section \<open>Shared state\<close>

text \<open>
  \<open>flextcp_pl_mem\<close> (\<open>src/include/tas_memif.h\<close>) as far as the flow code uses it, the shared memory
  \<open>vm_shm\<close> of each VM, and the rings of flow indices between cores.
\<close>

record fp_mem =
  fp_flowst :: "u32 \<Rightarrow> flextcp_pl_flowst"
  fp_flowht :: "u32 \<Rightarrow> flextcp_pl_flowhte"
  fp_steering :: "u16 \<Rightarrow> u8"
  fp_shm :: "u16 \<Rightarrow> bytes"
  fp_rings :: "u16 \<Rightarrow> u32 list"

text \<open>
  What the fast path reads but never changes: fields of \<open>config\<close>, the interface's address, and the
  functions of DPDK and of the processor: checksums over headers, CRC instructions, the capacity of a
  ring, and the rounding of a real number to a C \<open>double\<close>.
\<close>

record fp_env =
  env_eth_addr :: tas_eth_addr
  env_vm_shm_len :: u64
  env_xsumoffload :: bool
  env_ecn_thresh :: real
  env_max_budget :: int
  env_double :: "real \<Rightarrow> real"
  env_ipv4_cksum :: "ip_hdr \<Rightarrow> u16"
  env_udptcp_cksum :: "ip_hdr \<Rightarrow> tcp_hdr \<Rightarrow> bytes \<Rightarrow> u16"
  env_crc_u32 :: "u32 \<Rightarrow> u32 \<Rightarrow> u32"
  env_crc_u64 :: "u64 \<Rightarrow> u32 \<Rightarrow> u32"
  env_ring_size :: nat

definition FLEXNIC_PL_MAX_FLOWGROUPS :: nat where "FLEXNIC_PL_MAX_FLOWGROUPS = 4096"

end
