(* ===== verification/Qman.thy ===== *)
theory Qman
  imports Fastpath_State "HOL-Library.Monad_Syntax"
begin

text \<open>
  The queue manager (\<open>src/tas/fast/qman.c\<close>): per VM a queue of the flows that have bytes to send,
  those without a rate limit in a list and those with one in a skip list ordered by virtual time,
  and a round-robin list of the VMs that have bytes to send.

  An assertion that fails, an array access outside its bounds and a loop that does not end have the
  result \<open>None\<close>. The clock is a parameter: \<open>cur_ts\<close> is the value that \<open>timestamp\<close> returns.
\<close>

section \<open>Random numbers\<close>

definition rng_a :: u64 where "rng_a = 0x5deece66d"
definition rng_c :: u64 where "rng_c = 0xb"
definition rng_m :: u64 where "rng_m = push_bit 48 1"

definition utils_rng_init :: "u64 \<Rightarrow> u64" where
  "utils_rng_init seed = (seed XOR rng_a) mod rng_m"

definition utils_rng_gen32 :: "u64 \<Rightarrow> u32 \<times> u64" where
  "utils_rng_gen32 seed = (let nxt = (rng_a * seed + rng_c) mod rng_m in (ucast (drop_bit 16 nxt), nxt))"

section \<open>Virtual time\<close>

definition rel_time :: "u32 \<Rightarrow> u32 \<Rightarrow> int" where
  "rel_time cur_ts ts_in =
     (let ts = (ucast ts_in :: u64); cur = (ucast cur_ts :: u64); middle = (push_bit 31 1 :: u64) in
      if cur < middle then
        (let start = (cur - middle) AND 0xFFFFFFFF; end_ts = push_bit 32 1 in
         if start \<le> ts \<and> ts < end_ts then sint (ts - start - middle) else sint (ts - cur))
      else if cur = middle then sint (ts - cur)
      else
        (let start = 0; end_ts = ((cur + middle) AND 0xFFFFFFFF) + 1 in
         if start \<le> cur \<and> ts < end_ts then sint (ts + (push_bit 32 1 - cur)) else sint (ts - cur)))"

definition timestamp_lessthaneq :: "u32 \<Rightarrow> u32 \<Rightarrow> u32 \<Rightarrow> bool" where
  "timestamp_lessthaneq ts_virtual a b \<longleftrightarrow> rel_time ts_virtual a \<le> rel_time ts_virtual b"

definition flow_queue_new_ts :: "u32 \<Rightarrow> flow_queue \<Rightarrow> u32 \<Rightarrow> u32 option" where
  "flow_queue_new_ts ts_virtual q nbytes = do {
     c_assert (fq_rate q \<noteq> 0);
     Some (ts_virtual + ucast ((ucast nbytes * 8 * 1000000 :: u64) div ucast (fq_rate q))) }"

section \<open>Flow queues\<close>

definition fq_get :: "flow_qman \<Rightarrow> u32 \<Rightarrow> flow_queue option" where
  "fq_get fqman idx = (if unat idx < FLEXNIC_NUM_QMFLOWQUEUES then Some (fm_queues fqman idx) else None)"

definition fq_put :: "flow_qman \<Rightarrow> u32 \<Rightarrow> flow_queue \<Rightarrow> flow_qman" where
  "fq_put fqman idx q = fqman\<lparr>fm_queues := (fm_queues fqman)(idx := q)\<rparr>"

definition fq_set_next :: "nat \<Rightarrow> u32 \<Rightarrow> flow_queue \<Rightarrow> flow_queue" where
  "fq_set_next l v q = q\<lparr>fq_next_idxs := (fq_next_idxs q)(l := v)\<rparr>"

definition flow_queue_activate_nolimit :: "flow_qman \<Rightarrow> u32 \<Rightarrow> flow_qman option" where
  "flow_queue_activate_nolimit fqman idx = do {
     q \<leftarrow> fq_get fqman idx;
     c_assert (fq_flags q AND (FLAG_INSKIPLIST OR FLAG_INNOLIMITL) = 0);
     let fqman = fq_put fqman idx
       (fq_set_next 0 IDXLIST_INVAL (q\<lparr>fq_flags := fq_flags q OR FLAG_INNOLIMITL\<rparr>));
     if fm_nolimit_tail_idx fqman = IDXLIST_INVAL
     then Some (fqman\<lparr>fm_nolimit_head_idx := idx, fm_nolimit_tail_idx := idx\<rparr>)
     else do {
       q_tail \<leftarrow> fq_get fqman (fm_nolimit_tail_idx fqman);
       Some ((fq_put fqman (fm_nolimit_tail_idx fqman) (fq_set_next 0 idx q_tail))
         \<lparr>fm_nolimit_tail_idx := idx\<rparr>) } }"

text \<open>The walk along one level of the skip list: the last queue that is not after \<open>ts\<close>.\<close>

partial_function (option) skip_walk ::
  "u32 \<Rightarrow> flow_qman \<Rightarrow> nat \<Rightarrow> u32 \<Rightarrow> u32 \<Rightarrow> u32 \<Rightarrow> u32 option" where
  "skip_walk ts_virtual fqman l ts pred idx =
     (if idx = IDXLIST_INVAL then Some pred
      else do {
        q \<leftarrow> fq_get fqman idx;
        if timestamp_lessthaneq ts_virtual (fq_next_ts q) ts
        then skip_walk ts_virtual fqman l ts idx (fq_next_idxs q l)
        else Some pred })"

text \<open>Predecessors at the levels below \<open>n\<close>, top-down.\<close>

fun skip_preds ::
  "u32 \<Rightarrow> flow_qman \<Rightarrow> u32 \<Rightarrow> u32 \<Rightarrow> nat \<Rightarrow> (nat \<Rightarrow> u32) \<Rightarrow> (nat \<Rightarrow> u32) option" where
  "skip_preds ts_virtual fqman ts pred 0 preds = Some preds"
| "skip_preds ts_virtual fqman ts pred (Suc l) preds = do {
     pred' \<leftarrow> skip_walk ts_virtual fqman l ts pred
       (if pred \<noteq> IDXLIST_INVAL then pred else fm_head_idx fqman l);
     skip_preds ts_virtual fqman ts pred' l (preds(l := pred')) }"

text \<open>The insertion loop over the levels below \<open>n\<close>, top-down.\<close>

fun skip_insert :: "flow_qman \<Rightarrow> u32 \<Rightarrow> nat \<Rightarrow> (nat \<Rightarrow> u32) \<Rightarrow> nat \<Rightarrow> flow_qman option" where
  "skip_insert fqman q_idx level preds 0 = Some fqman"
| "skip_insert fqman q_idx level preds (Suc l) = do {
     q \<leftarrow> fq_get fqman q_idx;
     if l > level then
       skip_insert (fq_put fqman q_idx (fq_set_next l IDXLIST_INVAL q)) q_idx level preds l
     else if preds l \<noteq> IDXLIST_INVAL then do {
       qp \<leftarrow> fq_get fqman (preds l);
       let fqman = fq_put fqman q_idx (fq_set_next l (fq_next_idxs qp l) q);
       qp \<leftarrow> fq_get fqman (preds l);
       skip_insert (fq_put fqman (preds l) (fq_set_next l q_idx qp)) q_idx level preds l }
     else
       skip_insert ((fq_put fqman q_idx (fq_set_next l (fm_head_idx fqman l) q))
         \<lparr>fm_head_idx := (fm_head_idx fqman)(l := q_idx)\<rparr>) q_idx level preds l }"

definition c_ffs :: "u32 \<Rightarrow> nat" where
  "c_ffs w = (case find (bit w) [0..<32] of None \<Rightarrow> 0 | Some i \<Rightarrow> Suc i)"

definition flow_queue_level :: "u64 \<Rightarrow> nat \<times> u64" where
  "flow_queue_level rng =
     (case utils_rng_gen32 rng of (r, rng') \<Rightarrow>
        (let x = (c_ffs r - 1) div 3 in
         (if x < QMAN_SKIPLIST_LEVELS then x else QMAN_SKIPLIST_LEVELS - 1, rng')))"

text \<open>Keep the time of a queue between now and the time it would have after sending a full chunk.\<close>

definition clamp_next_ts :: "u32 \<Rightarrow> flow_queue \<Rightarrow> u32 option" where
  "clamp_next_ts ts_virtual q = do {
     max_ts \<leftarrow> flow_queue_new_ts ts_virtual q (ucast (fq_max_chunk q));
     Some (if timestamp_lessthaneq ts_virtual (fq_next_ts q) ts_virtual then ts_virtual
           else if \<not> timestamp_lessthaneq ts_virtual (fq_next_ts q) max_ts then max_ts
           else fq_next_ts q) }"

definition flow_queue_activate_skiplist ::
  "u64 \<Rightarrow> u32 \<Rightarrow> flow_qman \<Rightarrow> u32 \<Rightarrow> (u64 \<times> flow_qman) option" where
  "flow_queue_activate_skiplist rng ts_virtual fqman q_idx = do {
     q \<leftarrow> fq_get fqman q_idx;
     c_assert (fq_flags q AND (FLAG_INSKIPLIST OR FLAG_INNOLIMITL) = 0);
     ts \<leftarrow> clamp_next_ts ts_virtual q;
     let fqman = fq_put fqman q_idx (q\<lparr>fq_next_ts := ts\<rparr>);
     preds \<leftarrow> skip_preds ts_virtual fqman ts IDXLIST_INVAL QMAN_SKIPLIST_LEVELS (\<lambda>l. IDXLIST_INVAL);
     let (level, rng) = flow_queue_level rng;
     fqman \<leftarrow> skip_insert fqman q_idx level preds QMAN_SKIPLIST_LEVELS;
     q \<leftarrow> fq_get fqman q_idx;
     Some (rng, fq_put fqman q_idx (q\<lparr>fq_flags := fq_flags q OR FLAG_INSKIPLIST\<rparr>)) }"

definition flow_queue_activate ::
  "u64 \<Rightarrow> u32 \<Rightarrow> flow_qman \<Rightarrow> u32 \<Rightarrow> (u64 \<times> flow_qman) option" where
  "flow_queue_activate rng ts_virtual fqman idx = do {
     q \<leftarrow> fq_get fqman idx;
     if fq_rate q = 0 then do {
       fqman' \<leftarrow> flow_queue_activate_nolimit fqman idx;
       Some (rng, fqman') }
     else flow_queue_activate_skiplist rng ts_virtual fqman idx }"

text \<open>
  A queue that fires sends at most \<open>max_chunk\<close> bytes; what is left is queued again. The result
  has the number of bytes.
\<close>

definition flow_queue_fire ::
  "u64 \<Rightarrow> u32 \<Rightarrow> flow_qman \<Rightarrow> u32 \<Rightarrow> (u64 \<times> flow_qman \<times> u32) option" where
  "flow_queue_fire rng ts_virtual fqman idx = do {
     q \<leftarrow> fq_get fqman idx;
     c_assert (fq_avail q > 0);
     let nbytes = (if fq_avail q \<le> ucast (fq_max_chunk q) then fq_avail q else ucast (fq_max_chunk q));
     let q = q\<lparr>fq_avail := fq_avail q - nbytes\<rparr>;
     q \<leftarrow> (if fq_rate q > 0 then do {
             ts \<leftarrow> flow_queue_new_ts ts_virtual q nbytes;
             Some (q\<lparr>fq_next_ts := ts\<rparr>) }
           else Some q);
     let fqman = fq_put fqman idx q;
     (rng, fqman) \<leftarrow> (if fq_avail q > 0 then flow_queue_activate rng ts_virtual fqman idx
                      else Some (rng, fqman));
     Some (rng, fqman, nbytes) }"

text \<open>
  One entry of the arrays \<open>q_ids\<close>, \<open>q_bytes\<close> and \<open>vm_ids\<close> that a poll fills: the flow, the bytes
  and the VM. The arrays are the list of the entries.
\<close>

type_synonym poll_entry = "u32 \<times> u16 \<times> u32"

definition flow_nolimit_pop :: "flow_qman \<Rightarrow> (u32 \<times> flow_qman) option" where
  "flow_nolimit_pop fqman = do {
     let idx = fm_nolimit_head_idx fqman;
     q \<leftarrow> fq_get fqman idx;
     let fqman = fqman\<lparr>fm_nolimit_head_idx := fq_next_idxs q 0\<rparr>;
     let fqman = (if fq_next_idxs q 0 = IDXLIST_INVAL
                  then fqman\<lparr>fm_nolimit_tail_idx := IDXLIST_INVAL\<rparr> else fqman);
     Some (idx, fq_put fqman idx (q\<lparr>fq_flags := fq_flags q AND NOT FLAG_INNOLIMITL\<rparr>)) }"

partial_function (option) flow_poll_nolimit ::
  "u64 \<Rightarrow> vm_queue \<Rightarrow> flow_qman \<Rightarrow> nat \<Rightarrow> poll_entry list \<Rightarrow> int \<Rightarrow>
     (u64 \<times> flow_qman \<times> poll_entry list \<times> int) option" where
  "flow_poll_nolimit rng vq fqman num out bytes_sum =
     (if \<not> (num > 0 \<and> fm_nolimit_head_idx fqman \<noteq> IDXLIST_INVAL) then Some (rng, fqman, out, bytes_sum)
      else do {
        (idx, fqman) \<leftarrow> flow_nolimit_pop fqman;
        q \<leftarrow> fq_get fqman idx;
        if fq_avail q > 0 then do {
          (rng, fqman, nbytes) \<leftarrow> flow_queue_fire rng (vq_ts_virtual vq) fqman idx;
          flow_poll_nolimit rng vq fqman (num - 1)
            (out @ [(idx, ucast nbytes, vq_id vq)]) (bytes_sum + uint nbytes) }
        else flow_poll_nolimit rng vq fqman num out bytes_sum })"

text \<open>Removing the first queue of the skip list from all levels it is the head of.\<close>

fun skip_unlink :: "flow_qman \<Rightarrow> flow_queue \<Rightarrow> u32 \<Rightarrow> nat \<Rightarrow> nat \<Rightarrow> flow_qman" where
  "skip_unlink fqman q idx l 0 = fqman"
| "skip_unlink fqman q idx l (Suc n) =
     (if fm_head_idx fqman l = idx
      then skip_unlink (fqman\<lparr>fm_head_idx := (fm_head_idx fqman)(l := fq_next_idxs q l)\<rparr>) q idx (Suc l) n
      else fqman)"

definition skip_pop :: "flow_qman \<Rightarrow> u32 \<Rightarrow> flow_qman option" where
  "skip_pop fqman idx = do {
     q \<leftarrow> fq_get fqman idx;
     let fqman = skip_unlink fqman q idx 0 QMAN_SKIPLIST_LEVELS;
     c_assert (fq_flags q AND FLAG_INSKIPLIST \<noteq> 0);
     Some (fq_put fqman idx (q\<lparr>fq_flags := fq_flags q AND NOT FLAG_INSKIPLIST\<rparr>)) }"

partial_function (option) skiplist_loop ::
  "u64 \<Rightarrow> u32 \<Rightarrow> u32 \<Rightarrow> u32 \<Rightarrow> flow_qman \<Rightarrow> nat \<Rightarrow> poll_entry list \<Rightarrow> int \<Rightarrow> u8 \<Rightarrow>
     (u64 \<times> u32 \<times> flow_qman \<times> poll_entry list \<times> int \<times> u8) option" where
  "skiplist_loop rng vid ts_virtual max_vts fqman num out bytes_sum rate_limited =
     (if \<not> num > 0 then Some (rng, ts_virtual, fqman, out, bytes_sum, rate_limited)
      else
        let idx = fm_head_idx fqman 0 in
        if idx = IDXLIST_INVAL then Some (rng, max_vts, fqman, out, bytes_sum, rate_limited)
        else do {
          q \<leftarrow> fq_get fqman idx;
          if \<not> timestamp_lessthaneq ts_virtual (fq_next_ts q) max_vts
          then Some (rng, max_vts, fqman, out, bytes_sum, 1)
          else do {
            fqman \<leftarrow> skip_pop fqman idx;
            let ts_virtual = fq_next_ts q;
            if fq_avail q > 0 then do {
              (rng, fqman, nbytes) \<leftarrow> flow_queue_fire rng ts_virtual fqman idx;
              skiplist_loop rng vid ts_virtual max_vts fqman (num - 1)
                (out @ [(idx, ucast nbytes, vid)]) (bytes_sum + uint nbytes) rate_limited }
            else skiplist_loop rng vid ts_virtual max_vts fqman num out bytes_sum rate_limited } })"

text \<open>When the batch is full the virtual time is set to the next queue's, or to its maximum.\<close>

definition skiplist_limit_ts :: "u32 \<Rightarrow> u32 \<Rightarrow> flow_qman \<Rightarrow> u32 option" where
  "skiplist_limit_ts ts_virtual max_vts fqman =
     (let idx = fm_head_idx fqman 0 in
      if idx = IDXLIST_INVAL then Some max_vts
      else do {
        q \<leftarrow> fq_get fqman idx;
        Some (if timestamp_lessthaneq ts_virtual (fq_next_ts q) max_vts then fq_next_ts q else max_vts) })"

definition flow_poll_skiplist ::
  "u64 \<Rightarrow> vm_queue \<Rightarrow> flow_qman \<Rightarrow> skiplist_fstate \<Rightarrow> nat \<Rightarrow> poll_entry list \<Rightarrow> int \<Rightarrow>
     (u64 \<times> vm_queue \<times> flow_qman \<times> skiplist_fstate \<times> poll_entry list \<times> int) option" where
  "flow_poll_skiplist rng vq fqman sk num out bytes_sum = do {
     let max_vts = vq_ts_virtual vq + (sk_cur_ts sk - vq_ts_real vq);
     (rng, ts_virtual, fqman, out', bytes_sum, rate_limited) \<leftarrow>
       skiplist_loop rng (vq_id vq) (vq_ts_virtual vq) max_vts fqman num out bytes_sum (sk_rate_limited sk);
     ts_virtual \<leftarrow> (if length out' - length out = sk_orig_num sk
                    then skiplist_limit_ts ts_virtual max_vts fqman else Some ts_virtual);
     Some (rng, vq\<lparr>vq_ts_virtual := ts_virtual, vq_ts_real := sk_cur_ts sk\<rparr>, fqman,
           sk\<lparr>sk_rate_limited := rate_limited\<rparr>, out', bytes_sum) }"

definition flow_qman_poll ::
  "u64 \<Rightarrow> vm_queue \<Rightarrow> skiplist_fstate \<Rightarrow> nat \<Rightarrow> (u64 \<times> vm_queue \<times> skiplist_fstate \<times> poll_entry list \<times> int) option" where
  "flow_qman_poll rng vq sk num = do {
     let fqman = vq_fqman vq;
     (rng, vq, fqman, sk, out, bytes_sum) \<leftarrow>
       (if fm_nolimit_first fqman then do {
          (rng, fqman, out, bytes_sum) \<leftarrow> flow_poll_nolimit rng vq fqman num [] 0;
          flow_poll_skiplist rng vq fqman sk (num - length out) out bytes_sum }
        else do {
          (rng, vq, fqman, sk, out, bytes_sum) \<leftarrow> flow_poll_skiplist rng vq fqman sk num [] 0;
          (rng, fqman, out, bytes_sum) \<leftarrow> flow_poll_nolimit rng vq fqman (num - length out) out bytes_sum;
          Some (rng, vq, fqman, sk, out, bytes_sum) });
     Some (rng, vq\<lparr>vq_fqman := fqman\<lparr>fm_nolimit_first := \<not> fm_nolimit_first fqman\<rparr>\<rparr>, sk, out, bytes_sum) }"

definition flow_set_impl ::
  "u64 \<Rightarrow> u32 \<Rightarrow> flow_qman \<Rightarrow> u32 \<Rightarrow> u32 \<Rightarrow> u32 \<Rightarrow> u16 \<Rightarrow> u8 \<Rightarrow> (u64 \<times> flow_qman) option" where
  "flow_set_impl rng ts_virtual fqman idx rate avail max_chunk flags = do {
     q \<leftarrow> fq_get fqman idx;
     let q = (if flags AND QMAN_SET_RATE \<noteq> 0 then q\<lparr>fq_rate := rate\<rparr> else q);
     let q = (if flags AND QMAN_SET_MAXCHUNK \<noteq> 0 then q\<lparr>fq_max_chunk := max_chunk\<rparr> else q);
     let (q, new_avail) =
       (if flags AND QMAN_SET_AVAIL \<noteq> 0 then (q\<lparr>fq_avail := avail\<rparr>, True)
        else if flags AND QMAN_ADD_AVAIL \<noteq> 0 then (q\<lparr>fq_avail := fq_avail q + avail\<rparr>, True)
        else (q, False));
     let fqman = fq_put fqman idx q;
     if new_avail \<and> fq_avail q > 0 \<and> fq_flags q AND (FLAG_INSKIPLIST OR FLAG_INNOLIMITL) = 0
     then flow_queue_activate rng ts_virtual fqman idx
     else Some (rng, fqman) }"

definition flow_qman_set ::
  "u64 \<Rightarrow> u32 \<Rightarrow> flow_qman \<Rightarrow> u32 \<Rightarrow> u32 \<Rightarrow> u32 \<Rightarrow> u16 \<Rightarrow> u8 \<Rightarrow> (int \<times> u64 \<times> flow_qman) option" where
  "flow_qman_set rng ts_virtual fqman fid rate avail max_chunk flags =
     (if \<not> unat fid < FLEXNIC_NUM_QMFLOWQUEUES then Some (- 1, rng, fqman)
      else do {
        (rng, fqman) \<leftarrow> flow_set_impl rng ts_virtual fqman fid rate avail max_chunk flags;
        Some (0, rng, fqman) })"

definition zero_flow_queue :: flow_queue where
  "zero_flow_queue = \<lparr>fq_next_idxs = (\<lambda>l. 0), fq_next_ts = 0, fq_rate = 0, fq_avail = 0, fq_max_chunk = 0, fq_flags = 0\<rparr>"

text \<open>
  \<open>uninit\<close> is the memory that \<open>malloc\<close> returned for the \<open>flow_qman\<close>: its field \<open>nolimit_first\<close> is
  not set. The array of queues is zeroed (\<open>calloc\<close>).
\<close>

definition flowcont_init :: "flow_qman \<Rightarrow> flow_qman" where
  "flowcont_init uninit =
     uninit\<lparr>fm_queues := (\<lambda>i. zero_flow_queue), fm_head_idx := (\<lambda>l. IDXLIST_INVAL),
       fm_nolimit_head_idx := IDXLIST_INVAL, fm_nolimit_tail_idx := IDXLIST_INVAL\<rparr>"

section \<open>VM queues\<close>

definition vm_get :: "vm_qman \<Rightarrow> u32 \<Rightarrow> vm_queue option" where
  "vm_get vqman idx = (if unat idx < FLEXNIC_PL_VMST_NUM then Some (vm_queues vqman idx) else None)"

definition vm_put :: "vm_qman \<Rightarrow> u32 \<Rightarrow> vm_queue \<Rightarrow> vm_qman" where
  "vm_put vqman idx vq = vqman\<lparr>vm_queues := (vm_queues vqman)(idx := vq)\<rparr>"

definition vm_queue_activate :: "vm_qman \<Rightarrow> u32 \<Rightarrow> vm_qman option" where
  "vm_queue_activate vqman idx = do {
     q \<leftarrow> vm_get vqman idx;
     c_assert (vq_flags q AND FLAG_INNOLIMITL = 0);
     let vqman = vm_put vqman idx
       (q\<lparr>vq_flags := vq_flags q OR FLAG_INNOLIMITL, vq_next_idx := IDXLIST_INVAL\<rparr>);
     if vm_tail_idx vqman = IDXLIST_INVAL
     then Some (vqman\<lparr>vm_head_idx := idx, vm_tail_idx := idx\<rparr>)
     else do {
       q_tail \<leftarrow> vm_get vqman (vm_tail_idx vqman);
       Some ((vm_put vqman (vm_tail_idx vqman) (q_tail\<lparr>vq_next_idx := idx\<rparr>))\<lparr>vm_tail_idx := idx\<rparr>) } }"

definition vm_queue_fire :: "vm_qman \<Rightarrow> u32 \<Rightarrow> int \<Rightarrow> vm_qman option" where
  "vm_queue_fire vqman idx bytes_sum = do {
     q \<leftarrow> vm_get vqman idx;
     c_assert (vq_avail q > 0);
     let q = q\<lparr>vq_avail := vq_avail q - of_int bytes_sum\<rparr>;
     let vqman = vm_put vqman idx q;
     if vq_avail q > 0 then vm_queue_activate vqman idx else Some vqman }"

definition vm_set_impl :: "vm_qman \<Rightarrow> u32 \<Rightarrow> u32 \<Rightarrow> u32 \<Rightarrow> u8 \<Rightarrow> vm_qman option" where
  "vm_set_impl vqman v_idx f_idx avail flags = do {
     vq \<leftarrow> vm_get vqman v_idx;
     (vq, new_avail) \<leftarrow>
       (if flags AND QMAN_SET_AVAIL \<noteq> 0 then do {
          fq \<leftarrow> fq_get (vq_fqman vq) f_idx;
          Some (vq\<lparr>vq_avail := vq_avail vq - fq_avail fq + avail\<rparr>, True) }
        else if flags AND QMAN_ADD_AVAIL \<noteq> 0 then Some (vq\<lparr>vq_avail := vq_avail vq + avail\<rparr>, True)
        else Some (vq, False));
     let vqman = vm_put vqman v_idx vq;
     if new_avail \<and> vq_avail vq > 0 \<and> vq_flags vq AND FLAG_INNOLIMITL = 0
     then vm_queue_activate vqman v_idx
     else Some vqman }"

text \<open>The VM's entry is read before the range check of its index.\<close>

definition vm_qman_set ::
  "qman_thread \<Rightarrow> u32 \<Rightarrow> u32 \<Rightarrow> u32 \<Rightarrow> u32 \<Rightarrow> u16 \<Rightarrow> u8 \<Rightarrow> (int \<times> qman_thread) option" where
  "vm_qman_set t vm_id flow_id rate avail max_chunk flags = do {
     vq \<leftarrow> vm_get (qt_vqman t) vm_id;
     if \<not> unat vm_id < FLEXNIC_PL_VMST_NUM then Some (- 1, t)
     else do {
       vqman \<leftarrow> vm_set_impl (qt_vqman t) vm_id flow_id avail flags;
       vq \<leftarrow> vm_get vqman vm_id;
       (ret, rng, fqman) \<leftarrow>
         flow_qman_set (qt_rng t) (vq_ts_virtual vq) (vq_fqman vq) flow_id rate avail max_chunk flags;
       Some (ret, t\<lparr>qt_rng := rng, qt_vqman := vm_put vqman vm_id (vq\<lparr>vq_fqman := fqman\<rparr>)\<rparr>) } }"

definition tas_qman_set ::
  "qman_thread \<Rightarrow> u32 \<Rightarrow> u32 \<Rightarrow> u32 \<Rightarrow> u32 \<Rightarrow> u16 \<Rightarrow> u8 \<Rightarrow> (int \<times> qman_thread) option" where
  "tas_qman_set t vm_id flow_id rate avail max_chunk flags =
     vm_qman_set t vm_id flow_id rate avail max_chunk flags"

text \<open>
  The main loop of a poll over the VMs. \<open>rvq\<close> is the first VM that was rate limited in this poll,
  \<open>oob\<close> collects the VMs that are out of budget.
\<close>

definition vm_queue_pop :: "vm_qman \<Rightarrow> (u32 \<times> vm_qman) option" where
  "vm_queue_pop vqman = do {
     let idx = vm_head_idx vqman;
     vq \<leftarrow> vm_get vqman idx;
     let vqman = vqman\<lparr>vm_head_idx := vq_next_idx vq\<rparr>;
     let vqman = vm_put vqman idx (vq\<lparr>vq_flags := vq_flags vq AND NOT FLAG_INNOLIMITL\<rparr>);
     Some (idx, if vq_next_idx vq = IDXLIST_INVAL then vqman\<lparr>vm_tail_idx := IDXLIST_INVAL\<rparr> else vqman) }"

definition dc_vqman :: "dataplane_context \<Rightarrow> vm_qman" where
  "dc_vqman ctx = qt_vqman (dc_qman ctx)"

definition dc_set_qman :: "dataplane_context \<Rightarrow> u64 \<Rightarrow> vm_qman \<Rightarrow> dataplane_context" where
  "dc_set_qman ctx rng vqman = ctx\<lparr>dc_qman := \<lparr>qt_vqman = vqman, qt_rng = rng\<rparr>\<rparr>"

definition dc_charge :: "dataplane_context \<Rightarrow> u32 \<Rightarrow> int \<Rightarrow> dataplane_context" where
  "dc_charge ctx vmid n =
     ctx\<lparr>dc_vm_counters := (dc_vm_counters ctx)(vmid := dc_vm_counters ctx vmid + of_int n),
         dc_counters_total := dc_counters_total ctx + of_int n\<rparr>"

definition vm_poll_one ::
  "dataplane_context \<Rightarrow> u32 \<Rightarrow> skiplist_fstate \<Rightarrow> nat \<Rightarrow>
     (dataplane_context \<times> skiplist_fstate \<times> poll_entry list \<times> int \<times> u32) option" where
  "vm_poll_one ctx idx sk num = do {
     vq \<leftarrow> vm_get (dc_vqman ctx) idx;
     (rng, vq, sk, out, bytes_sum) \<leftarrow> flow_qman_poll (qt_rng (dc_qman ctx)) vq sk num;
     let vqman = vm_put (dc_vqman ctx) idx vq;
     let avail = vq_avail vq;
     vqman \<leftarrow> (if avail > 0 then vm_queue_fire vqman idx bytes_sum else Some vqman);
     Some (dc_set_qman ctx rng vqman, sk, out, bytes_sum, avail) }"

partial_function (option) vm_poll_loop ::
  "nat \<Rightarrow> dataplane_context \<Rightarrow> skiplist_fstate \<Rightarrow> poll_entry list \<Rightarrow> u32 option \<Rightarrow> u32 list \<Rightarrow>
     (dataplane_context \<times> skiplist_fstate \<times> poll_entry list \<times> u32 list) option" where
  "vm_poll_loop num ctx sk out rvq oob =
     (if \<not> (length out < num \<and> vm_head_idx (dc_vqman ctx) \<noteq> IDXLIST_INVAL) then Some (ctx, sk, out, oob)
      else if rvq = Some (vm_head_idx (dc_vqman ctx)) then Some (ctx, sk, out, oob)
      else do {
        (idx, vqman) \<leftarrow> vm_queue_pop (dc_vqman ctx);
        let ctx = dc_set_qman ctx (qt_rng (dc_qman ctx)) vqman;
        if dc_budgets ctx idx > 0 then do {
          let sk = sk\<lparr>sk_rate_limited := 0, sk_orig_num := num\<rparr>;
          (ctx, sk, out', bytes_sum, avail) \<leftarrow> vm_poll_one ctx idx sk (num - length out);
          let rvq = (if avail > 0 \<and> sk_rate_limited sk \<noteq> 0 \<and> rvq = None then Some idx else rvq);
          vm_poll_loop num (dc_charge ctx idx bytes_sum) sk (out @ out') rvq oob }
        else do {
          vq \<leftarrow> vm_get vqman idx;
          if vq_avail vq > 0 then do {
            c_assert (length oob < FLEXNIC_PL_VMST_NUM);
            vm_poll_loop num ctx sk out rvq (oob @ [idx]) }
          else vm_poll_loop num ctx sk out rvq oob } })"

text \<open>VMs out of budget are served only if the batch is empty; otherwise they are queued again.\<close>

fun vm_poll_oob ::
  "nat \<Rightarrow> bool \<Rightarrow> dataplane_context \<Rightarrow> skiplist_fstate \<Rightarrow> poll_entry list \<Rightarrow> u32 list \<Rightarrow>
     (dataplane_context \<times> skiplist_fstate \<times> poll_entry list) option" where
  "vm_poll_oob num batch_empty ctx sk out [] = Some (ctx, sk, out)"
| "vm_poll_oob num batch_empty ctx sk out (idx # oob) = do {
     vq \<leftarrow> vm_get (dc_vqman ctx) idx;
     let vq = vq\<lparr>vq_flags := vq_flags vq AND NOT FLAG_INNOLIMITL\<rparr>;
     let ctx = dc_set_qman ctx (qt_rng (dc_qman ctx)) (vm_put (dc_vqman ctx) idx vq);
     if length out < num \<and> batch_empty then do {
       (ctx, sk, out', bytes_sum, avail) \<leftarrow>
         vm_poll_one ctx (vq_id vq) (sk\<lparr>sk_rate_limited := 0\<rparr>) (num - length out);
       vm_poll_oob num batch_empty ctx sk (out @ out') oob }
     else do {
       vqman \<leftarrow> vm_queue_activate (dc_vqman ctx) (vq_id vq);
       vm_poll_oob num batch_empty (dc_set_qman ctx (qt_rng (dc_qman ctx)) vqman) sk out oob } }"

definition vm_qman_poll ::
  "dataplane_context \<Rightarrow> u32 \<Rightarrow> skiplist_fstate \<Rightarrow> nat \<Rightarrow> (dataplane_context \<times> poll_entry list) option" where
  "vm_qman_poll ctx cur_ts sk num = do {
     let sk = sk\<lparr>sk_cur_ts := cur_ts\<rparr>;
     (ctx, sk, out, oob) \<leftarrow> vm_poll_loop num ctx sk [] None [];
     (ctx, sk, out) \<leftarrow> vm_poll_oob num (out = []) ctx sk out oob;
     Some (ctx, out) }"

text \<open>\<open>sk\<close> is the uninitialised local variable of \<open>tas_qman_poll\<close>.\<close>

definition tas_qman_poll ::
  "dataplane_context \<Rightarrow> u32 \<Rightarrow> skiplist_fstate \<Rightarrow> nat \<Rightarrow> (dataplane_context \<times> poll_entry list) option" where
  "tas_qman_poll ctx cur_ts sk num = vm_qman_poll ctx cur_ts sk num"

section \<open>Initialisation and time\<close>

text \<open>
  \<open>now i\<close> is the clock in round \<open>i\<close>, \<open>alloc_ok i\<close> whether the flow queues of VM \<open>i\<close> could be
  allocated, \<open>uninit i\<close> the uninitialised memory for its \<open>flow_qman\<close>.
\<close>

fun vmcont_init_from ::
  "(nat \<Rightarrow> u32) \<Rightarrow> (nat \<Rightarrow> bool) \<Rightarrow> (nat \<Rightarrow> flow_qman) \<Rightarrow> nat \<Rightarrow> nat \<Rightarrow> vm_qman \<Rightarrow> int \<times> vm_qman" where
  "vmcont_init_from now alloc_ok uninit i 0 vqman = (0, vqman)"
| "vmcont_init_from now alloc_ok uninit i (Suc n) vqman =
     (let vq = (vm_queues vqman (of_nat i))
            \<lparr>vq_avail := 0, vq_id := of_nat i, vq_ts_virtual := 0, vq_ts_real := now i\<rparr>;
          vq' = vq\<lparr>vq_fqman := flowcont_init (uninit i)\<rparr> in
      if \<not> alloc_ok i then (- 1, vm_put vqman (of_nat i) (vq\<lparr>vq_fqman := uninit i\<rparr>))
      else vmcont_init_from now alloc_ok uninit (Suc i) n (vm_put vqman (of_nat i) vq'))"

text \<open>\<open>null\<close> stands for the null pointers in the zeroed array.\<close>

definition zero_vm_queue :: "flow_qman \<Rightarrow> vm_queue" where
  "zero_vm_queue null = \<lparr>vq_id = 0, vq_next_idx = 0, vq_fqman = null, vq_avail = 0, vq_flags = 0,
     vq_ts_real = 0, vq_ts_virtual = 0\<rparr>"

definition vmcont_init ::
  "(nat \<Rightarrow> u32) \<Rightarrow> bool \<Rightarrow> (nat \<Rightarrow> bool) \<Rightarrow> flow_qman \<Rightarrow> (nat \<Rightarrow> flow_qman) \<Rightarrow> vm_qman \<Rightarrow> int \<times> vm_qman" where
  "vmcont_init now queues_ok alloc_ok null uninit vqman =
     (if \<not> queues_ok then (- 1, vqman)
      else case vmcont_init_from now alloc_ok uninit 0 FLEXNIC_PL_VMST_NUM
          (vqman\<lparr>vm_queues := \<lambda>i. zero_vm_queue null\<rparr>) of
        (ret, vqman') \<Rightarrow>
          if ret \<noteq> 0 then (- 1, vqman')
          else (0, vqman'\<lparr>vm_head_idx := IDXLIST_INVAL, vm_tail_idx := IDXLIST_INVAL\<rparr>))"

definition RNG_SEED :: u32 where "RNG_SEED = 0x12345678"

definition tas_qman_thread_init ::
  "(nat \<Rightarrow> u32) \<Rightarrow> bool \<Rightarrow> (nat \<Rightarrow> bool) \<Rightarrow> flow_qman \<Rightarrow> (nat \<Rightarrow> flow_qman) \<Rightarrow> dataplane_context \<Rightarrow> int \<times> dataplane_context" where
  "tas_qman_thread_init now queues_ok alloc_ok null uninit ctx =
     (case vmcont_init now queues_ok alloc_ok null uninit (dc_vqman ctx) of (ret, vqman) \<Rightarrow>
        if ret \<noteq> 0 then (- 1, dc_set_qman ctx (qt_rng (dc_qman ctx)) vqman)
        else (0, dc_set_qman ctx (utils_rng_init (scast (RNG_SEED * ucast (dc_id ctx) + ucast (dc_id ctx)))) vqman))"

definition tas_qman_next_ts :: "qman_thread \<Rightarrow> u32 \<Rightarrow> u32 option" where
  "tas_qman_next_ts t ts =
     (if vm_head_idx (qt_vqman t) = IDXLIST_INVAL then Some (- 1)
      else do {
        vq \<leftarrow> vm_get (qt_vqman t) (vm_head_idx (qt_vqman t));
        let fqman = vq_fqman vq;
        if fm_nolimit_head_idx fqman \<noteq> IDXLIST_INVAL then Some 0
        else
          let ret_ts = vq_ts_virtual vq + (ts - vq_ts_real vq); idx = fm_head_idx fqman 0 in
          if idx \<noteq> IDXLIST_INVAL then do {
            q \<leftarrow> fq_get fqman idx;
            if timestamp_lessthaneq (vq_ts_virtual vq) (fq_next_ts q) ret_ts then Some 0
            else
              let rel = rel_time ret_ts (fq_next_ts q) in
              Some (of_int (if rel < 0 then - (- rel div 1000) else rel div 1000)) }
          else Some (- 1) })"

definition tas_qman_timestamp :: "u64 \<Rightarrow> u64 \<Rightarrow> u32" where
  "tas_qman_timestamp freq cycles = ucast (cycles * 1000000 div freq)"

definition timestamp :: "u64 \<Rightarrow> u64 \<Rightarrow> u32" where
  "timestamp freq cycles = ucast (cycles * 1000000000 div freq)"

definition qman_vm_get_avail :: "dataplane_context \<Rightarrow> u32 \<Rightarrow> u32 option" where
  "qman_vm_get_avail ctx vm_id = map_option vq_avail (vm_get (dc_vqman ctx) vm_id)"

end
