(* ===== verification/Qman_Lists.thy ===== *)
theory Qman_Lists
  imports Qman "HOL-Library.Sublist"
begin

text \<open>
  The lists inside the queue manager as HOL lists. \<open>flow_rep fqman ns L\<close> says that the flows without
  rate limit are the list \<open>ns\<close> and that level \<open>l\<close> of the skip list is \<open>L l\<close>, each level a
  subsequence of the one below, and that the flags of every flow queue tell which list it is in.
  The operations of \<open>src/tas/fast/qman.c\<close> on these lists are appending, removing the head and
  inserting by time.
\<close>

section \<open>Representation\<close>

definition lvl_next :: "flow_qman \<Rightarrow> nat \<Rightarrow> u32 \<Rightarrow> u32" where
  "lvl_next fqman l = (\<lambda>i. fq_next_idxs (fm_queues fqman i) l)"

abbreviation fq_ok :: "u32 \<Rightarrow> bool" where "fq_ok i \<equiv> unat i < FLEXNIC_NUM_QMFLOWQUEUES"

definition skip_rep :: "flow_qman \<Rightarrow> (nat \<Rightarrow> u32 list) \<Rightarrow> bool" where
  "skip_rep fqman L \<longleftrightarrow>
     (\<forall>l < QMAN_SKIPLIST_LEVELS. idx_chain (lvl_next fqman l) (fm_head_idx fqman l) (L l)) \<and>
     (\<forall>l. Suc l < QMAN_SKIPLIST_LEVELS \<longrightarrow> subseq (L (Suc l)) (L l)) \<and> distinct (L 0)"

definition list_flags :: "u32 list \<Rightarrow> (nat \<Rightarrow> u32 list) \<Rightarrow> u32 \<Rightarrow> u16" where
  "list_flags ns L i =
     (if i \<in> set ns then FLAG_INNOLIMITL else if i \<in> set (L 0) then FLAG_INSKIPLIST else 0)"

definition flow_rep :: "flow_qman \<Rightarrow> u32 list \<Rightarrow> (nat \<Rightarrow> u32 list) \<Rightarrow> bool" where
  "flow_rep fqman ns L \<longleftrightarrow>
     idx_fifo_rep (lvl_next fqman 0) (fm_nolimit_head_idx fqman) (fm_nolimit_tail_idx fqman) ns \<and>
     skip_rep fqman L \<and> set ns \<inter> set (L 0) = {} \<and> (\<forall>i \<in> set ns \<union> set (L 0). fq_ok i) \<and>
     (\<forall>i. fq_ok i \<longrightarrow> fq_flags (fm_queues fqman i) = list_flags ns L i)"

lemma INVAL_not_ok [simp]: "\<not> fq_ok IDXLIST_INVAL"
  by (simp add: IDXLIST_INVAL_def FLEXNIC_NUM_QMFLOWQUEUES_def unsigned_minus_1_eq_mask mask_eq_exp_minus_1)

lemma fq_get_Some [simp]: "fq_ok i \<Longrightarrow> fq_get fqman i = Some (fm_queues fqman i)"
  by (simp add: fq_get_def)

lemma fq_put_simps [simp]:
  "fm_queues (fq_put fqman i q) = (fm_queues fqman)(i := q)"
  "fm_head_idx (fq_put fqman i q) = fm_head_idx fqman"
  "fm_nolimit_head_idx (fq_put fqman i q) = fm_nolimit_head_idx fqman"
  "fm_nolimit_tail_idx (fq_put fqman i q) = fm_nolimit_tail_idx fqman"
  "fm_nolimit_first (fq_put fqman i q) = fm_nolimit_first fqman"
  by (simp_all add: fq_put_def)

lemma lvl_next_put [simp]:
  "lvl_next (fq_put fqman i q) l = (lvl_next fqman l)(i := fq_next_idxs q l)"
  by (auto simp: lvl_next_def)

lemma lvl_next_heads [simp]:
  "lvl_next (fqman\<lparr>fm_head_idx := h\<rparr>) l = lvl_next fqman l"
  "lvl_next (fqman\<lparr>fm_nolimit_head_idx := nh\<rparr>) l = lvl_next fqman l"
  "lvl_next (fqman\<lparr>fm_nolimit_tail_idx := nt\<rparr>) l = lvl_next fqman l"
  "lvl_next (fqman\<lparr>fm_nolimit_first := b\<rparr>) l = lvl_next fqman l"
  by (simp_all add: lvl_next_def)

lemma fq_set_next_simps [simp]:
  "fq_next_idxs (fq_set_next l v q) = (fq_next_idxs q)(l := v)"
  "fq_avail (fq_set_next l v q) = fq_avail q" "fq_rate (fq_set_next l v q) = fq_rate q"
  "fq_max_chunk (fq_set_next l v q) = fq_max_chunk q" "fq_flags (fq_set_next l v q) = fq_flags q"
  "fq_next_ts (fq_set_next l v q) = fq_next_ts q"
  by (simp_all add: fq_set_next_def)

lemma subseq_set: "subseq xs ys \<Longrightarrow> set xs \<subseteq> set ys"
  by (induction rule: list_emb.induct) auto

lemma subseq_imp_distinct: "subseq xs ys \<Longrightarrow> distinct ys \<Longrightarrow> distinct xs"
  by (induction rule: list_emb.induct) (auto dest: subseq_set)

lemma level_subset:
  assumes "skip_rep fqman L" and "l < QMAN_SKIPLIST_LEVELS"
  shows "set (L l) \<subseteq> set (L 0) \<and> subseq (L l) (L 0)"
  using assms(2)
proof (induction l)
  case (Suc l)
  then have "subseq (L (Suc l)) (L l)" "subseq (L l) (L 0)" using assms(1) by (auto simp: skip_rep_def)
  then have "subseq (L (Suc l)) (L 0)" by (rule subseq_order.trans)
  then show ?case using subseq_set by blast
qed simp

lemma level_distinct: "skip_rep fqman L \<Longrightarrow> l < QMAN_SKIPLIST_LEVELS \<Longrightarrow> distinct (L l)"
  using level_subset [of fqman L l] subseq_imp_distinct [of "L l" "L 0"] by (auto simp: skip_rep_def)

lemma skip_rep_cong:
  assumes "skip_rep f L" and "fm_head_idx g = fm_head_idx f"
    and "\<And>i l. i \<in> set (L 0) \<Longrightarrow> lvl_next g l i = lvl_next f l i"
  shows "skip_rep g L"
proof -
  have "idx_path (lvl_next g l) h (L l) e = idx_path (lvl_next f l) h (L l) e"
    if "l < QMAN_SKIPLIST_LEVELS" for l h e
    using assms(3) level_subset [OF assms(1) that] by (intro idx_path_cong) auto
  then show ?thesis using assms by (simp add: skip_rep_def)
qed

section \<open>The list of flows without rate limit\<close>

lemma flags_eval [simp]:
  "FLAG_INNOLIMITL AND (FLAG_INSKIPLIST OR FLAG_INNOLIMITL) \<noteq> 0"
  "FLAG_INSKIPLIST AND (FLAG_INSKIPLIST OR FLAG_INNOLIMITL) \<noteq> 0"
  "FLAG_INNOLIMITL AND NOT FLAG_INNOLIMITL = 0"
  "FLAG_INSKIPLIST AND NOT FLAG_INSKIPLIST = 0"
  "FLAG_INNOLIMITL AND FLAG_INSKIPLIST = 0"
  "FLAG_INSKIPLIST AND FLAG_INSKIPLIST \<noteq> 0"
  "FLAG_INNOLIMITL \<noteq> 0" "FLAG_INSKIPLIST \<noteq> 0"
  by (simp_all add: qman_flags)

text \<open>The payload of a flow queue: what the list operations leave alone.\<close>

definition fq_data :: "flow_qman \<Rightarrow> u32 \<Rightarrow> u32 \<times> u32 \<times> u16" where
  "fq_data fqman i =
     (fq_avail (fm_queues fqman i), fq_rate (fm_queues fqman i), fq_max_chunk (fm_queues fqman i))"

lemma flow_repD:
  assumes "flow_rep fqman ns L"
  shows "idx_fifo_rep (lvl_next fqman 0) (fm_nolimit_head_idx fqman) (fm_nolimit_tail_idx fqman) ns"
    and "skip_rep fqman L" and "set ns \<inter> set (L 0) = {}"
    and "\<And>i. i \<in> set ns \<Longrightarrow> fq_ok i" and "\<And>i. i \<in> set (L 0) \<Longrightarrow> fq_ok i"
    and "\<And>i. fq_ok i \<Longrightarrow> fq_flags (fm_queues fqman i) = list_flags ns L i"
  using assms by (auto simp: flow_rep_def)

lemma nolimit_push:
  assumes rep: "flow_rep fqman ns L" and y: "fq_ok y" "y \<notin> set ns" "y \<notin> set (L 0)"
  shows "\<exists>fqman'. flow_queue_activate_nolimit fqman y = Some fqman' \<and> flow_rep fqman' (ns @ [y]) L \<and>
    fq_data fqman' = fq_data fqman \<and> fm_nolimit_first fqman' = fm_nolimit_first fqman"
proof -
  note d = flow_repD [OF rep]
  let ?q = "fm_queues fqman y" and ?t = "fm_nolimit_tail_idx fqman"
  have yi: "y \<noteq> IDXLIST_INVAL" using y(1) by auto
  have fl: "fq_flags ?q = 0" using d(6) [OF y(1)] y by (simp add: list_flags_def)
  note push = idx_fifo_push [OF d(1) y(2) yi] and empty = idx_fifo_tail_inval [OF d(1)]
  have flags: "list_flags (ns @ [y]) L i = (if i = y then FLAG_INNOLIMITL else list_flags ns L i)" for i
    by (simp add: list_flags_def)
  let ?f1 = "fq_put fqman y (fq_set_next 0 IDXLIST_INVAL (?q\<lparr>fq_flags := FLAG_INNOLIMITL\<rparr>))"
  show ?thesis
  proof (cases "?t = IDXLIST_INVAL")
    case True
    let ?f2 = "?f1\<lparr>fm_nolimit_head_idx := y, fm_nolimit_tail_idx := y\<rparr>"
    have "flow_queue_activate_nolimit fqman y = Some ?f2"
      using y(1) fl True by (simp add: flow_queue_activate_nolimit_def)
    moreover have "flow_rep ?f2 (ns @ [y]) L"
      unfolding flow_rep_def
    proof (intro conjI allI impI ballI)
      show "idx_fifo_rep (lvl_next ?f2 0) (fm_nolimit_head_idx ?f2) (fm_nolimit_tail_idx ?f2) (ns @ [y])"
        using push(1) [OF True] by simp
      show "skip_rep ?f2 L" using y(3) by (intro skip_rep_cong [OF d(2)]) auto
      show "set (ns @ [y]) \<inter> set (L 0) = {}" using d(3) y by auto
      show "fq_ok i" if "i \<in> set (ns @ [y]) \<union> set (L 0)" for i using that d(4,5) y by auto
      show "fq_flags (fm_queues ?f2 i) = list_flags (ns @ [y]) L i" if "fq_ok i" for i
        using d(6) [OF that] by (simp add: flags)
    qed
    moreover have "fq_data ?f2 = fq_data fqman" by (auto simp: fq_data_def)
    ultimately show ?thesis by auto
  next
    case False
    then have "ns \<noteq> []" using empty by simp
    then have t: "?t \<in> set ns" using d(1) by (auto simp: idx_fifo_rep_def)
    then have tok: "fq_ok ?t" "?t \<noteq> y" "?t \<notin> set (L 0)" using d y by auto
    let ?f2 = "(fq_put ?f1 ?t (fq_set_next 0 y (fm_queues fqman ?t)))\<lparr>fm_nolimit_tail_idx := y\<rparr>"
    have "flow_queue_activate_nolimit fqman y = Some ?f2"
      using y(1) fl False tok by (simp add: flow_queue_activate_nolimit_def)
    moreover have "flow_rep ?f2 (ns @ [y]) L"
      unfolding flow_rep_def
    proof (intro conjI allI impI ballI)
      show "idx_fifo_rep (lvl_next ?f2 0) (fm_nolimit_head_idx ?f2) (fm_nolimit_tail_idx ?f2) (ns @ [y])"
        using push(2) [OF False] tok by simp
      show "skip_rep ?f2 L" using y(3) tok by (intro skip_rep_cong [OF d(2)]) auto
      show "set (ns @ [y]) \<inter> set (L 0) = {}" using d(3) y by auto
      show "fq_ok i" if "i \<in> set (ns @ [y]) \<union> set (L 0)" for i using that d(4,5) y by auto
      show "fq_flags (fm_queues ?f2 i) = list_flags (ns @ [y]) L i" if "fq_ok i" for i
        using d(6) [OF that] d(6) [OF tok(1)] tok by (simp add: flags)
    qed
    moreover have "fq_data ?f2 = fq_data fqman" by (auto simp: fq_data_def)
    ultimately show ?thesis by auto
  qed
qed

lemma list_flags_in [simp]:
  "i \<in> set ns \<Longrightarrow> list_flags ns L i = FLAG_INNOLIMITL"
  "i \<notin> set ns \<Longrightarrow> i \<in> set (L 0) \<Longrightarrow> list_flags ns L i = FLAG_INSKIPLIST"
  "i \<notin> set ns \<Longrightarrow> i \<notin> set (L 0) \<Longrightarrow> list_flags ns L i = 0"
  by (simp_all add: list_flags_def)

lemma nolimit_head: "flow_rep fqman ns L \<Longrightarrow> fm_nolimit_head_idx fqman = IDXLIST_INVAL \<longleftrightarrow> ns = []"
  using idx_chain_head [of "lvl_next fqman 0" "fm_nolimit_head_idx fqman" ns]
    idx_chain_no_inval [of "lvl_next fqman 0" "fm_nolimit_head_idx fqman" ns]
  by (cases ns) (auto simp: flow_rep_def idx_fifo_rep_def)

lemma nolimit_pop:
  assumes rep: "flow_rep fqman (x # ns) L"
  shows "\<exists>fqman'. flow_nolimit_pop fqman = Some (x, fqman') \<and> flow_rep fqman' ns L \<and>
    fq_data fqman' = fq_data fqman \<and> fm_nolimit_first fqman' = fm_nolimit_first fqman"
proof -
  note d = flow_repD [OF rep]
  note pop = idx_fifo_pop [OF d(1)]
  have x: "fq_ok x" "x \<notin> set (L 0)" "x \<notin> set ns" using d(3,4) pop(3) by auto
  let ?q = "fm_queues fqman x"
  have fl: "fq_flags ?q = FLAG_INNOLIMITL" using d(6) [OF x(1)] by simp
  let ?f2 = "fq_put (fqman\<lparr>fm_nolimit_head_idx := fq_next_idxs ?q 0,
      fm_nolimit_tail_idx := (if fq_next_idxs ?q 0 = IDXLIST_INVAL then IDXLIST_INVAL
        else fm_nolimit_tail_idx fqman)\<rparr>) x (?q\<lparr>fq_flags := 0\<rparr>)"
  have "flow_nolimit_pop fqman = Some (x, ?f2)"
    using x(1) pop(1) fl by (simp add: flow_nolimit_pop_def fq_put_def)
  moreover have "flow_rep ?f2 ns L"
    unfolding flow_rep_def
  proof (intro conjI allI impI ballI)
    show "idx_fifo_rep (lvl_next ?f2 0) (fm_nolimit_head_idx ?f2) (fm_nolimit_tail_idx ?f2) ns"
      using pop(4) by (rule_tac idx_fifo_cong [where f = "lvl_next fqman 0"]) (auto simp: lvl_next_def)
    show "skip_rep ?f2 L" using x by (intro skip_rep_cong [OF d(2)]) auto
    show "set ns \<inter> set (L 0) = {}" using d(3) by auto
    show "fq_ok i" if "i \<in> set ns \<union> set (L 0)" for i using that d(4,5) by auto
    show "fq_flags (fm_queues ?f2 i) = list_flags ns L i" if "fq_ok i" for i
      using d(6) [OF that] x by (auto simp: list_flags_def)
  qed
  moreover have "fq_data ?f2 = fq_data fqman" by (auto simp: fq_data_def)
  ultimately show ?thesis by auto
qed

definition nolimit_rep :: "flow_qman \<Rightarrow> u32 list \<Rightarrow> bool" where
  "nolimit_rep fqman ns \<longleftrightarrow> (\<exists>L. flow_rep fqman ns L)"

definition nolimit_pushable :: "flow_qman \<Rightarrow> u32 \<Rightarrow> bool" where
  "nolimit_pushable fqman i \<longleftrightarrow> fq_ok i \<and> fq_flags (fm_queues fqman i) AND FLAG_INSKIPLIST = 0"

lemma nolimit_pushable_rep:
  "flow_rep fqman ns L \<Longrightarrow> nolimit_pushable fqman i \<longleftrightarrow> fq_ok i \<and> i \<notin> set (L 0)"
  using flow_repD(3,6) [of fqman ns L]
  by (auto simp: nolimit_pushable_def list_flags_def split: if_splits)

lemma nolimit_pushable_eq:
  "flow_rep f ns L \<Longrightarrow> flow_rep g ms L \<Longrightarrow> nolimit_pushable g = nolimit_pushable f"
  by (simp add: nolimit_pushable_rep fun_eq_iff)

lemma nolimit_push_rep:
  assumes "nolimit_rep s xs" and "nolimit_pushable s y" and "y \<notin> set xs"
  shows "\<exists>s'. flow_queue_activate_nolimit s y = Some s' \<and> nolimit_rep s' (xs @ [y]) \<and>
    nolimit_pushable s' = nolimit_pushable s"
proof -
  obtain L where L: "flow_rep s xs L" using assms(1) by (auto simp: nolimit_rep_def)
  obtain s' where "flow_queue_activate_nolimit s y = Some s'" and s': "flow_rep s' (xs @ [y]) L"
    using nolimit_push [OF L] assms(2,3) nolimit_pushable_rep [OF L] by blast
  then show ?thesis using nolimit_pushable_eq [OF L s'] by (auto simp: nolimit_rep_def)
qed

lemma nolimit_pop_rep:
  assumes "nolimit_rep s (x # xs)"
  shows "\<exists>s'. flow_nolimit_pop s = Some (x, s') \<and> nolimit_rep s' xs \<and>
    nolimit_pushable s' = nolimit_pushable s"
proof -
  obtain L where L: "flow_rep s (x # xs) L" using assms(1) by (auto simp: nolimit_rep_def)
  obtain s' where "flow_nolimit_pop s = Some (x, s')" and s': "flow_rep s' xs L"
    using nolimit_pop [OF L] by blast
  then show ?thesis using nolimit_pushable_eq [OF L s'] by (auto simp: nolimit_rep_def)
qed

interpretation nolimit: idx_fifo flow_queue_activate_nolimit flow_nolimit_pop nolimit_rep nolimit_pushable
proof
  fix s xs y
  assume "nolimit_rep s xs" "nolimit_pushable s y" "y \<notin> set xs"
  then show "\<exists>s'. flow_queue_activate_nolimit s y = Some s' \<and> nolimit_rep s' (xs @ [y]) \<and>
      nolimit_pushable s' = nolimit_pushable s"
    by (rule nolimit_push_rep)
next
  fix s xs y
  assume "nolimit_rep s xs" "y \<in> set xs"
  then show "flow_queue_activate_nolimit s y = None"
    using flow_repD(4,6) by (fastforce simp: nolimit_rep_def flow_queue_activate_nolimit_def)
next
  fix s x xs
  assume "nolimit_rep s (x # xs)"
  then show "\<exists>s'. flow_nolimit_pop s = Some (x, s') \<and> nolimit_rep s' xs \<and> nolimit_pushable s' = nolimit_pushable s"
    by (rule nolimit_pop_rep)
qed

section \<open>The list of VMs\<close>

abbreviation vm_ok :: "u32 \<Rightarrow> bool" where "vm_ok i \<equiv> unat i < FLEXNIC_PL_VMST_NUM"

definition vm_next :: "vm_qman \<Rightarrow> u32 \<Rightarrow> u32" where
  "vm_next vqman = (\<lambda>i. vq_next_idx (vm_queues vqman i))"

definition vm_rep :: "vm_qman \<Rightarrow> u32 list \<Rightarrow> bool" where
  "vm_rep vqman vs \<longleftrightarrow> idx_fifo_rep (vm_next vqman) (vm_head_idx vqman) (vm_tail_idx vqman) vs \<and>
     (\<forall>i \<in> set vs. vm_ok i) \<and>
     (\<forall>i. vm_ok i \<longrightarrow> vq_flags (vm_queues vqman i) = (if i \<in> set vs then FLAG_INNOLIMITL else 0))"

text \<open>What the list operations leave alone of a VM queue.\<close>

definition vm_data :: "vm_qman \<Rightarrow> u32 \<Rightarrow> u32 \<times> flow_qman \<times> u32 \<times> u32 \<times> u32" where
  "vm_data vqman i = (let q = vm_queues vqman i in (vq_id q, vq_fqman q, vq_avail q, vq_ts_real q, vq_ts_virtual q))"

lemma INVAL_not_vm_ok [simp]: "\<not> vm_ok IDXLIST_INVAL"
  by (simp add: IDXLIST_INVAL_def FLEXNIC_PL_VMST_NUM_def unsigned_minus_1_eq_mask mask_eq_exp_minus_1)

lemma vm_get_Some [simp]: "vm_ok i \<Longrightarrow> vm_get vqman i = Some (vm_queues vqman i)"
  by (simp add: vm_get_def)

lemma vm_put_simps [simp]:
  "vm_queues (vm_put vqman i q) = (vm_queues vqman)(i := q)"
  "vm_head_idx (vm_put vqman i q) = vm_head_idx vqman"
  "vm_tail_idx (vm_put vqman i q) = vm_tail_idx vqman"
  by (simp_all add: vm_put_def)

lemma vm_next_simps [simp]:
  "vm_next (vm_put vqman i q) = (vm_next vqman)(i := vq_next_idx q)"
  "vm_next (vqman\<lparr>vm_head_idx := h\<rparr>) = vm_next vqman"
  "vm_next (vqman\<lparr>vm_tail_idx := h\<rparr>) = vm_next vqman"
  "(vm_next vqman)(i := vq_next_idx (vm_queues vqman i)) = vm_next vqman"
  by (auto simp: vm_next_def)

lemma vm_repD:
  assumes "vm_rep vqman vs"
  shows "idx_fifo_rep (vm_next vqman) (vm_head_idx vqman) (vm_tail_idx vqman) vs"
    and "\<And>i. i \<in> set vs \<Longrightarrow> vm_ok i"
    and "\<And>i. vm_ok i \<Longrightarrow> vq_flags (vm_queues vqman i) = (if i \<in> set vs then FLAG_INNOLIMITL else 0)"
  using assms by (auto simp: vm_rep_def)

lemma vm_rep_put:
  assumes "vm_rep vqman vs" and "vq_next_idx q = vq_next_idx (vm_queues vqman i)"
    and "vq_flags q = vq_flags (vm_queues vqman i)"
  shows "vm_rep (vm_put vqman i q) vs"
  using assms by (auto simp: vm_rep_def)

lemma vm_head: "vm_rep vqman vs \<Longrightarrow> vm_head_idx vqman = IDXLIST_INVAL \<longleftrightarrow> vs = []"
  using idx_chain_head [of "vm_next vqman" "vm_head_idx vqman" vs]
    idx_chain_no_inval [of "vm_next vqman" "vm_head_idx vqman" vs]
  by (cases vs) (auto simp: vm_rep_def idx_fifo_rep_def)

lemma vm_push:
  assumes rep: "vm_rep vqman vs" and y: "vm_ok y" "y \<notin> set vs"
  shows "\<exists>vqman'. vm_queue_activate vqman y = Some vqman' \<and> vm_rep vqman' (vs @ [y]) \<and> vm_data vqman' = vm_data vqman"
proof -
  note d = vm_repD [OF rep]
  let ?q = "vm_queues vqman y" and ?t = "vm_tail_idx vqman"
  have yi: "y \<noteq> IDXLIST_INVAL" using y(1) by auto
  have fl: "vq_flags ?q = 0" using d(3) [OF y(1)] y by simp
  note push = idx_fifo_push [OF d(1) y(2) yi] and empty = idx_fifo_tail_inval [OF d(1)]
  let ?f1 = "vm_put vqman y (?q\<lparr>vq_flags := FLAG_INNOLIMITL, vq_next_idx := IDXLIST_INVAL\<rparr>)"
  show ?thesis
  proof (cases "?t = IDXLIST_INVAL")
    case True
    let ?f2 = "?f1\<lparr>vm_head_idx := y, vm_tail_idx := y\<rparr>"
    have "vm_queue_activate vqman y = Some ?f2" using y(1) fl True by (simp add: vm_queue_activate_def)
    moreover have "vm_rep ?f2 (vs @ [y])"
      using push(1) [OF True] d(2,3) y by (auto simp: vm_rep_def)
    moreover have "vm_data ?f2 = vm_data vqman" by (auto simp: vm_data_def Let_def fun_eq_iff)
    ultimately show ?thesis by blast
  next
    case False
    then have "vs \<noteq> []" using empty by simp
    then have t: "?t \<in> set vs" using d(1) by (auto simp: idx_fifo_rep_def)
    then have tok: "vm_ok ?t" "?t \<noteq> y" using d(2) y by auto
    let ?f2 = "(vm_put ?f1 ?t ((vm_queues vqman ?t)\<lparr>vq_next_idx := y\<rparr>))\<lparr>vm_tail_idx := y\<rparr>"
    have "vm_queue_activate vqman y = Some ?f2"
      using y(1) fl False tok by (simp add: vm_queue_activate_def)
    moreover have "vm_rep ?f2 (vs @ [y])"
      using push(2) [OF False] d(2,3) y t tok by (auto simp: vm_rep_def)
    moreover have "vm_data ?f2 = vm_data vqman" by (auto simp: vm_data_def Let_def fun_eq_iff)
    ultimately show ?thesis by blast
  qed
qed

lemma vm_pop:
  assumes rep: "vm_rep vqman (x # vs)"
  shows "\<exists>vqman'. vm_queue_pop vqman = Some (x, vqman') \<and> vm_rep vqman' vs \<and> vm_data vqman' = vm_data vqman"
proof -
  note d = vm_repD [OF rep]
  note pop = idx_fifo_pop [OF d(1)]
  have x: "vm_ok x" using d(2) by simp
  let ?q = "vm_queues vqman x"
  have fl: "vq_flags ?q = FLAG_INNOLIMITL" using d(3) [OF x] by simp
  let ?f1 = "vm_put (vqman\<lparr>vm_head_idx := vq_next_idx ?q\<rparr>) x (?q\<lparr>vq_flags := 0\<rparr>)"
  let ?f2 = "if vq_next_idx ?q = IDXLIST_INVAL then ?f1\<lparr>vm_tail_idx := IDXLIST_INVAL\<rparr> else ?f1"
  have "vm_queue_pop vqman = Some (x, ?f2)"
    using x(1) pop(1) fl by (simp add: vm_queue_pop_def)
  moreover have nx: "vm_next ?f2 = vm_next vqman" and "vm_next vqman x = vq_next_idx ?q" by (auto simp: vm_next_def)
  then have "vm_rep ?f2 vs"
    unfolding vm_rep_def nx using pop(3,4) d(2,3) by (auto split: if_splits)
  moreover have "vm_data ?f2 = vm_data vqman" by (auto simp: vm_data_def Let_def fun_eq_iff)
  ultimately show ?thesis by blast
qed

definition vm_pushable :: "vm_qman \<Rightarrow> u32 \<Rightarrow> bool" where "vm_pushable vqman i \<longleftrightarrow> vm_ok i"

interpretation vmlist: idx_fifo vm_queue_activate vm_queue_pop vm_rep vm_pushable
proof
  fix s xs y
  assume "vm_rep s xs" "vm_pushable s y" "y \<notin> set xs"
  then show "\<exists>s'. vm_queue_activate s y = Some s' \<and> vm_rep s' (xs @ [y]) \<and> vm_pushable s' = vm_pushable s"
    using vm_push [of s xs y] by (auto simp: vm_pushable_def fun_eq_iff)
next
  fix s xs y
  assume "vm_rep s xs" "y \<in> set xs"
  then show "vm_queue_activate s y = None"
    using vm_repD(2,3) [of s xs y] by (simp add: vm_queue_activate_def qman_flags)
next
  fix s x xs
  assume "vm_rep s (x # xs)"
  then show "\<exists>s'. vm_queue_pop s = Some (x, s') \<and> vm_rep s' xs \<and> vm_pushable s' = vm_pushable s"
    using vm_pop [of s x xs] by (auto simp: vm_pushable_def fun_eq_iff)
qed

end
