(* ===== verification/Qman_Skiplist.thy ===== *)
theory Qman_Skiplist
  imports Qman_Lists
begin

text \<open>
  The skip list of the rate-limited flows: the walk of \<open>flow_queue_activate_skiplist\<close> finds, at every
  level, a place after a queue that is due no later than the new one and before one that is due
  later; inserting there keeps every level a subsequence of the level below; and taking the head off
  level 0 takes it off all levels.
\<close>

section \<open>Subsequences\<close>

lemma subseq_avoid:
  "subseq ys (us @ vs) \<Longrightarrow> ys = [] \<or> hd ys \<notin> set us \<Longrightarrow> subseq ys vs"
proof (induction us)
  case (Cons u us)
  then have "subseq ys (us @ vs)" by (cases ys) (auto simp: subseq_Cons2_iff split: if_splits)
  with Cons show ?case by auto
qed simp

lemma subseq_middle:
  assumes "subseq (us @ x # vs) (ps @ x # rs)" and "x \<notin> set ps" and "x \<notin> set rs"
  shows "subseq us ps \<and> subseq vs rs"
  using assms(1,2)
proof (induction ps arbitrary: us)
  case Nil
  have "us = []"
  proof (rule ccontr)
    assume "us \<noteq> []"
    then obtain u us' where "us = u # us'" by (cases us) auto
    with Nil have "x \<in> set rs" using subseq_set by (fastforce simp: subseq_Cons2_iff split: if_splits)
    with assms(3) show False by simp
  qed
  with Nil show ?case by simp
next
  case (Cons p ps)
  show ?case
  proof (cases us)
    case Nil
    with Cons have "subseq ([] @ x # vs) (ps @ x # rs)" by (auto simp: subseq_Cons2_iff)
    with Cons.IH [of "[]"] Cons.prems Nil show ?thesis by auto
  next
    case (Cons u us')
    show ?thesis
    proof (cases "u = p")
      case True
      with Cons Cons.prems Cons.IH [of us'] show ?thesis by auto
    next
      case False
      with Cons Cons.prems have "subseq (us @ x # vs) (ps @ x # rs)" by (auto simp: subseq_Cons2_iff)
      with Cons.IH [of us] Cons.prems show ?thesis by auto
    qed
  qed
qed

section \<open>The walk\<close>

definition due_by :: "flow_qman \<Rightarrow> u32 \<Rightarrow> u32 \<Rightarrow> u32 \<Rightarrow> bool" where
  "due_by fqman ts_virtual ts i \<longleftrightarrow> timestamp_lessthaneq ts_virtual (fq_next_ts (fm_queues fqman i)) ts"

definition skip_split :: "(u32 \<Rightarrow> bool) \<Rightarrow> u32 list \<Rightarrow> u32 \<Rightarrow> u32 list \<Rightarrow> u32 list \<Rightarrow> bool" where
  "skip_split p xs pred A B \<longleftrightarrow> xs = A @ B \<and> pred = (if A = [] then IDXLIST_INVAL else last A) \<and>
     (A = [] \<or> p (last A)) \<and> (B = [] \<or> \<not> p (hd B))"

lemma skip_walk_eq:
  "idx_chain (lvl_next fqman l) idx xs \<Longrightarrow> \<forall>i \<in> set xs. fq_ok i \<Longrightarrow>
     skip_walk ts_virtual fqman l ts pred idx = Some (last (pred # takeWhile (due_by fqman ts_virtual ts) xs))"
proof (induction xs arbitrary: idx pred)
  case Nil
  then show ?case by (simp add: skip_walk.simps [of _ _ _ _ _ IDXLIST_INVAL])
next
  case (Cons x xs)
  then show ?case by (simp add: skip_walk.simps [of _ _ _ _ _ x] due_by_def lvl_next_def)
qed

lemma hd_dropWhile_or: "dropWhile p xs = [] \<or> \<not> p (hd (dropWhile p xs))"
  using hd_dropWhile [of p xs] by blast

lemma last_takeWhile_or: "takeWhile p xs = [] \<or> p (last (takeWhile p xs))"
  using set_takeWhileD [of "last (takeWhile p xs)" p xs] last_in_set [of "takeWhile p xs"] by blast

lemma subseq_dropWhile:
  assumes "subseq ys xs" and "ys = [] \<or> \<not> p (hd ys)"
  shows "subseq ys (dropWhile p xs)"
proof -
  have "hd ys \<notin> set (takeWhile p xs)" if "ys \<noteq> []" using assms(2) that set_takeWhileD [of "hd ys" p xs] by auto
  with assms(1) show ?thesis using subseq_avoid [of ys "takeWhile p xs" "dropWhile p xs"] by auto
qed

lemma skip_level:
  assumes chain: "idx_chain (lvl_next fqman l) h xs" and ok: "\<forall>i \<in> set xs. fq_ok i" "distinct xs"
    and up: "subseq us xs" "skip_split (due_by fqman ts_virtual ts) us pred U V"
  shows "\<exists>pred' A B. skip_walk ts_virtual fqman l ts pred (if pred \<noteq> IDXLIST_INVAL then pred else h) = Some pred' \<and>
    skip_split (due_by fqman ts_virtual ts) xs pred' A B \<and> subseq U A \<and> subseq V B"
proof (cases "U = []")
  case True
  let ?p = "due_by fqman ts_virtual ts"
  have pred: "pred = IDXLIST_INVAL" "us = V" using up(2) True by (auto simp: skip_split_def)
  have "subseq V (dropWhile ?p xs)" using up pred by (intro subseq_dropWhile) (auto simp: skip_split_def)
  moreover have "skip_split ?p xs (last (IDXLIST_INVAL # takeWhile ?p xs)) (takeWhile ?p xs) (dropWhile ?p xs)"
    using hd_dropWhile_or [of ?p xs] last_takeWhile_or [of ?p xs]
    by (auto simp: skip_split_def simp del: dropWhile_eq_Nil_conv)
  moreover have "skip_walk ts_virtual fqman l ts pred h = Some (last (IDXLIST_INVAL # takeWhile ?p xs))"
    using skip_walk_eq [OF chain ok(1), of ts_virtual ts pred] pred by simp
  ultimately show ?thesis using True pred by (simp del: last.simps) blast
next
  case False
  let ?p = "due_by fqman ts_virtual ts"
  have pred: "pred = last U" "?p pred" using up(2) False by (auto simp: skip_split_def)
  have us: "us = butlast U @ pred # V" using up(2) False pred by (simp add: skip_split_def)
  then have "pred \<in> set xs" using up(1) subseq_set by fastforce
  then obtain P R where xs: "xs = P @ pred # R" by (auto simp: in_set_conv_decomp)
  have sub: "subseq (butlast U) P" "subseq V R"
    using subseq_middle [of "butlast U" pred V P R] up(1) us xs ok(2) by auto
  have "idx_chain (lvl_next fqman l) pred (pred # R)" using chain xs by (auto simp: idx_path_append)
  then have "skip_walk ts_virtual fqman l ts pred pred = Some (last (pred # takeWhile ?p R))"
    using skip_walk_eq [of fqman l pred "pred # R"] ok(1) xs pred(2) by simp
  moreover have "pred \<noteq> IDXLIST_INVAL" using \<open>pred \<in> set xs\<close> ok(1) by auto
  moreover have "skip_split ?p xs (last (pred # takeWhile ?p R)) (P @ pred # takeWhile ?p R) (dropWhile ?p R)"
    using xs hd_dropWhile_or [of ?p R] last_takeWhile_or [of ?p R] pred(2)
    by (auto simp: skip_split_def simp del: dropWhile_eq_Nil_conv)
  moreover have "subseq V (dropWhile ?p R)"
    using sub(2) up(2) by (intro subseq_dropWhile) (auto simp: skip_split_def)
  moreover have "subseq U (P @ pred # takeWhile ?p R)"
  proof -
    have "subseq (butlast U @ [pred]) (P @ [pred] @ takeWhile ?p R)"
      using sub(1) list_emb_append_mono [of "(=)" "butlast U" P "[pred]" "[pred] @ takeWhile ?p R"] by simp
    then show ?thesis using False pred(1) by simp
  qed
  ultimately show ?thesis by (simp del: last.simps) blast
qed

lemma skip_preds_keep:
  "skip_preds ts_virtual fqman ts pred n preds = Some preds' \<Longrightarrow> n \<le> l \<Longrightarrow> preds' l = preds l"
  by (induction n arbitrary: pred preds) (auto split: Option.bind_splits)

lemma skip_preds_ok:
  assumes rep: "skip_rep fqman L" and ok: "\<forall>i \<in> set (L 0). fq_ok i"
    and n: "n \<le> QMAN_SKIPLIST_LEVELS"
    and up: "skip_split (due_by fqman ts_virtual ts) us pred U V"
    and sub: "0 < n \<Longrightarrow> subseq us (L (n - 1))"
  shows "\<exists>preds' A B. skip_preds ts_virtual fqman ts pred n preds = Some preds' \<and> A n = U \<and> B n = V \<and>
    (\<forall>l < n. skip_split (due_by fqman ts_virtual ts) (L l) (preds' l) (A l) (B l) \<and>
       subseq (A (Suc l)) (A l) \<and> subseq (B (Suc l)) (B l))"
  using n up sub
proof (induction n arbitrary: us pred U V preds)
  case 0
  show ?case by (auto intro: exI [where x = "\<lambda>_. U"] exI [where x = "\<lambda>_. V"])
next
  case (Suc n)
  let ?p = "due_by fqman ts_virtual ts"
  have l: "n < QMAN_SKIPLIST_LEVELS" using Suc.prems by simp
  have chain: "idx_chain (lvl_next fqman n) (fm_head_idx fqman n) (L n)" using rep l by (simp add: skip_rep_def)
  have "\<forall>i \<in> set (L n). fq_ok i" using ok level_subset [OF rep l] by auto
  then obtain pred' A0 B0
    where walk: "skip_walk ts_virtual fqman n ts pred (if pred \<noteq> IDXLIST_INVAL then pred else fm_head_idx fqman n) = Some pred'"
      and s: "skip_split ?p (L n) pred' A0 B0" "subseq U A0" "subseq V B0"
    using skip_level [OF chain _ level_distinct [OF rep l] _ Suc.prems(2)] Suc.prems(3) by auto
  have "subseq (L n) (L (n - 1))" if "0 < n"
    using rep l that by (cases n) (auto simp: skip_rep_def)
  then obtain preds' A B
    where IH: "skip_preds ts_virtual fqman ts pred' n (preds(n := pred')) = Some preds'" "A n = A0" "B n = B0"
      "\<forall>l < n. skip_split ?p (L l) (preds' l) (A l) (B l) \<and> subseq (A (Suc l)) (A l) \<and> subseq (B (Suc l)) (B l)"
    using Suc.IH [OF _ s(1), of "preds(n := pred')"] l by (meson less_imp_le)
  have pn: "preds' n = pred'" using skip_preds_keep [OF IH(1)] by simp
  have "\<forall>l < Suc n. skip_split ?p (L l) (preds' l) ((A(Suc n := U)) l) ((B(Suc n := V)) l) \<and>
      subseq ((A(Suc n := U)) (Suc l)) ((A(Suc n := U)) l) \<and> subseq ((B(Suc n := V)) (Suc l)) ((B(Suc n := V)) l)"
    using IH(2-4) s pn by (auto simp: less_Suc_eq)
  then show ?case using IH(1) walk
    by (intro exI [where x = preds'] exI [where x = "A(Suc n := U)"] exI [where x = "B(Suc n := V)"]) simp
qed

section \<open>Insertion\<close>

text \<open>Two states that differ in the links of the skip list only.\<close>

definition links_only :: "flow_qman \<Rightarrow> flow_qman \<Rightarrow> bool" where
  "links_only f g \<longleftrightarrow> fm_nolimit_head_idx g = fm_nolimit_head_idx f \<and>
     fm_nolimit_tail_idx g = fm_nolimit_tail_idx f \<and> fm_nolimit_first g = fm_nolimit_first f \<and>
     (\<forall>i. fm_queues g i = (fm_queues f i)\<lparr>fq_next_idxs := fq_next_idxs (fm_queues g i)\<rparr>)"

lemma links_only_trans: "links_only f g \<Longrightarrow> links_only g h \<Longrightarrow> links_only f h"
  unfolding links_only_def by (metis flow_queue.surjective flow_queue.update_convs(1))

lemma links_onlyD:
  assumes "links_only f g"
  shows "fq_next_ts (fm_queues g i) = fq_next_ts (fm_queues f i)" "fq_rate (fm_queues g i) = fq_rate (fm_queues f i)"
    "fq_avail (fm_queues g i) = fq_avail (fm_queues f i)" "fq_max_chunk (fm_queues g i) = fq_max_chunk (fm_queues f i)"
    "fq_flags (fm_queues g i) = fq_flags (fm_queues f i)"
  using assms unfolding links_only_def by (metis flow_queue.select_convs(2-6) flow_queue.surjective flow_queue.update_convs(1))+

lemma links_only_put [intro]: "links_only f (fq_put f i (fq_set_next l v (fm_queues f i)))"
  by (simp add: links_only_def fq_set_next_def)

lemma links_only_refl [intro, simp]: "links_only f f" by (simp add: links_only_def)

lemma links_only_head [simp]: "links_only f (g\<lparr>fm_head_idx := h\<rparr>) = links_only f g"
  by (simp add: links_only_def)

lemma lvl_next_same [simp]: "(lvl_next f k)(i := fq_next_idxs (fm_queues f i) k) = lvl_next f k"
  by (auto simp: lvl_next_def)

text \<open>One level of the insertion loop.\<close>

lemma skip_insert_level:
  assumes chain: "idx_chain (lvl_next f l) (fm_head_idx f l) (A @ B)" and d: "distinct (A @ B)"
    and y: "y \<notin> set (A @ B)" "fq_ok y" and ok: "\<forall>i \<in> set A. fq_ok i"
    and pred: "preds l = (if A = [] then IDXLIST_INVAL else last A)"
  shows "\<exists>g. skip_insert f y level preds (Suc l) = skip_insert g y level preds l \<and> links_only f g \<and>
    idx_chain (lvl_next g l) (fm_head_idx g l) (if l \<le> level then A @ y # B else A @ B) \<and>
    (\<forall>k. k \<noteq> l \<longrightarrow> fm_head_idx g k = fm_head_idx f k \<and> lvl_next g k = lvl_next f k) \<and>
    (\<forall>i. i \<notin> insert y (set A) \<longrightarrow> lvl_next g l i = lvl_next f l i)"
proof -
  have yi: "y \<noteq> IDXLIST_INVAL" using y(2) by auto
  note ins = idx_chain_insert [OF chain d y(1) yi]
  consider "l > level" | "l \<le> level" "A = []" | "l \<le> level" "A \<noteq> []" by linarith
  then show ?thesis
  proof cases
    case 1
    let ?g = "fq_put f y (fq_set_next l IDXLIST_INVAL (fm_queues f y))"
    have "idx_chain (lvl_next ?g l) (fm_head_idx ?g l) (A @ B)" using chain y by simp
    then show ?thesis using 1 y by (intro exI [where x = ?g]) auto
  next
    case 2
    let ?g = "(fq_put f y (fq_set_next l (fm_head_idx f l) (fm_queues f y)))\<lparr>fm_head_idx := (fm_head_idx f)(l := y)\<rparr>"
    have "idx_chain (lvl_next ?g l) (fm_head_idx ?g l) (y # B)" using ins(1) [OF 2(2)] by simp
    then show ?thesis using 2 y pred by (intro exI [where x = ?g]) auto
  next
    case 3
    have a: "last A \<in> set A" "last A \<noteq> y" "fq_ok (last A)" using 3 y ok by auto
    then have ai: "last A \<noteq> IDXLIST_INVAL" by auto
    let ?g1 = "fq_put f y (fq_set_next l (fq_next_idxs (fm_queues f (last A)) l) (fm_queues f y))"
    let ?g = "fq_put ?g1 (last A) (fq_set_next l y (fm_queues ?g1 (last A)))"
    have "lvl_next ?g l = (lvl_next f l)(y := lvl_next f l (last A), last A := y)"
      by (auto simp: lvl_next_def)
    then have "idx_chain (lvl_next ?g l) (fm_head_idx ?g l) (A @ y # B)" using ins(2) [OF 3(2)] by simp
    moreover have "links_only f ?g" by (blast intro: links_only_trans)
    moreover have "skip_insert f y level preds (Suc l) = skip_insert ?g y level preds l"
      using 3 y a ai pred by simp
    moreover have "\<forall>k. k \<noteq> l \<longrightarrow> lvl_next ?g k = lvl_next f k" by (auto simp: fun_eq_iff lvl_next_def)
    ultimately show ?thesis using 3 y a by (intro exI [where x = ?g]) auto
  qed
qed

lemma skip_insert_ok:
  assumes "\<And>l. l < n \<Longrightarrow> idx_chain (lvl_next f l) (fm_head_idx f l) (A l @ B l) \<and> distinct (A l @ B l) \<and>
      y \<notin> set (A l @ B l) \<and> (\<forall>i \<in> set (A l). fq_ok i) \<and> preds l = (if A l = [] then IDXLIST_INVAL else last (A l))"
    and "fq_ok y"
  shows "\<exists>g. skip_insert f y level preds n = Some g \<and> links_only f g \<and>
    (\<forall>l < n. idx_chain (lvl_next g l) (fm_head_idx g l) (if l \<le> level then A l @ y # B l else A l @ B l)) \<and>
    (\<forall>k \<ge> n. fm_head_idx g k = fm_head_idx f k \<and> lvl_next g k = lvl_next f k) \<and>
    (\<forall>l i. i \<notin> insert y (set (A l)) \<longrightarrow> lvl_next g l i = lvl_next f l i)"
  using assms
proof (induction n arbitrary: f)
  case 0
  then show ?case by auto
next
  case (Suc n)
  from Suc.prems(1) [of n] obtain g
    where g: "skip_insert f y level preds (Suc n) = skip_insert g y level preds n" "links_only f g"
      "idx_chain (lvl_next g n) (fm_head_idx g n) (if n \<le> level then A n @ y # B n else A n @ B n)"
      "\<And>k. k \<noteq> n \<Longrightarrow> fm_head_idx g k = fm_head_idx f k \<and> lvl_next g k = lvl_next f k"
      "\<And>i. i \<notin> insert y (set (A n)) \<Longrightarrow> lvl_next g n i = lvl_next f n i"
    using skip_insert_level [of f n "A n" "B n" y preds level] Suc.prems(2) by auto
  have "\<And>l. l < n \<Longrightarrow> idx_chain (lvl_next g l) (fm_head_idx g l) (A l @ B l) \<and> distinct (A l @ B l) \<and>
      y \<notin> set (A l @ B l) \<and> (\<forall>i \<in> set (A l). fq_ok i) \<and> preds l = (if A l = [] then IDXLIST_INVAL else last (A l))"
    using Suc.prems(1) g(4) by (metis less_SucI less_irrefl)
  from Suc.IH [OF this Suc.prems(2)] obtain h
    where h: "skip_insert g y level preds n = Some h" "links_only g h"
      "\<forall>l < n. idx_chain (lvl_next h l) (fm_head_idx h l) (if l \<le> level then A l @ y # B l else A l @ B l)"
      "\<forall>k \<ge> n. fm_head_idx h k = fm_head_idx g k \<and> lvl_next h k = lvl_next g k"
      "\<forall>l i. i \<notin> insert y (set (A l)) \<longrightarrow> lvl_next h l i = lvl_next g l i"
    by blast
  have "links_only f h" using g(2) h(2) by (rule links_only_trans)
  moreover have "\<forall>l < Suc n. idx_chain (lvl_next h l) (fm_head_idx h l) (if l \<le> level then A l @ y # B l else A l @ B l)"
    using h(3,4) g(3) by (auto simp: less_Suc_eq)
  moreover have "\<forall>k \<ge> Suc n. fm_head_idx h k = fm_head_idx f k \<and> lvl_next h k = lvl_next f k"
    using h(4) g(4) by auto
  moreover have "\<forall>l i. i \<notin> insert y (set (A l)) \<longrightarrow> lvl_next h l i = lvl_next f l i"
    using h(5) g(4,5) by metis
  ultimately show ?case using g(1) h(1) by (simp del: skip_insert.simps)
qed

lemma flow_rep_links:
  assumes rep: "flow_rep f ns L" and links: "links_only f g" and skip: "skip_rep g L'"
    and L': "set (L' 0) = insert y (set (L 0))" and y: "fq_ok y" "y \<notin> set ns"
    and nx: "\<And>i. i \<notin> insert y (set (L 0)) \<Longrightarrow> lvl_next g 0 i = lvl_next f 0 i"
    and h: "h = fq_put g y ((fm_queues g y)\<lparr>fq_flags := FLAG_INSKIPLIST\<rparr>)"
  shows "flow_rep h ns L'"
  unfolding flow_rep_def
proof (intro conjI allI impI ballI)
  note d = flow_repD [OF rep]
  have lv: "lvl_next h l = lvl_next g l" for l by (simp add: h)
  show "idx_fifo_rep (lvl_next h 0) (fm_nolimit_head_idx h) (fm_nolimit_tail_idx h) ns"
  proof -
    have "idx_fifo_rep (lvl_next g 0) (fm_nolimit_head_idx f) (fm_nolimit_tail_idx f) ns"
      using d(1) by (rule idx_fifo_cong) (use nx y(2) d(3) in \<open>metis IntI empty_iff insertE\<close>)
    then show ?thesis using links by (simp add: lv) (simp add: h links_only_def)
  qed
  show "skip_rep h L'" using skip by (rule skip_rep_cong) (simp_all add: lv, simp add: h)
  show "set ns \<inter> set (L' 0) = {}" using d(3) y L' by auto
  show "fq_ok i" if "i \<in> set ns \<union> set (L' 0)" for i using that d(4,5) y L' by auto
  show "fq_flags (fm_queues h i) = list_flags ns L' i" if "fq_ok i" for i
    using d(6) [OF that] links_onlyD(5) [OF links] L' y by (auto simp: h list_flags_def)
qed

lemma skip_insert_subseq:
  assumes "skip_rep f L" and "Suc l < QMAN_SKIPLIST_LEVELS"
    and "L l = A l @ B l" "L (Suc l) = A (Suc l) @ B (Suc l)"
    and "subseq (A (Suc l)) (A l)" "subseq (B (Suc l)) (B l)"
  shows "subseq (if Suc l \<le> level then A (Suc l) @ y # B (Suc l) else L (Suc l))
    (if l \<le> level then A l @ y # B l else L l)"
proof (cases "Suc l \<le> level")
  case True
  then show ?thesis using assms(5,6) by (simp add: list_emb_append_mono)
next
  case False
  have "subseq (A (Suc l) @ B (Suc l)) (A l @ y # B l)"
    using assms(5,6) by (intro list_emb_append_mono) auto
  then show ?thesis using False assms by (auto simp: skip_rep_def)
qed

lemma flow_rep_set_ts:
  assumes "flow_rep fqman ns L"
  shows "flow_rep (fq_put fqman y ((fm_queues fqman y)\<lparr>fq_next_ts := ts\<rparr>)) ns L"
proof -
  note d = flow_repD [OF assms]
  let ?f = "fq_put fqman y ((fm_queues fqman y)\<lparr>fq_next_ts := ts\<rparr>)"
  have "skip_rep ?f L" by (rule skip_rep_cong [OF d(2)]) simp_all
  then show ?thesis using d unfolding flow_rep_def by auto
qed

text \<open>The walk and the insertion together: the new queue is put between \<open>A\<close> and \<open>B\<close> at level 0.\<close>

lemma skip_link:
  assumes rep: "flow_rep f ns L" and y: "fq_ok y" "y \<notin> set ns" "y \<notin> set (L 0)"
  shows "\<exists>preds g L' A B. skip_preds ts_virtual f ts IDXLIST_INVAL QMAN_SKIPLIST_LEVELS (\<lambda>l. IDXLIST_INVAL) = Some preds \<and>
    skip_insert f y level preds QMAN_SKIPLIST_LEVELS = Some g \<and> links_only f g \<and>
    flow_rep (fq_put g y ((fm_queues g y)\<lparr>fq_flags := FLAG_INSKIPLIST\<rparr>)) ns L' \<and>
    skip_split (due_by f ts_virtual ts) (L 0) (if A = [] then IDXLIST_INVAL else last A) A B \<and> L' 0 = A @ y # B"
proof -
  note d = flow_repD [OF rep]
  let ?p = "due_by f ts_virtual ts"
  have "skip_split ?p [] IDXLIST_INVAL [] []" by (simp add: skip_split_def)
  moreover have "\<forall>i \<in> set (L 0). fq_ok i" using d(5) by simp
  ultimately obtain preds A B
    where preds: "skip_preds ts_virtual f ts IDXLIST_INVAL QMAN_SKIPLIST_LEVELS (\<lambda>l. IDXLIST_INVAL) = Some preds"
      and AB: "\<And>l. l < QMAN_SKIPLIST_LEVELS \<Longrightarrow> skip_split ?p (L l) (preds l) (A l) (B l) \<and>
        subseq (A (Suc l)) (A l) \<and> subseq (B (Suc l)) (B l)"
    using skip_preds_ok [OF d(2) _ order_refl, of ts_virtual ts "[]" IDXLIST_INVAL "[]" "[]" "\<lambda>l. IDXLIST_INVAL"]
    by auto
  have L: "L l = A l @ B l" if "l < QMAN_SKIPLIST_LEVELS" for l using AB [OF that] by (simp add: skip_split_def)
  have pre: "idx_chain (lvl_next f l) (fm_head_idx f l) (A l @ B l) \<and> distinct (A l @ B l) \<and>
      y \<notin> set (A l @ B l) \<and> (\<forall>i \<in> set (A l). fq_ok i) \<and> preds l = (if A l = [] then IDXLIST_INVAL else last (A l))"
    if l: "l < QMAN_SKIPLIST_LEVELS" for l
  proof -
    have "idx_chain (lvl_next f l) (fm_head_idx f l) (L l)" using d(2) l by (simp add: skip_rep_def)
    moreover have "set (A l) \<subseteq> set (L 0)" "y \<notin> set (L l)" using level_subset [OF d(2) l] L [OF l] y by auto
    ultimately show ?thesis using AB [OF l] level_distinct [OF d(2) l] d(5) L [OF l]
      by (auto simp: skip_split_def)
  qed
  obtain g where g: "skip_insert f y level preds QMAN_SKIPLIST_LEVELS = Some g" "links_only f g"
      "\<forall>l < QMAN_SKIPLIST_LEVELS. idx_chain (lvl_next g l) (fm_head_idx g l) (if l \<le> level then A l @ y # B l else A l @ B l)"
      "\<forall>l i. i \<notin> insert y (set (A l)) \<longrightarrow> lvl_next g l i = lvl_next f l i"
    using skip_insert_ok [OF pre y(1), of QMAN_SKIPLIST_LEVELS level] by blast
  let ?L' = "\<lambda>l. if l \<le> level then A l @ y # B l else L l"
  have zero: "0 < QMAN_SKIPLIST_LEVELS" by (simp add: QMAN_SKIPLIST_LEVELS_def)
  have "skip_rep g ?L'"
    unfolding skip_rep_def
  proof (intro conjI allI impI)
    show "idx_chain (lvl_next g l) (fm_head_idx g l) (?L' l)" if "l < QMAN_SKIPLIST_LEVELS" for l
      using g(3) that L [OF that] by auto
    show "subseq (?L' (Suc l)) (?L' l)" if "Suc l < QMAN_SKIPLIST_LEVELS" for l
      using that L [of l] L [of "Suc l"] AB [of l] by (intro skip_insert_subseq [OF d(2)]) auto
    show "distinct (?L' 0)" using pre [OF zero] by auto
  qed
  then have "flow_rep (fq_put g y ((fm_queues g y)\<lparr>fq_flags := FLAG_INSKIPLIST\<rparr>)) ns ?L'"
    by (rule flow_rep_links [OF rep g(2)]) (use g(4) L [OF zero] y in auto)
  moreover have "skip_split ?p (L 0) (if A 0 = [] then IDXLIST_INVAL else last (A 0)) (A 0) (B 0)"
    using AB [OF zero] by (auto simp: skip_split_def)
  ultimately show ?thesis using preds g(1,2)
    by (intro exI [where x = preds] exI [where x = g] exI [where x = ?L'] exI [where x = "A 0"] exI [where x = "B 0"]) simp
qed

lemma skip_split_cong:
  "(\<And>i. i \<in> set xs \<Longrightarrow> p i = q i) \<Longrightarrow> skip_split p xs pred A B = skip_split q xs pred A B"
  by (cases B) (auto simp: skip_split_def)

lemma skiplist_push:
  assumes rep: "flow_rep fqman ns L" and y: "fq_ok y" "y \<notin> set ns" "y \<notin> set (L 0)"
    and ts: "clamp_next_ts ts_virtual (fm_queues fqman y) = Some ts"
  shows "\<exists>fqman' L' A B. flow_queue_activate_skiplist rng ts_virtual fqman y =
      Some (snd (flow_queue_level rng), fqman') \<and> flow_rep fqman' ns L' \<and>
    skip_split (due_by fqman ts_virtual ts) (L 0) (if A = [] then IDXLIST_INVAL else last A) A B \<and>
    L' 0 = A @ y # B \<and> fq_data fqman' = fq_data fqman \<and> fm_nolimit_first fqman' = fm_nolimit_first fqman \<and>
    (\<forall>i. fq_next_ts (fm_queues fqman' i) = (if i = y then ts else fq_next_ts (fm_queues fqman i)))"
proof -
  have flags: "fq_flags (fm_queues fqman y) = 0" using flow_repD(6) [OF rep y(1)] y by simp
  let ?f = "fq_put fqman y ((fm_queues fqman y)\<lparr>fq_next_ts := ts\<rparr>)"
  obtain level rng' where lev: "flow_queue_level rng = (level, rng')" by (cases "flow_queue_level rng")
  obtain preds g L' A B
    where g: "skip_preds ts_virtual ?f ts IDXLIST_INVAL QMAN_SKIPLIST_LEVELS (\<lambda>l. IDXLIST_INVAL) = Some preds"
      "skip_insert ?f y level preds QMAN_SKIPLIST_LEVELS = Some g" "links_only ?f g"
      "flow_rep (fq_put g y ((fm_queues g y)\<lparr>fq_flags := FLAG_INSKIPLIST\<rparr>)) ns L'"
      "skip_split (due_by ?f ts_virtual ts) (L 0) (if A = [] then IDXLIST_INVAL else last A) A B" "L' 0 = A @ y # B"
    using skip_link [OF flow_rep_set_ts [OF rep, of y ts] y, where level = level and ts_virtual = ts_virtual and ts = ts]
    by blast
  let ?g = "fq_put g y ((fm_queues g y)\<lparr>fq_flags := FLAG_INSKIPLIST\<rparr>)"
  have "fq_flags (fm_queues g y) = 0" using links_onlyD(5) [OF g(3)] flags by simp
  then have "flow_queue_activate_skiplist rng ts_virtual fqman y = Some (rng', ?g)"
    using y(1) ts g(1,2) flags by (simp add: flow_queue_activate_skiplist_def lev)
  moreover have "skip_split (due_by fqman ts_virtual ts) (L 0) (if A = [] then IDXLIST_INVAL else last A) A B"
    using g(5) y(3) by (subst skip_split_cong [where q = "due_by ?f ts_virtual ts"]) (auto simp: due_by_def)
  moreover have "fq_data ?g = fq_data fqman" "fm_nolimit_first ?g = fm_nolimit_first fqman"
    "\<forall>i. fq_next_ts (fm_queues ?g i) = (if i = y then ts else fq_next_ts (fm_queues fqman i))"
    using links_onlyD [OF g(3)] g(3) by (auto simp: fq_data_def fun_eq_iff links_only_def)
  ultimately show ?thesis using g(4,6) lev by (metis snd_conv)
qed

section \<open>Removal of the head\<close>

lemma skip_unlink_heads:
  "(\<And>k. l \<le> k \<Longrightarrow> Suc k < l + n \<Longrightarrow> fm_head_idx f (Suc k) = idx \<Longrightarrow> fm_head_idx f k = idx) \<Longrightarrow>
   skip_unlink f q idx l n = f\<lparr>fm_head_idx := \<lambda>k.
     if l \<le> k \<and> k < l + n \<and> fm_head_idx f k = idx then fq_next_idxs q k else fm_head_idx f k\<rparr>"
proof (induction n arbitrary: f l)
  case 0
  have "(\<lambda>k. if l \<le> k \<and> k < l + 0 \<and> fm_head_idx f k = idx then fq_next_idxs q k else fm_head_idx f k) = fm_head_idx f"
    by (auto simp: fun_eq_iff)
  then show ?case by simp
next
  case (Suc n)
  note mono = Suc.prems
  show ?case
  proof (cases "fm_head_idx f l = idx")
    case True
    let ?f = "f\<lparr>fm_head_idx := (fm_head_idx f)(l := fq_next_idxs q l)\<rparr>"
    have "skip_unlink ?f q idx (Suc l) n = ?f\<lparr>fm_head_idx := \<lambda>k.
       if Suc l \<le> k \<and> k < Suc l + n \<and> fm_head_idx ?f k = idx then fq_next_idxs q k else fm_head_idx ?f k\<rparr>"
      using Suc.prems by (intro Suc.IH) (auto split: if_splits)
    moreover have "(\<lambda>k. if Suc l \<le> k \<and> k < Suc l + n \<and> fm_head_idx ?f k = idx then fq_next_idxs q k else fm_head_idx ?f k)
      = (\<lambda>k. if l \<le> k \<and> k < l + Suc n \<and> fm_head_idx f k = idx then fq_next_idxs q k else fm_head_idx f k)"
      using True by (auto simp: fun_eq_iff)
    ultimately show ?thesis using True by simp
  next
    case False
    have *: "k < Suc n \<longrightarrow> fm_head_idx f (l + k) \<noteq> idx" for k
    proof (induction k)
      case (Suc k)
      then show ?case using mono [of "l + k"] by auto
    qed (simp add: False)
    have eq: "(\<lambda>k. if l \<le> k \<and> k < l + Suc n \<and> fm_head_idx f k = idx then fq_next_idxs q k else fm_head_idx f k)
        = fm_head_idx f"
    proof
      fix k
      show "(if l \<le> k \<and> k < l + Suc n \<and> fm_head_idx f k = idx then fq_next_idxs q k else fm_head_idx f k)
          = fm_head_idx f k" using * [of "k - l"] by auto
    qed
    show ?thesis unfolding eq using False by simp
  qed
qed

lemma skip_head_level:
  assumes rep: "skip_rep f L" and L0: "L 0 = x # xs" and l: "l < QMAN_SKIPLIST_LEVELS"
  shows "L l = x # filter (\<lambda>i. i \<noteq> x) (L l) \<or> x \<notin> set (L l)"
proof (cases "x \<in> set (L l)")
  case True
  then obtain us vs where L: "L l = us @ x # vs" by (auto simp: in_set_conv_decomp)
  have "subseq (us @ x # vs) ([] @ x # xs)" "x \<notin> set xs"
    using level_subset [OF rep l] L L0 rep by (auto simp: skip_rep_def)
  then have "us = []" using subseq_middle [of us x vs "[]" xs] by (auto dest: list_emb_Nil2)
  moreover have "filter (\<lambda>i. i \<noteq> x) vs = vs" using level_distinct [OF rep l] L by (intro filter_True) auto
  ultimately show ?thesis using L by simp
qed simp

lemma skip_head_iff:
  assumes "skip_rep f L" and "L 0 = x # xs" and "l < QMAN_SKIPLIST_LEVELS"
  shows "fm_head_idx f l = x \<longleftrightarrow> x \<in> set (L l)"
proof -
  have "idx_chain (lvl_next f l) (fm_head_idx f l) (L l)" "x \<noteq> IDXLIST_INVAL"
    using assms by (auto simp: skip_rep_def QMAN_SKIPLIST_LEVELS_def dest: spec [of _ 0])
  then show ?thesis using skip_head_level [OF assms] by (cases "L l") auto
qed

lemma skip_pop_ok:
  assumes rep: "flow_rep f ns L" and L0: "L 0 = x # xs"
  shows "\<exists>g L'. fm_head_idx f 0 = x \<and> skip_pop f x = Some g \<and> flow_rep g ns L' \<and> L' 0 = xs \<and>
    fq_data g = fq_data f \<and> fm_nolimit_first g = fm_nolimit_first f \<and>
    (\<forall>i. fq_next_ts (fm_queues g i) = fq_next_ts (fm_queues f i))"
proof -
  note d = flow_repD [OF rep]
  have x: "fq_ok x" "x \<notin> set ns" "x \<notin> set xs" using d L0 by (auto simp: skip_rep_def)
  let ?q = "fm_queues f x" and ?L = "\<lambda>l. filter (\<lambda>i. i \<noteq> x) (L l)"
  have fl: "fq_flags ?q = FLAG_INSKIPLIST" using d(6) [OF x(1)] x(2) L0 by simp
  have hd: "fm_head_idx f l = x \<longleftrightarrow> x \<in> set (L l)" if "l < QMAN_SKIPLIST_LEVELS" for l
    using skip_head_iff [OF d(2) L0 that] .
  have down: "fm_head_idx f k = x" if "Suc k < QMAN_SKIPLIST_LEVELS" "fm_head_idx f (Suc k) = x" for k
    using that hd [of k] hd [of "Suc k"] d(2) subseq_set [of "L (Suc k)" "L k"] by (auto simp: skip_rep_def)
  let ?h = "\<lambda>k. if k < QMAN_SKIPLIST_LEVELS \<and> fm_head_idx f k = x then fq_next_idxs ?q k else fm_head_idx f k"
  let ?g = "fq_put (f\<lparr>fm_head_idx := ?h\<rparr>) x (?q\<lparr>fq_flags := 0\<rparr>)"
  have "skip_unlink f ?q x 0 QMAN_SKIPLIST_LEVELS = f\<lparr>fm_head_idx := ?h\<rparr>"
    by (rule skip_unlink_heads [of 0 QMAN_SKIPLIST_LEVELS f x ?q, simplified]) (rule down)
  then have "skip_pop f x = Some ?g" using x(1) fl by (simp add: skip_pop_def)
  moreover have lv: "lvl_next ?g l = lvl_next f l" for l by simp
  have skip: "skip_rep ?g ?L"
    unfolding skip_rep_def
  proof (intro conjI allI impI)
    show "idx_chain (lvl_next ?g l) (fm_head_idx ?g l) (?L l)" if l: "l < QMAN_SKIPLIST_LEVELS" for l
    proof -
      have c: "idx_chain (lvl_next f l) (fm_head_idx f l) (L l)" using d(2) l by (simp add: skip_rep_def)
      show ?thesis
      proof (cases "x \<in> set (L l)")
        case True
        then have "L l = x # ?L l" using skip_head_level [OF d(2) L0 l] by simp
        then have "idx_chain (lvl_next f l) (lvl_next f l x) (?L l)" using c by (metis idx_path.simps(2))
        then show ?thesis unfolding lv using hd [OF l] True l by (simp add: lvl_next_def)
      next
        case False
        then have "?L l = L l" by (intro filter_True) auto
        then show ?thesis unfolding lv using c hd [OF l] False by simp
      qed
    qed
    show "subseq (?L (Suc l)) (?L l)" if "Suc l < QMAN_SKIPLIST_LEVELS" for l
      using d(2) that by (auto simp: skip_rep_def intro: subseq_filter)
    show "distinct (?L 0)" using d(2) by (simp add: skip_rep_def)
  qed
  have "filter (\<lambda>i. i \<noteq> x) xs = xs" using x(3) by (intro filter_True) auto
  then have L0': "?L 0 = xs" using L0 by simp
  have "flow_rep ?g ns ?L"
    unfolding flow_rep_def
  proof (intro conjI allI impI ballI)
    show "idx_fifo_rep (lvl_next ?g 0) (fm_nolimit_head_idx ?g) (fm_nolimit_tail_idx ?g) ns"
      unfolding lv using d(1) by simp
    show "skip_rep ?g ?L" by (rule skip)
    show "set ns \<inter> set (?L 0) = {}" using d(3) by auto
    show "fq_ok i" if "i \<in> set ns \<union> set (?L 0)" for i using that d(4,5) by auto
    show "fq_flags (fm_queues ?g i) = list_flags ns ?L i" if "fq_ok i" for i
      using d(6) [OF that] x L0 by (auto simp: list_flags_def)
  qed
  moreover have "fq_data ?g = fq_data f" by (auto simp: fq_data_def)
  moreover have "fm_head_idx f 0 = x" using hd [of 0] L0 by (simp add: QMAN_SKIPLIST_LEVELS_def)
  ultimately show ?thesis using L0' by (intro exI [where x = ?g] exI [where x = ?L]) auto
qed

end
