(* ===== verification/Qman_Inv.thy ===== *)
theory Qman_Inv
  imports Qman_Skiplist
begin

text \<open>
  The invariant of the queue manager and its conservation of bytes. Every flow that has bytes to send
  is in one of the lists of its VM, a VM's \<open>avail\<close> is the sum over its flows, and a VM that has bytes
  to send is in the list of VMs. Setting and polling keep the invariant, and a poll hands out exactly
  the bytes by which the flows' counters decrease.
\<close>

section \<open>Flows\<close>

definition flow_avail :: "flow_qman \<Rightarrow> u32 \<Rightarrow> nat" where
  "flow_avail fqman i = unat (fq_avail (fm_queues fqman i))"

definition flow_total :: "flow_qman \<Rightarrow> nat" where
  "flow_total fqman = (\<Sum>i | fq_ok i. flow_avail fqman i)"

definition flow_inv :: "flow_qman \<Rightarrow> u32 list \<Rightarrow> (nat \<Rightarrow> u32 list) \<Rightarrow> bool" where
  "flow_inv fqman ns L \<longleftrightarrow>
     flow_rep fqman ns L \<and> (\<forall>i. fq_ok i \<and> flow_avail fqman i > 0 \<longrightarrow> i \<in> set ns \<union> set (L 0))"

lemma flow_avail_data: "fq_data g = fq_data f \<Longrightarrow> flow_avail g = flow_avail f"
  by (simp add: fq_data_def flow_avail_def fun_eq_iff)

lemma flow_avail_put [simp]: "flow_avail (fq_put f i q) = (flow_avail f)(i := unat (fq_avail q))"
  by (auto simp: flow_avail_def)

lemma flow_total_upd:
  assumes "fq_ok i" and "flow_avail g = (flow_avail f)(i := n)"
  shows "flow_total g + flow_avail f i = flow_total f + n"
proof -
  have "(\<Sum>j \<in> {j. fq_ok j} - {i}. flow_avail g j) = (\<Sum>j \<in> {j. fq_ok j} - {i}. flow_avail f j)"
    using assms(2) by (intro sum.cong) auto
  then show ?thesis
    using assms sum.remove [of "{j. fq_ok j}" i "flow_avail g"] sum.remove [of "{j. fq_ok j}" i "flow_avail f"]
    by (simp add: flow_total_def)
qed

lemma flow_avail_le_total: "fq_ok i \<Longrightarrow> flow_avail f i \<le> flow_total f"
  by (simp add: flow_total_def member_le_sum)

lemma flow_total_zero: "flow_total f = 0 \<longleftrightarrow> (\<forall>i. fq_ok i \<longrightarrow> flow_avail f i = 0)"
  by (simp add: flow_total_def)

lemma flow_queue_new_ts_Some:
  "fq_rate q \<noteq> 0 \<Longrightarrow> \<exists>ts. flow_queue_new_ts ts_virtual q n = Some ts"
  by (simp add: flow_queue_new_ts_def)

lemma clamp_next_ts_Some: "fq_rate q \<noteq> 0 \<Longrightarrow> \<exists>ts. clamp_next_ts ts_virtual q = Some ts"
  using flow_queue_new_ts_Some [of q ts_virtual "ucast (fq_max_chunk q)"] by (auto simp: clamp_next_ts_def)

text \<open>No flow is rate limited.\<close>

definition norate :: "flow_qman \<Rightarrow> (nat \<Rightarrow> u32 list) \<Rightarrow> bool" where
  "norate f L \<longleftrightarrow> (\<forall>i. fq_rate (fm_queues f i) = 0) \<and> L 0 = []"

lemma norate_data: "norate f L \<Longrightarrow> fq_data g = fq_data f \<Longrightarrow> norate g L"
  by (simp add: norate_def fq_data_def fun_eq_iff)

lemma activate_ok:
  assumes rep: "flow_rep f ns L" and y: "fq_ok y" "y \<notin> set ns" "y \<notin> set (L 0)"
  shows "\<exists>rng' g ns' L'. flow_queue_activate rng ts_virtual f y = Some (rng', g) \<and> flow_rep g ns' L' \<and>
    set ns' \<union> set (L' 0) = insert y (set ns \<union> set (L 0)) \<and> fq_data g = fq_data f \<and>
    fm_nolimit_first g = fm_nolimit_first f \<and> (norate f L \<longrightarrow> norate g L')"
proof (cases "fq_rate (fm_queues f y) = 0")
  case True
  obtain g where "flow_queue_activate_nolimit f y = Some g" "flow_rep g (ns @ [y]) L" "fq_data g = fq_data f"
      "fm_nolimit_first g = fm_nolimit_first f"
    using nolimit_push [OF rep y] by blast
  then show ?thesis using True y(1)
    by (intro exI [where x = rng] exI [where x = g] exI [where x = "ns @ [y]"] exI [where x = L])
      (auto simp: flow_queue_activate_def intro: norate_data)
next
  case False
  obtain ts where ts: "clamp_next_ts ts_virtual (fm_queues f y) = Some ts" using clamp_next_ts_Some [OF False] by blast
  obtain g L' A B where g: "flow_queue_activate_skiplist rng ts_virtual f y = Some (snd (flow_queue_level rng), g)"
      "flow_rep g ns L'" "L 0 = A @ B" "L' 0 = A @ y # B" "fq_data g = fq_data f" "fm_nolimit_first g = fm_nolimit_first f"
    using skiplist_push [OF rep y ts, of rng] unfolding skip_split_def by blast
  then have "set ns \<union> set (L' 0) = insert y (set ns \<union> set (L 0))" by auto
  then show ?thesis using False y(1) g
    by (intro exI [where x = "snd (flow_queue_level rng)"] exI [where x = g] exI [where x = ns] exI [where x = L'])
      (auto simp: flow_queue_activate_def norate_def)
qed

text \<open>The bytes of one firing.\<close>

definition fire_bytes :: "flow_queue \<Rightarrow> u32" where
  "fire_bytes q = (if fq_avail q \<le> ucast (fq_max_chunk q) then fq_avail q else ucast (fq_max_chunk q))"

lemma fire_bytes_le: "fire_bytes q \<le> fq_avail q" "fire_bytes q \<le> ucast (fq_max_chunk q)"
  by (auto simp: fire_bytes_def)

lemma flow_rep_put:
  assumes rep: "flow_rep f ns L" and "fq_next_idxs q = fq_next_idxs (fm_queues f y)"
    and "fq_flags q = fq_flags (fm_queues f y)"
  shows "flow_rep (fq_put f y q) ns L"
proof -
  note d = flow_repD [OF rep]
  have lv: "lvl_next (fq_put f y q) l = lvl_next f l" for l using assms(2) by (simp add: lvl_next_def fun_eq_iff)
  have "skip_rep (fq_put f y q) L" by (rule skip_rep_cong [OF d(2)]) (simp_all add: lv del: lvl_next_put)
  then show ?thesis using d assms(3) unfolding flow_rep_def lv by auto
qed

lemma fire_unfold:
  assumes "fq_ok y" and "fq_avail (fm_queues f y) > 0"
  shows "flow_queue_fire rng ts_virtual f y =
    (if fq_rate ((fm_queues f y)\<lparr>fq_avail := fq_avail (fm_queues f y) - fire_bytes (fm_queues f y)\<rparr>) > 0
     then do {
       ts \<leftarrow> flow_queue_new_ts ts_virtual ((fm_queues f y)\<lparr>fq_avail := fq_avail (fm_queues f y) - fire_bytes (fm_queues f y)\<rparr>)
         (fire_bytes (fm_queues f y));
       Some ((fm_queues f y)\<lparr>fq_avail := fq_avail (fm_queues f y) - fire_bytes (fm_queues f y)\<rparr>\<lparr>fq_next_ts := ts\<rparr>) }
     else Some ((fm_queues f y)\<lparr>fq_avail := fq_avail (fm_queues f y) - fire_bytes (fm_queues f y)\<rparr>)) \<bind> (\<lambda>q. do {
     (rng, g) \<leftarrow> (if fq_avail q > 0 then flow_queue_activate rng ts_virtual (fq_put f y q) y else Some (rng, fq_put f y q));
     Some (rng, g, fire_bytes (fm_queues f y)) })"
  unfolding flow_queue_fire_def fire_bytes_def [symmetric] using assms by (simp add: Let_def)

lemma fire_queue:
  "\<exists>q1. (if fq_rate (q\<lparr>fq_avail := a\<rparr>) > 0
      then do { ts \<leftarrow> flow_queue_new_ts ts_virtual (q\<lparr>fq_avail := a\<rparr>) n; Some (q\<lparr>fq_avail := a\<rparr>\<lparr>fq_next_ts := ts\<rparr>) }
      else Some (q\<lparr>fq_avail := a\<rparr>)) = Some q1 \<and>
    fq_avail q1 = a \<and> fq_next_idxs q1 = fq_next_idxs q \<and> fq_flags q1 = fq_flags q \<and> fq_rate q1 = fq_rate q"
proof (cases "fq_rate q = 0")
  case False
  then obtain ts where "flow_queue_new_ts ts_virtual (q\<lparr>fq_avail := a\<rparr>) n = Some ts"
    using flow_queue_new_ts_Some [of "q\<lparr>fq_avail := a\<rparr>"] by auto
  then show ?thesis using False by (simp add: word_gt_0)
qed simp

lemma fire_ok:
  assumes rep: "flow_rep f ns L" and y: "fq_ok y" "y \<notin> set ns" "y \<notin> set (L 0)" "fq_avail (fm_queues f y) > 0"
    and q: "\<forall>i. fq_ok i \<and> i \<noteq> y \<and> flow_avail f i > 0 \<longrightarrow> i \<in> set ns \<union> set (L 0)"
  shows "\<exists>rng' g ns' L'. flow_queue_fire rng ts_virtual f y = Some (rng', g, fire_bytes (fm_queues f y)) \<and>
    flow_inv g ns' L' \<and> fm_nolimit_first g = fm_nolimit_first f \<and> (norate f L \<longrightarrow> norate g L') \<and>
    flow_avail g = (flow_avail f)(y := flow_avail f y - unat (fire_bytes (fm_queues f y)))"
proof -
  let ?q = "fm_queues f y"
  let ?n = "fire_bytes ?q"
  let ?dec = "?q\<lparr>fq_avail := fq_avail ?q - ?n\<rparr>"
  obtain q1 where q1: "(if fq_rate ?dec > 0 then do { ts \<leftarrow> flow_queue_new_ts ts_virtual ?dec ?n; Some (?dec\<lparr>fq_next_ts := ts\<rparr>) }
      else Some ?dec) = Some q1"
    and q1f: "fq_avail q1 = fq_avail ?q - ?n" "fq_next_idxs q1 = fq_next_idxs ?q" "fq_flags q1 = fq_flags ?q"
      "fq_rate q1 = fq_rate ?q"
    using fire_queue [where q = ?q and a = "fq_avail ?q - ?n" and ts_virtual = ts_virtual and n = ?n] by blast
  let ?f = "fq_put f y q1"
  have rep1: "flow_rep ?f ns L" using rep q1f by (intro flow_rep_put)
  have av: "flow_avail ?f = (flow_avail f)(y := flow_avail f y - unat ?n)"
    using q1f(1) fire_bytes_le(1) [of ?q] by (auto simp: flow_avail_def unat_sub)
  have nr: "norate f L \<Longrightarrow> norate ?f L" using q1f(4) by (auto simp: norate_def)
  show ?thesis
  proof (cases "fq_avail q1 > 0")
    case True
    obtain rng' g ns' L' where g: "flow_queue_activate rng ts_virtual ?f y = Some (rng', g)" "flow_rep g ns' L'"
        "set ns' \<union> set (L' 0) = insert y (set ns \<union> set (L 0))" "fq_data g = fq_data ?f" "fm_nolimit_first g = fm_nolimit_first ?f"
        "norate ?f L \<longrightarrow> norate g L'"
      using activate_ok [OF rep1 y(1-3), of rng ts_virtual] by blast
    have "flow_queue_fire rng ts_virtual f y = Some (rng', g, ?n)"
      unfolding fire_unfold [OF y(1,4)] q1 using True g(1) by simp
    moreover have "flow_avail g = (flow_avail f)(y := flow_avail f y - unat ?n)" using av flow_avail_data [OF g(4)] by simp
    moreover have "flow_inv g ns' L'" using g(2,3) q calculation(2) by (auto simp: flow_inv_def)
    ultimately show ?thesis using g(5,6) nr by auto
  next
    case False
    then have "flow_queue_fire rng ts_virtual f y = Some (rng, ?f, ?n)"
      unfolding fire_unfold [OF y(1,4)] q1 by simp
    moreover have "flow_inv ?f ns L" using rep1 q False by (auto simp: flow_inv_def word_gt_0 unat_gt_0)
    ultimately show ?thesis using av nr by (intro exI) auto
  qed
qed

section \<open>Polling the flows of a VM\<close>

definition flow_bytes :: "poll_entry list \<Rightarrow> u32 \<Rightarrow> nat" where
  "flow_bytes es i = sum_list (map (\<lambda>(j, b, v). if j = i then unat b else 0) es)"

definition entry_bytes :: "poll_entry list \<Rightarrow> nat" where
  "entry_bytes es = sum_list (map (\<lambda>(j, b, v). unat b) es)"

lemma entry_bytes_simps [simp]:
  "flow_bytes [] i = 0" "flow_bytes ((j, b, v) # es) i = (if j = i then unat b else 0) + flow_bytes es i"
  "flow_bytes (es @ es') i = flow_bytes es i + flow_bytes es' i"
  "entry_bytes [] = 0" "entry_bytes ((j, b, v) # es) = unat b + entry_bytes es"
  "entry_bytes (es @ es') = entry_bytes es + entry_bytes es'"
  by (simp_all add: flow_bytes_def entry_bytes_def)

text \<open>What a part of a poll does to the flows of VM \<open>v\<close>: it emits the entries \<open>es\<close>.\<close>

definition emits :: "u32 \<Rightarrow> flow_qman \<Rightarrow> (nat \<Rightarrow> u32 list) \<Rightarrow> poll_entry list \<Rightarrow> flow_qman \<Rightarrow> u32 list \<Rightarrow>
    (nat \<Rightarrow> u32 list) \<Rightarrow> bool" where
  "emits v f L es g ns' L' \<longleftrightarrow> flow_inv g ns' L' \<and> fm_nolimit_first g = fm_nolimit_first f \<and>
     (\<forall>i. flow_avail g i + flow_bytes es i = flow_avail f i) \<and> (\<forall>(i, b, v') \<in> set es. fq_ok i \<and> v' = v) \<and>
     (norate f L \<longrightarrow> norate g L')"

lemma emits_refl: "flow_inv f ns L \<Longrightarrow> emits v f L [] f ns L"
  by (simp add: emits_def)

lemma emits_trans:
  assumes "emits v f L es g ns' L'" and "emits v g L' es' h ns'' L''"
  shows "emits v f L (es @ es') h ns'' L''"
proof -
  have "flow_avail h i + flow_bytes (es @ es') i = flow_avail f i" for i
    using assms unfolding emits_def by (metis add.assoc add.commute entry_bytes_simps(3))
  then show ?thesis using assms by (auto simp: emits_def)
qed

lemma flow_bytes_total:
  "\<forall>(i, b, v') \<in> set es. fq_ok i \<and> v' = v \<Longrightarrow> (\<Sum>i | fq_ok i. flow_bytes es i) = entry_bytes es"
proof (induction es)
  case (Cons e es)
  then show ?case by (cases e) (auto simp: sum.distrib sum.delta)
qed simp

lemma emits_total: "emits v f L es g ns' L' \<Longrightarrow> flow_total g + entry_bytes es = flow_total f"
proof -
  assume e: "emits v f L es g ns' L'"
  have "flow_total f = (\<Sum>i | fq_ok i. flow_avail g i + flow_bytes es i)"
    using e by (simp add: flow_total_def emits_def)
  then show ?thesis using flow_bytes_total [of es v] e by (simp add: sum.distrib flow_total_def emits_def)
qed

lemma emits_fire:
  assumes rep: "flow_rep f ns L" and y: "fq_ok y" "y \<notin> set ns" "y \<notin> set (L 0)" "fq_avail (fm_queues f y) > 0"
    and q: "\<forall>i. fq_ok i \<and> i \<noteq> y \<and> flow_avail f i > 0 \<longrightarrow> i \<in> set ns \<union> set (L 0)"
  shows "\<exists>rng' g ns' L' n. flow_queue_fire rng ts_virtual f y = Some (rng', g, n) \<and>
    emits v f L [(y, ucast n, v)] g ns' L' \<and> unat (ucast n :: u16) = unat n"
proof -
  let ?n = "fire_bytes (fm_queues f y)"
  have "unat ?n \<le> unat (ucast (fq_max_chunk (fm_queues f y)) :: u32)"
    using fire_bytes_le(2) by (simp add: word_le_nat_alt)
  then have "unat (ucast ?n :: u16) = unat ?n"
    using unat_lt_u16 [of "fq_max_chunk (fm_queues f y)"]
    by (simp add: unat_ucast_narrow del: unat_lt_u16)
  moreover have "unat ?n \<le> flow_avail f y" using fire_bytes_le(1) by (simp add: flow_avail_def word_le_nat_alt)
  ultimately show ?thesis
    using fire_ok [OF rep y q, of rng ts_virtual] y(1) by (fastforce simp: emits_def)
qed

lemma emits_pre:
  assumes "fq_data f' = fq_data f" and "fm_nolimit_first f' = fm_nolimit_first f" and "emits v f' L es g ns' L'"
  shows "emits v f L es g ns' L'"
  using assms flow_avail_data [OF assms(1)] norate_data [of f L f'] by (auto simp: emits_def)

lemma poll_nolimit_ok:
  "flow_inv f ns L \<Longrightarrow>
   \<exists>rng' g es ns' L'. flow_poll_nolimit rng vq f num out bs = Some (rng', g, out @ es, bs + int (entry_bytes es)) \<and>
     emits (vq_id vq) f L es g ns' L' \<and> length es \<le> num \<and> (es = [] \<longrightarrow> num = 0 \<or> ns' = [] \<and> L' 0 = L 0)"
proof (induction num arbitrary: rng f ns L out bs)
  case 0
  then show ?case using emits_refl [of f ns L]
    by (intro exI [where x = rng] exI [where x = f] exI [where x = "[]"] exI [where x = ns] exI [where x = L])
      (simp add: flow_poll_nolimit.simps [of rng])
next
  case (Suc num)
  note IH = Suc.IH
  show ?case using Suc.prems
  proof (induction ns arbitrary: rng f)
    case Nil
    then have "fm_nolimit_head_idx f = IDXLIST_INVAL" using nolimit_head [of f "[]" L] by (simp add: flow_inv_def)
    then show ?case using emits_refl [OF Nil]
      by (intro exI [where x = rng] exI [where x = f] exI [where x = "[]"] exI [where x = L])
        (simp add: flow_poll_nolimit.simps [of rng])
  next
    case (Cons x ns)
    have rep: "flow_rep f (x # ns) L" using Cons.prems by (simp add: flow_inv_def)
    obtain h where h: "flow_nolimit_pop f = Some (x, h)" "flow_rep h ns L" "fq_data h = fq_data f"
        "fm_nolimit_first h = fm_nolimit_first f"
      using nolimit_pop [OF rep] by blast
    have av: "flow_avail h = flow_avail f" using flow_avail_data [OF h(3)] .
    have x: "fq_ok x" "x \<notin> set ns" "x \<notin> set (L 0)"
      using flow_repD(1,3,4) [OF rep] idx_fifo_pop(3) [OF flow_repD(1) [OF rep]] by auto
    have q: "\<forall>i. fq_ok i \<and> i \<noteq> x \<and> flow_avail h i > 0 \<longrightarrow> i \<in> set ns \<union> set (L 0)"
      using Cons.prems av by (auto simp: flow_inv_def)
    have ne: "fm_nolimit_head_idx f \<noteq> IDXLIST_INVAL" using nolimit_head [OF rep] by simp
    show ?case
    proof (cases "fq_avail (fm_queues h x) > 0")
      case True
      obtain rng' g ns' L' n
        where g: "flow_queue_fire rng (vq_ts_virtual vq) h x = Some (rng', g, n)"
          "emits (vq_id vq) h L [(x, ucast n, vq_id vq)] g ns' L'" "unat (ucast n :: u16) = unat n"
        using emits_fire [OF h(2) x True q] by blast
      have "flow_inv g ns' L'" using g(2) by (simp add: emits_def)
      from IH [OF this, of rng' "out @ [(x, ucast n, vq_id vq)]" "bs + uint n"]
      obtain rng'' g' es ns'' L'' where g': "flow_poll_nolimit rng' vq g num (out @ [(x, ucast n, vq_id vq)]) (bs + uint n) =
            Some (rng'', g', (out @ [(x, ucast n, vq_id vq)]) @ es, bs + uint n + int (entry_bytes es))"
          "emits (vq_id vq) g L' es g' ns'' L''" "length es \<le> num" by blast
      have "emits (vq_id vq) f L ([(x, ucast n, vq_id vq)] @ es) g' ns'' L''"
        using emits_trans [OF g(2) g'(2)] emits_pre [OF h(3,4)] by blast
      moreover have "flow_poll_nolimit rng vq f (Suc num) out bs = Some (rng'', g', out @ ([(x, ucast n, vq_id vq)] @ es),
          bs + int (entry_bytes ([(x, ucast n, vq_id vq)] @ es)))"
        using h(1) x(1) True g g'(1) ne by (simp add: flow_poll_nolimit.simps [of rng])
      ultimately show ?thesis using g'(3) by (intro exI conjI) auto
    next
      case False
      then have "flow_inv h ns L" using h(2) q by (auto simp: flow_inv_def flow_avail_def word_gt_0 unat_gt_0)
      from Cons.IH [OF this, of rng]
      obtain rng' g es ns' L' where "flow_poll_nolimit rng vq h (Suc num) out bs = Some (rng', g, out @ es, bs + int (entry_bytes es))"
        "emits (vq_id vq) h L es g ns' L'" "length es \<le> Suc num" "es = [] \<longrightarrow> Suc num = 0 \<or> ns' = [] \<and> L' 0 = L 0" by blast
      then show ?thesis using h(1) x(1) False ne emits_pre [OF h(3,4)]
        by (intro exI [where x = rng'] exI [where x = g] exI [where x = es] exI [where x = ns'] exI [where x = L'])
          (simp add: flow_poll_nolimit.simps [of rng vq f])
    qed
  qed
qed

lemma skip_head: "flow_rep f ns L \<Longrightarrow> fm_head_idx f 0 = (case L 0 of [] \<Rightarrow> IDXLIST_INVAL | x # _ \<Rightarrow> x)"
  using idx_chain_head [of "lvl_next f 0" "fm_head_idx f 0" "L 0"]
  by (auto simp: flow_rep_def skip_rep_def QMAN_SKIPLIST_LEVELS_def)

lemma skiplist_loop_ok:
  "flow_inv f ns L \<Longrightarrow>
   \<exists>rng' t' g es rl' ns' L'. skiplist_loop rng vid t m f num out bs rl = Some (rng', t', g, out @ es, bs + int (entry_bytes es), rl') \<and>
     emits vid f L es g ns' L' \<and> length es \<le> num"
proof (induction num arbitrary: rng t f ns L out bs)
  case 0
  then show ?case using emits_refl [of f ns L]
    by (intro exI [where x = rng] exI [where x = t] exI [where x = f] exI [where x = "[]"] exI [where x = rl]
        exI [where x = ns] exI [where x = L]) (simp add: skiplist_loop.simps [of rng])
next
  case (Suc num)
  note IH = Suc.IH
  obtain xs where "L 0 = xs" by simp
  then show ?case using Suc.prems
  proof (induction xs arbitrary: rng t f L)
    case Nil
    then have "fm_head_idx f 0 = IDXLIST_INVAL" using skip_head [of f ns L] by (simp add: flow_inv_def)
    then show ?case using emits_refl [OF Nil(2)]
      by (intro exI [where x = rng] exI [where x = m] exI [where x = f] exI [where x = "[]"] exI [where x = rl]
          exI [where x = ns] exI [where x = L]) (simp add: skiplist_loop.simps [of rng])
  next
    case (Cons x xs)
    have rep: "flow_rep f ns L" using Cons.prems by (simp add: flow_inv_def)
    obtain h L1 where h: "fm_head_idx f 0 = x" "skip_pop f x = Some h" "flow_rep h ns L1" "L1 0 = xs" "fq_data h = fq_data f"
        "fm_nolimit_first h = fm_nolimit_first f"
      using skip_pop_ok [OF rep Cons.prems(1)] by blast
    have av: "flow_avail h = flow_avail f" using flow_avail_data [OF h(5)] .
    have x: "fq_ok x" "x \<notin> set ns" "x \<notin> set (L1 0)"
      using flow_repD(2,3,5) [OF rep] Cons.prems(1) h(4) by (auto simp: skip_rep_def)
    then have ne: "x \<noteq> IDXLIST_INVAL" by auto
    have q: "\<forall>i. fq_ok i \<and> i \<noteq> x \<and> flow_avail h i > 0 \<longrightarrow> i \<in> set ns \<union> set (L1 0)"
      using Cons.prems av h(4) by (auto simp: flow_inv_def)
    have eqav: "fq_avail (fm_queues h x) = fq_avail (fm_queues f x)" using h(5) by (auto simp: fq_data_def fun_eq_iff)
    have nr: "norate f L \<longrightarrow> norate h L1" using Cons.prems(1) by (simp add: norate_def)
    have pre: "emits vid f L es g ns' L'" if "emits vid h L1 es g ns' L'" for es g ns' L'
      using that nr av h(6) by (auto simp: emits_def)
    let ?t = "fq_next_ts (fm_queues f x)"
    consider "\<not> timestamp_lessthaneq t ?t m" | "timestamp_lessthaneq t ?t m" "fq_avail (fm_queues f x) > 0"
      | "timestamp_lessthaneq t ?t m" "\<not> fq_avail (fm_queues f x) > 0" by blast
    then show ?case
    proof cases
      case 1
      then show ?thesis using emits_refl [OF Cons.prems(2)] h(1) x(1) ne
        by (intro exI [where x = rng] exI [where x = m] exI [where x = f] exI [where x = "[]"] exI [where x = 1]
            exI [where x = ns] exI [where x = L]) (simp add: skiplist_loop.simps [of rng])
    next
      case 2
      obtain rng' g ns' L' n
        where g: "flow_queue_fire rng ?t h x = Some (rng', g, n)"
          "emits vid h L1 [(x, ucast n, vid)] g ns' L'" "unat (ucast n :: u16) = unat n"
        using emits_fire [OF h(3) x _ q] 2 eqav by fastforce
      have "flow_inv g ns' L'" using g(2) by (simp add: emits_def)
      from IH [OF this, of rng' ?t "out @ [(x, ucast n, vid)]" "bs + uint n"]
      obtain rng'' t'' g' es rl' ns'' L'' where g': "skiplist_loop rng' vid ?t m g num (out @ [(x, ucast n, vid)]) (bs + uint n) rl =
            Some (rng'', t'', g', (out @ [(x, ucast n, vid)]) @ es, bs + uint n + int (entry_bytes es), rl')"
          "emits vid g L' es g' ns'' L''" "length es \<le> num" by blast
      have "emits vid f L ([(x, ucast n, vid)] @ es) g' ns'' L''"
        using emits_trans [OF g(2) g'(2)] pre by blast
      moreover have "skiplist_loop rng vid t m f (Suc num) out bs rl = Some (rng'', t'', g', out @ ([(x, ucast n, vid)] @ es),
          bs + int (entry_bytes ([(x, ucast n, vid)] @ es)), rl')"
        using h(1,2) x(1) 2 g g'(1) ne by (simp add: skiplist_loop.simps [of rng])
      ultimately show ?thesis using g'(3) by (intro exI conjI) auto
    next
      case 3
      then have "flow_inv h ns L1" using h(3) q eqav by (auto simp: flow_inv_def flow_avail_def word_gt_0 unat_gt_0)
      from Cons.IH [OF h(4) this, of rng ?t]
      obtain rng' t' g es rl' ns' L' where "skiplist_loop rng vid ?t m h (Suc num) out bs rl =
            Some (rng', t', g, out @ es, bs + int (entry_bytes es), rl')"
        "emits vid h L1 es g ns' L'" "length es \<le> Suc num" by blast
      then show ?thesis using h(1,2) x(1) 3 ne pre
        by (intro exI [where x = rng'] exI [where x = t'] exI [where x = g] exI [where x = es] exI [where x = rl']
            exI [where x = ns'] exI [where x = L']) (simp add: skiplist_loop.simps [of rng vid t m f])
    qed
  qed
qed

lemma skiplist_limit_ts_Some: "flow_rep f ns L \<Longrightarrow> \<exists>t'. skiplist_limit_ts t m f = Some t'"
  using skip_head [of f ns L] flow_repD(5) [of f ns L]
  by (cases "L 0") (auto simp: skiplist_limit_ts_def Let_def)

text \<open>The fields of a VM's queue that a poll of its flows leaves alone.\<close>

definition same_vq :: "vm_queue \<Rightarrow> vm_queue \<Rightarrow> bool" where
  "same_vq vq vq' \<longleftrightarrow> vq_id vq' = vq_id vq \<and> vq_avail vq' = vq_avail vq \<and> vq_flags vq' = vq_flags vq \<and>
     vq_next_idx vq' = vq_next_idx vq"

lemma poll_skiplist_ok:
  assumes "flow_inv f ns L"
  shows "\<exists>rng' vq' g sk' es ns' L'. flow_poll_skiplist rng vq f sk num out bs =
      Some (rng', vq', g, sk', out @ es, bs + int (entry_bytes es)) \<and> emits (vq_id vq) f L es g ns' L' \<and> length es \<le> num \<and>
      same_vq vq vq' \<and> vq_fqman vq' = vq_fqman vq"
proof -
  let ?m = "vq_ts_virtual vq + (sk_cur_ts sk - vq_ts_real vq)"
  obtain rng' t' g es rl' ns' L'
    where l: "skiplist_loop rng (vq_id vq) (vq_ts_virtual vq) ?m f num out bs (sk_rate_limited sk) =
        Some (rng', t', g, out @ es, bs + int (entry_bytes es), rl')" "emits (vq_id vq) f L es g ns' L'" "length es \<le> num"
    using skiplist_loop_ok [OF assms, of rng "vq_id vq" "vq_ts_virtual vq" ?m num out bs "sk_rate_limited sk"] by blast
  obtain t2 where "skiplist_limit_ts t' ?m g = Some t2"
    using skiplist_limit_ts_Some l(2) unfolding emits_def flow_inv_def by blast
  then show ?thesis using l by (auto simp: flow_poll_skiplist_def same_vq_def)
qed

lemma flow_first_simps [simp]:
  "flow_inv (f\<lparr>fm_nolimit_first := b\<rparr>) ns L = flow_inv f ns L"
  "flow_avail (f\<lparr>fm_nolimit_first := b\<rparr>) = flow_avail f"
  "flow_total (f\<lparr>fm_nolimit_first := b\<rparr>) = flow_total f"
  "norate (f\<lparr>fm_nolimit_first := b\<rparr>) L = norate f L"
  by (simp_all add: flow_inv_def flow_avail_def flow_total_def norate_def flow_rep_def skip_rep_def fun_eq_iff)

lemma emits_nothing:
  assumes "emits v f L [] g [] L'" and "L' 0 = []"
  shows "flow_total f = 0"
proof -
  have "flow_avail g i = 0" if "fq_ok i" for i using assms that by (auto simp: emits_def flow_inv_def)
  then show ?thesis using assms(1) by (simp add: flow_total_zero emits_def)
qed

definition polls :: "vm_queue \<Rightarrow> nat \<Rightarrow> (nat \<Rightarrow> u32 list) \<Rightarrow> poll_entry list \<Rightarrow> flow_qman \<Rightarrow> u32 list \<Rightarrow> (nat \<Rightarrow> u32 list) \<Rightarrow> bool" where
  "polls vq num L es g ns' L' \<longleftrightarrow> emits (vq_id vq) (vq_fqman vq) L es g ns' L' \<and> length es \<le> num \<and>
     (norate (vq_fqman vq) L \<longrightarrow> es = [] \<longrightarrow> num = 0 \<or> flow_total (vq_fqman vq) = 0)"

lemma poll_nolimit_first:
  assumes "flow_inv (vq_fqman vq) ns L"
  shows "\<exists>rng' vq' g sk' es ns' L'. do {
      (rng, fqman, out, bytes_sum) \<leftarrow> flow_poll_nolimit rng vq (vq_fqman vq) num [] 0;
      flow_poll_skiplist rng vq fqman sk (num - length out) out bytes_sum } =
    Some (rng', vq', g, sk', es, int (entry_bytes es)) \<and> polls vq num L es g ns' L' \<and> same_vq vq vq'"
proof -
  obtain rng1 g1 es1 ns1 L1
    where 1: "flow_poll_nolimit rng vq (vq_fqman vq) num [] 0 = Some (rng1, g1, [] @ es1, 0 + int (entry_bytes es1))"
      "emits (vq_id vq) (vq_fqman vq) L es1 g1 ns1 L1" "length es1 \<le> num" "es1 = [] \<longrightarrow> num = 0 \<or> ns1 = [] \<and> L1 0 = L 0"
    using poll_nolimit_ok [OF assms, of rng vq num "[]" 0] by blast
  have "flow_inv g1 ns1 L1" using 1(2) by (simp add: emits_def)
  from poll_skiplist_ok [OF this, of rng1 vq sk "num - length es1" es1 "int (entry_bytes es1)"]
  obtain rng2 vq2 g2 sk2 es2 ns2 L2
    where 2: "flow_poll_skiplist rng1 vq g1 sk (num - length es1) es1 (int (entry_bytes es1)) =
        Some (rng2, vq2, g2, sk2, es1 @ es2, int (entry_bytes es1) + int (entry_bytes es2))"
      "emits (vq_id vq) g1 L1 es2 g2 ns2 L2" "length es2 \<le> num - length es1" "same_vq vq vq2" by blast
  have "emits (vq_id vq) (vq_fqman vq) L (es1 @ es2) g2 ns2 L2" using emits_trans [OF 1(2) 2(2)] .
  moreover have "num = 0 \<or> flow_total (vq_fqman vq) = 0" if "norate (vq_fqman vq) L" "es1 @ es2 = []"
    using that 1(2,4) emits_nothing [of "vq_id vq" "vq_fqman vq" L g1 L1] by (auto simp: norate_def)
  ultimately show ?thesis using 1(1,3) 2 by (auto simp: polls_def)
qed

lemma poll_skiplist_first:
  assumes "flow_inv (vq_fqman vq) ns L"
  shows "\<exists>rng' vq' g sk' es ns' L'. do {
      (rng, vq, fqman, sk, out, bytes_sum) \<leftarrow> flow_poll_skiplist rng vq (vq_fqman vq) sk num [] 0;
      (rng, fqman, out, bytes_sum) \<leftarrow> flow_poll_nolimit rng vq fqman (num - length out) out bytes_sum;
      Some (rng, vq, fqman, sk, out, bytes_sum) } =
    Some (rng', vq', g, sk', es, int (entry_bytes es)) \<and> polls vq num L es g ns' L' \<and> same_vq vq vq'"
proof -
  obtain rng1 vq1 g1 sk1 es1 ns1 L1
    where 1: "flow_poll_skiplist rng vq (vq_fqman vq) sk num [] 0 = Some (rng1, vq1, g1, sk1, [] @ es1, 0 + int (entry_bytes es1))"
      "emits (vq_id vq) (vq_fqman vq) L es1 g1 ns1 L1" "length es1 \<le> num" "same_vq vq vq1"
    using poll_skiplist_ok [OF assms, of rng vq sk num "[]" 0] by blast
  have id: "vq_id vq1 = vq_id vq" using 1(4) by (simp add: same_vq_def)
  have "flow_inv g1 ns1 L1" using 1(2) by (simp add: emits_def)
  from poll_nolimit_ok [OF this, of rng1 vq1 "num - length es1" es1 "int (entry_bytes es1)"]
  obtain rng2 g2 es2 ns2 L2
    where 2: "flow_poll_nolimit rng1 vq1 g1 (num - length es1) es1 (int (entry_bytes es1)) =
        Some (rng2, g2, es1 @ es2, int (entry_bytes es1) + int (entry_bytes es2))"
      "emits (vq_id vq) g1 L1 es2 g2 ns2 L2" "length es2 \<le> num - length es1"
      "es2 = [] \<longrightarrow> num - length es1 = 0 \<or> ns2 = [] \<and> L2 0 = L1 0"
    using id by auto
  have e: "emits (vq_id vq) (vq_fqman vq) L (es1 @ es2) g2 ns2 L2" using emits_trans [OF 1(2) 2(2)] .
  moreover have "num = 0 \<or> flow_total (vq_fqman vq) = 0" if "norate (vq_fqman vq) L" "es1 @ es2 = []"
    using that e 2(4) emits_nothing [of "vq_id vq" "vq_fqman vq" L g2 L2] by (auto simp: norate_def emits_def)
  ultimately show ?thesis using 1(1,3,4) 2 by (auto simp: polls_def)
qed

lemma flow_qman_poll_ok:
  assumes "flow_inv (vq_fqman vq) ns L"
  shows "\<exists>rng' vq' sk' es ns' L'. flow_qman_poll rng vq sk num = Some (rng', vq', sk', es, int (entry_bytes es)) \<and>
    polls vq num L es ((vq_fqman vq')\<lparr>fm_nolimit_first := fm_nolimit_first (vq_fqman vq)\<rparr>) ns' L' \<and> same_vq vq vq'"
proof -
  obtain rng' vq' g sk' es ns' L'
    where r: "(if fm_nolimit_first (vq_fqman vq) then do {
          (rng, fqman, out, bytes_sum) \<leftarrow> flow_poll_nolimit rng vq (vq_fqman vq) num [] 0;
          flow_poll_skiplist rng vq fqman sk (num - length out) out bytes_sum }
        else do {
          (rng, vq, fqman, sk, out, bytes_sum) \<leftarrow> flow_poll_skiplist rng vq (vq_fqman vq) sk num [] 0;
          (rng, fqman, out, bytes_sum) \<leftarrow> flow_poll_nolimit rng vq fqman (num - length out) out bytes_sum;
          Some (rng, vq, fqman, sk, out, bytes_sum) }) = Some (rng', vq', g, sk', es, int (entry_bytes es))"
      "polls vq num L es g ns' L'" "same_vq vq vq'"
    using poll_nolimit_first [OF assms, of rng num sk] poll_skiplist_first [OF assms, of rng sk num]
    by (cases "fm_nolimit_first (vq_fqman vq)") (simp_all only: if_True if_False, blast+)
  let ?vq = "vq'\<lparr>vq_fqman := g\<lparr>fm_nolimit_first := \<not> fm_nolimit_first g\<rparr>\<rparr>"
  have "flow_qman_poll rng vq sk num = Some (rng', ?vq, sk', es, int (entry_bytes es))"
    unfolding flow_qman_poll_def Let_def r(1) by simp
  moreover have "g\<lparr>fm_nolimit_first := fm_nolimit_first (vq_fqman vq)\<rparr> = g"
    using r(2) by (simp add: polls_def emits_def)
  ultimately show ?thesis using r(2,3) by (intro exI) (auto simp: same_vq_def)
qed

end
