(* ===== verification/Qman_Vm.thy ===== *)
theory Qman_Vm
  imports Qman_Inv
begin

text \<open>
  The invariant of the whole queue manager of a core: \<open>vm_inv\<close> for the VMs, kept by
  \<open>tas_qman_set\<close> and \<open>tas_qman_poll\<close>, and what a poll hands out.
\<close>

section \<open>The invariant\<close>

abbreviation vm_flows :: "vm_qman \<Rightarrow> u32 \<Rightarrow> flow_qman" where
  "vm_flows vqman v \<equiv> vq_fqman (vm_queues vqman v)"

text \<open>
  \<open>X\<close> are VMs that were taken off the list and not put back yet; \<open>nr\<close> says that no flow is rate
  limited.
\<close>

definition vm_one :: "bool \<Rightarrow> u32 \<Rightarrow> vm_queue \<Rightarrow> bool" where
  "vm_one nr v q \<longleftrightarrow> vq_id q = v \<and> unat (vq_avail q) = flow_total (vq_fqman q) \<and>
     (\<exists>ns L. flow_inv (vq_fqman q) ns L \<and> (nr \<longrightarrow> norate (vq_fqman q) L))"

definition vm_inv_x :: "bool \<Rightarrow> vm_qman \<Rightarrow> u32 list \<Rightarrow> u32 set \<Rightarrow> bool" where
  "vm_inv_x nr vqman vs X \<longleftrightarrow> vm_rep vqman vs \<and>
     (\<forall>v. vm_ok v \<longrightarrow> vm_one nr v (vm_queues vqman v) \<and> (vq_avail (vm_queues vqman v) > 0 \<longrightarrow> v \<in> set vs \<union> X))"

definition vm_inv :: "vm_qman \<Rightarrow> u32 list \<Rightarrow> bool" where
  "vm_inv vqman vs \<longleftrightarrow> vm_inv_x False vqman vs {}"

lemma vm_dataD:
  assumes "vm_data g = vm_data f"
  shows "vq_id (vm_queues g v) = vq_id (vm_queues f v)" "vm_flows g v = vm_flows f v"
    "vq_avail (vm_queues g v) = vq_avail (vm_queues f v)"
  using fun_cong [OF assms, of v] by (simp_all add: vm_data_def Let_def)

lemma vm_one_data: "vm_data g = vm_data f \<Longrightarrow> vm_one nr v (vm_queues g v) = vm_one nr v (vm_queues f v)"
  using vm_dataD [of g f v] by (simp add: vm_one_def)

section \<open>What a poll hands out\<close>

definition vm_bytes :: "poll_entry list \<Rightarrow> u32 \<Rightarrow> u32 \<Rightarrow> nat" where
  "vm_bytes es v i = sum_list (map (\<lambda>(j, b, w). if j = i \<and> w = v then unat b else 0) es)"

lemma vm_bytes_simps [simp]:
  "vm_bytes [] v i = 0" "vm_bytes (es @ es') v i = vm_bytes es v i + vm_bytes es' v i"
  by (simp_all add: vm_bytes_def)

lemma vm_bytes_one:
  "\<forall>(i, b, v') \<in> set es. fq_ok i \<and> v' = v \<Longrightarrow> vm_bytes es w i = (if w = v then flow_bytes es i else 0)"
  by (induction es) (auto simp: vm_bytes_def flow_bytes_def)

definition vm_emits :: "vm_qman \<Rightarrow> poll_entry list \<Rightarrow> vm_qman \<Rightarrow> bool" where
  "vm_emits f es g \<longleftrightarrow> (\<forall>(i, b, v) \<in> set es. fq_ok i \<and> vm_ok v) \<and>
     (\<forall>v i. vm_ok v \<longrightarrow> flow_avail (vm_flows g v) i + vm_bytes es v i = flow_avail (vm_flows f v) i)"

lemma vm_emits_data: "vm_data g = vm_data f \<Longrightarrow> vm_emits f [] g"
  using vm_dataD(2) [of g f] by (simp add: vm_emits_def)

lemma vm_emits_trans: "vm_emits f es g \<Longrightarrow> vm_emits g es' h \<Longrightarrow> vm_emits f (es @ es') h"
  unfolding vm_emits_def by (auto simp: add.assoc) (metis add.assoc add.commute)

section \<open>Serving one VM\<close>

lemma vm_fire_ok:
  assumes rep: "vm_rep f vs" and v: "vm_ok v" "v \<notin> set vs" and a: "vq_avail (vm_queues f v) > 0"
    and n: "unat (vq_avail (vm_queues f v)) = t + n"
  shows "\<exists>g vs'. vm_queue_fire f v (int n) = Some g \<and> vm_rep g vs' \<and> set vs \<subseteq> set vs' \<and> set vs' \<subseteq> insert v (set vs) \<and>
    (vq_avail (vm_queues g v) > 0 \<longrightarrow> v \<in> set vs') \<and> unat (vq_avail (vm_queues g v)) = t \<and>
    vm_flows g v = vm_flows f v \<and> vq_id (vm_queues g v) = vq_id (vm_queues f v) \<and>
    (\<forall>w. w \<noteq> v \<longrightarrow> vm_data g w = vm_data f w)"
proof -
  let ?q = "(vm_queues f v)\<lparr>vq_avail := vq_avail (vm_queues f v) - of_int (int n)\<rparr>"
  have "of_int (int n) = (of_nat n :: u32)" by simp
  moreover have "unat (of_nat n :: u32) = n" using n unat_lt_u32 [of "vq_avail (vm_queues f v)"]
    by (intro unat_of_nat_small) simp
  ultimately have t: "unat (vq_avail ?q) = t" using n by (simp add: unat_sub word_le_nat_alt)
  have rep1: "vm_rep (vm_put f v ?q) vs" using rep by (rule vm_rep_put) simp_all
  show ?thesis
  proof (cases "vq_avail ?q > 0")
    case True
    obtain g where g: "vm_queue_activate (vm_put f v ?q) v = Some g" "vm_rep g (vs @ [v])" "vm_data g = vm_data (vm_put f v ?q)"
      using vm_push [OF rep1 v] by blast
    have "vm_queue_fire f v (int n) = Some g" using v(1) a True g(1) by (simp add: vm_queue_fire_def Let_def)
    moreover have "vm_data g w = vm_data f w" if "w \<noteq> v" for w using g(3) that by (simp add: vm_data_def Let_def)
    ultimately show ?thesis using g(2) vm_dataD [OF g(3), of v] t
      by (intro exI [where x = g] exI [where x = "vs @ [v]"]) auto
  next
    case False
    then have "vm_queue_fire f v (int n) = Some (vm_put f v ?q)" using v(1) a by (simp add: vm_queue_fire_def Let_def)
    then show ?thesis using rep1 t False by (intro exI [where x = "vm_put f v ?q"] exI [where x = vs]) (auto simp: vm_data_def)
  qed
qed

lemma pollsD:
  assumes "polls q num L es (g\<lparr>fm_nolimit_first := b\<rparr>) ns' L'"
  shows "flow_inv g ns' L'" "flow_total g + entry_bytes es = flow_total (vq_fqman q)"
    "\<And>i. flow_avail g i + flow_bytes es i = flow_avail (vq_fqman q) i"
    "\<forall>(i, b, v') \<in> set es. fq_ok i \<and> v' = vq_id q" "length es \<le> num"
    "norate (vq_fqman q) L \<Longrightarrow> norate g L'"
    "norate (vq_fqman q) L \<Longrightarrow> es = [] \<Longrightarrow> num = 0 \<or> flow_total (vq_fqman q) = 0"
  using assms emits_total [of "vq_id q" "vq_fqman q" L es "g\<lparr>fm_nolimit_first := b\<rparr>" ns' L']
  unfolding polls_def emits_def by simp_all

text \<open>Replacing the entry of one VM.\<close>

lemma vm_inv_replace:
  assumes inv: "vm_inv_x nr f vs X" and v: "vm_ok v" and rep: "vm_rep g vs'" and vs': "set vs \<subseteq> set vs'"
    and other: "\<And>w. w \<noteq> v \<Longrightarrow> vm_data g w = vm_data f w"
    and one: "vm_one nr v (vm_queues g v)" "vq_avail (vm_queues g v) > 0 \<longrightarrow> v \<in> set vs'"
  shows "vm_inv_x nr g vs' (X - {v})"
  unfolding vm_inv_x_def
proof (intro conjI allI impI rep)
  fix w
  assume w: "vm_ok w"
  have *: "vm_one nr w (vm_queues g w) = vm_one nr w (vm_queues f w)" "vq_avail (vm_queues g w) = vq_avail (vm_queues f w)"
    if "w \<noteq> v" using other [OF that] by (simp_all add: vm_data_def Let_def vm_one_def)
  show "vm_one nr w (vm_queues g w)" using inv w one(1) * by (cases "w = v") (auto simp: vm_inv_x_def)
  show "w \<in> set vs' \<union> (X - {v})" if "vq_avail (vm_queues g w) > 0"
    using inv w one(2) that * vs' by (cases "w = v") (auto simp: vm_inv_x_def)
qed

lemma vm_emits_replace:
  assumes v: "vm_ok v" and other: "\<And>w. w \<noteq> v \<Longrightarrow> vm_data g w = vm_data f w"
    and es: "\<forall>(i, b, v') \<in> set es. fq_ok i \<and> v' = v"
    and av: "\<And>i. flow_avail (vm_flows g v) i + flow_bytes es i = flow_avail (vm_flows f v) i"
  shows "vm_emits f es g"
proof -
  have "vm_flows g w = vm_flows f w" if "w \<noteq> v" for w using other [OF that] by (simp add: vm_data_def Let_def)
  then show ?thesis using v es av vm_bytes_one [OF es] by (auto simp: vm_emits_def)
qed

lemma vm_poll_one_ok:
  assumes inv: "vm_inv_x nr (dc_vqman ctx) vs X" and v: "vm_ok v" "v \<notin> set vs"
  shows "\<exists>rng g sk' es vs'. vm_poll_one ctx v sk num = Some (dc_set_qman ctx rng g, sk', es, int (entry_bytes es),
      vq_avail (vm_queues (dc_vqman ctx) v)) \<and> vm_inv_x nr g vs' (X - {v}) \<and> vm_emits (dc_vqman ctx) es g \<and>
    length es \<le> num \<and> set vs \<subseteq> set vs' \<and> set vs' \<subseteq> insert v (set vs) \<and>
    (vq_avail (vm_queues (dc_vqman ctx) v) = 0 \<longrightarrow> vs' = vs) \<and>
    (nr \<longrightarrow> es = [] \<longrightarrow> num = 0 \<or> vq_avail (vm_queues (dc_vqman ctx) v) = 0)"
proof -
  let ?f = "dc_vqman ctx"
  let ?q = "vm_queues ?f v"
  obtain ns L where q: "vq_id ?q = v" "unat (vq_avail ?q) = flow_total (vq_fqman ?q)" "flow_inv (vq_fqman ?q) ns L"
      "nr \<longrightarrow> norate (vq_fqman ?q) L"
    using inv v(1) by (auto simp: vm_inv_x_def vm_one_def)
  obtain rng q' sk' es ns' L' where p: "flow_qman_poll (qt_rng (dc_qman ctx)) ?q sk num = Some (rng, q', sk', es, int (entry_bytes es))"
      "polls ?q num L es ((vq_fqman q')\<lparr>fm_nolimit_first := fm_nolimit_first (vq_fqman ?q)\<rparr>) ns' L'" "same_vq ?q q'"
    using flow_qman_poll_ok [OF q(3)] by blast
  note pd = pollsD [OF p(2)]
  have q': "vq_id q' = v" "vq_avail q' = vq_avail ?q" "vq_flags q' = vq_flags ?q" "vq_next_idx q' = vq_next_idx ?q"
    using p(3) q(1) by (auto simp: same_vq_def)
  let ?g = "vm_put ?f v q'"
  have rep: "vm_rep ?g vs" using inv q' by (intro vm_rep_put) (auto simp: vm_inv_x_def)
  have other: "vm_data ?g w = vm_data ?f w" if "w \<noteq> v" for w using that by (simp add: vm_data_def)
  have one: "\<exists>ns L. flow_inv (vq_fqman q') ns L \<and> (nr \<longrightarrow> norate (vq_fqman q') L)" using pd(1,6) q(4) by blast
  have prog: "nr \<longrightarrow> es = [] \<longrightarrow> num = 0 \<or> vq_avail ?q = 0" using pd(7) q(2,4) by (auto simp: unat_eq_0)
  show ?thesis
  proof (cases "vq_avail ?q > 0")
    case True
    have "unat (vq_avail (vm_queues ?g v)) = flow_total (vq_fqman q') + entry_bytes es" using q' q(2) pd(2) by simp
    from vm_fire_ok [OF rep v _ this] True q'
    obtain h vs' where h: "vm_queue_fire ?g v (int (entry_bytes es)) = Some h" "vm_rep h vs'" "set vs \<subseteq> set vs'"
        "set vs' \<subseteq> insert v (set vs)" "vq_avail (vm_queues h v) > 0 \<longrightarrow> v \<in> set vs'"
        "unat (vq_avail (vm_queues h v)) = flow_total (vq_fqman q')" "vm_flows h v = vq_fqman q'" "vq_id (vm_queues h v) = v"
        "\<forall>w. w \<noteq> v \<longrightarrow> vm_data h w = vm_data ?g w" by auto
    have oh: "vm_data h w = vm_data ?f w" if "w \<noteq> v" for w using h(9) other that by simp
    have "vm_one nr v (vm_queues h v)" using h(6-8) one by (simp add: vm_one_def)
    then have "vm_inv_x nr h vs' (X - {v})" using h(5) oh by (intro vm_inv_replace [OF inv v(1) h(2,3)])
    moreover have "vm_emits ?f es h"
      using v(1) oh by (rule vm_emits_replace) (use pd(3,4) q(1) h(7) in auto)
    moreover have "vm_poll_one ctx v sk num = Some (dc_set_qman ctx rng h, sk', es, int (entry_bytes es), vq_avail ?q)"
      using v(1) p(1) True q' h(1) by (simp add: vm_poll_one_def)
    ultimately show ?thesis using h(3,4) pd(5) prog True by (intro exI conjI) auto
  next
    case False
    then have z: "vq_avail ?q = 0" by (simp add: word_gt_0)
    then have "vm_one nr v (vm_queues ?g v)" using q(2) q' pd(2) one by (simp add: vm_one_def)
    then have "vm_inv_x nr ?g vs (X - {v})" using rep z q' other by (intro vm_inv_replace [OF inv v(1)]) auto
    moreover have "vm_emits ?f es ?g"
      using v(1) other by (rule vm_emits_replace) (use pd(3,4) q(1) in auto)
    moreover have "vm_poll_one ctx v sk num = Some (dc_set_qman ctx rng ?g, sk', es, int (entry_bytes es), vq_avail ?q)"
      using v(1) p(1) False q' by (simp add: vm_poll_one_def)
    ultimately show ?thesis using pd(5) prog by (intro exI conjI) auto
  qed
qed

section \<open>The loop over the VMs\<close>

text \<open>One iteration of the loop, with the rest of the loop as a parameter.\<close>

definition vm_poll_body where
  "vm_poll_body rest num ctx sk out rvq oob =
     (if \<not> (length out < num \<and> vm_head_idx (dc_vqman ctx) \<noteq> IDXLIST_INVAL) then Some (ctx, sk, out, oob)
      else if rvq = Some (vm_head_idx (dc_vqman ctx)) then Some (ctx, sk, out, oob)
      else do {
        (idx, vqman) \<leftarrow> vm_queue_pop (dc_vqman ctx);
        let ctx = dc_set_qman ctx (qt_rng (dc_qman ctx)) vqman;
        if dc_budgets ctx idx > 0 then do {
          let sk = sk\<lparr>sk_rate_limited := 0, sk_orig_num := num\<rparr>;
          (ctx, sk, out', bytes_sum, avail) \<leftarrow> vm_poll_one ctx idx sk (num - length out);
          let rvq = (if avail > 0 \<and> sk_rate_limited sk \<noteq> 0 \<and> rvq = None then Some idx else rvq);
          rest num (dc_charge ctx idx bytes_sum) sk (out @ out') rvq oob }
        else do {
          vq \<leftarrow> vm_get vqman idx;
          if vq_avail vq > 0 then do {
            c_assert (length oob < FLEXNIC_PL_VMST_NUM);
            rest num ctx sk out rvq (oob @ [idx]) }
          else rest num ctx sk out rvq oob } })"

lemma vm_poll_loop_body: "vm_poll_loop num ctx sk out rvq oob = vm_poll_body vm_poll_loop num ctx sk out rvq oob"
  unfolding vm_poll_body_def by (rule vm_poll_loop.simps)

lemma dc_vqman_simps [simp]:
  "dc_vqman (dc_set_qman ctx rng g) = g" "dc_vqman (dc_charge ctx v n) = dc_vqman ctx"
  "dc_budgets (dc_set_qman ctx rng g) = dc_budgets ctx" "dc_budgets (dc_charge ctx v n) = dc_budgets ctx"
  by (simp_all add: dc_vqman_def dc_set_qman_def dc_charge_def)

definition oob_ok :: "u32 list \<Rightarrow> u32 list \<Rightarrow> bool" where
  "oob_ok vs oob \<longleftrightarrow> distinct oob \<and> set oob \<inter> set vs = {} \<and> (\<forall>v \<in> set oob. vm_ok v)"

lemma vm_ok_card: "distinct us \<Longrightarrow> \<forall>v \<in> set us. vm_ok v \<Longrightarrow> length us \<le> FLEXNIC_PL_VMST_NUM"
proof -
  assume d: "distinct us" "\<forall>v \<in> set us. vm_ok v"
  have "inj_on unat (set us)" by (simp add: inj_on_def word_unat_eq_iff)
  then have "length us = card (unat ` set us)" using d(1) by (metis card_image distinct_card)
  also have "\<dots> \<le> card {..<FLEXNIC_PL_VMST_NUM}" using d(2) by (intro card_mono) auto
  finally show ?thesis by simp
qed

lemma vm_inv_pop:
  assumes "vm_inv_x nr f (v # vs) X"
  shows "\<exists>g. vm_queue_pop f = Some (v, g) \<and> vm_inv_x nr g vs (insert v X) \<and> vm_data g = vm_data f \<and> vm_ok v \<and> v \<notin> set vs"
proof -
  have rep: "vm_rep f (v # vs)" using assms by (simp add: vm_inv_x_def)
  obtain g where g: "vm_queue_pop f = Some (v, g)" "vm_rep g vs" "vm_data g = vm_data f" using vm_pop [OF rep] by blast
  have "vm_inv_x nr g vs (insert v X)"
    using assms g(2) vm_dataD(3) [OF g(3)] vm_one_data [OF g(3)] by (auto simp: vm_inv_x_def)
  then show ?thesis using g vm_repD(1,2) [OF rep] idx_fifo_pop(3) [of "vm_next f" "vm_head_idx f" "vm_tail_idx f" v vs] by auto
qed

lemma vm_inv_weaken:
  "vm_inv_x nr f vs X \<Longrightarrow> vq_avail (vm_queues f v) = 0 \<Longrightarrow> vm_inv_x nr f vs (X - {v})"
  by (auto simp: vm_inv_x_def)

lemma vm_poll_step:
  assumes inv: "vm_inv_x nr (dc_vqman ctx) (v # vs) (set oob)" and oob: "oob_ok (v # vs) oob"
    and out: "length out < num" and r: "rvq \<noteq> Some v"
  shows "\<exists>ctx' sk' es rvq' oob' vs'. vm_poll_body rest num ctx sk out rvq oob = rest num ctx' sk' (out @ es) rvq' oob' \<and>
    vm_inv_x nr (dc_vqman ctx') vs' (set oob') \<and> oob_ok vs' oob' \<and> vm_emits (dc_vqman ctx) es (dc_vqman ctx') \<and>
    length (out @ es) \<le> num \<and> (nr \<longrightarrow> es = [] \<longrightarrow> length vs' < length (v # vs))"
proof -
  obtain g where g: "vm_queue_pop (dc_vqman ctx) = Some (v, g)" "vm_inv_x nr g vs (insert v (set oob))"
      "vm_data g = vm_data (dc_vqman ctx)" "vm_ok v" "v \<notin> set vs"
    using vm_inv_pop [OF inv] by blast
  have v: "v \<notin> set oob" "insert v (set oob) - {v} = set oob" using oob by (auto simp: oob_ok_def)
  have hd: "vm_head_idx (dc_vqman ctx) = v" "v \<noteq> IDXLIST_INVAL"
    using inv g(4) idx_fifo_pop(1) [of "vm_next (dc_vqman ctx)" "vm_head_idx (dc_vqman ctx)" "vm_tail_idx (dc_vqman ctx)" v vs]
    by (auto simp: vm_inv_x_def vm_rep_def)
  have e0: "vm_emits (dc_vqman ctx) [] g" using vm_emits_data [OF g(3)] .
  let ?ctx = "dc_set_qman ctx (qt_rng (dc_qman ctx)) g"
  consider (poll) "dc_budgets ctx v > 0" | (oob) "\<not> dc_budgets ctx v > 0" "vq_avail (vm_queues g v) > 0"
    | (idle) "\<not> dc_budgets ctx v > 0" "vq_avail (vm_queues g v) = 0" by (auto simp: word_gt_0)
  then show ?thesis
  proof cases
    case poll
    have "vm_inv_x nr (dc_vqman ?ctx) vs (insert v (set oob))" using g(2) by simp
    from vm_poll_one_ok [OF this g(4,5), of "sk\<lparr>sk_rate_limited := 0, sk_orig_num := num\<rparr>" "num - length out"]
    obtain rng h sk' es vs' where h: "vm_poll_one ?ctx v (sk\<lparr>sk_rate_limited := 0, sk_orig_num := num\<rparr>) (num - length out) =
          Some (dc_set_qman ?ctx rng h, sk', es, int (entry_bytes es), vq_avail (vm_queues g v))"
        "vm_inv_x nr h vs' (set oob)" "vm_emits g es h" "length es \<le> num - length out" "set vs' \<subseteq> insert v (set vs)"
        "vq_avail (vm_queues g v) = 0 \<longrightarrow> vs' = vs" "nr \<longrightarrow> es = [] \<longrightarrow> num - length out = 0 \<or> vq_avail (vm_queues g v) = 0"
      unfolding v(2) by auto
    have "oob_ok vs' oob" using oob h(5) v(1) by (auto simp: oob_ok_def)
    moreover have "vm_emits (dc_vqman ctx) es h" using vm_emits_trans [OF e0 h(3)] by simp
    ultimately show ?thesis using poll out r hd g(1) h(1,2,4,6,7)
      by (intro exI [where x = "dc_charge (dc_set_qman ?ctx rng h) v (int (entry_bytes es))"] exI [where x = sk']
          exI [where x = es] exI [where x = "if vq_avail (vm_queues g v) > 0 \<and> sk_rate_limited sk' \<noteq> 0 \<and> rvq = None then Some v else rvq"]
          exI [where x = oob] exI [where x = vs']) (auto simp: vm_poll_body_def)
  next
    case oob
    have "oob_ok vs (oob @ [v])" using assms(2) g(4,5) v(1) by (auto simp: oob_ok_def)
    moreover have "length oob < FLEXNIC_PL_VMST_NUM"
      using vm_ok_card [of "v # oob"] assms(2) g(4) v(1) by (auto simp: oob_ok_def)
    ultimately show ?thesis using oob out r hd g e0
      by (intro exI [where x = ?ctx] exI [where x = sk] exI [where x = "[]"] exI [where x = rvq]
          exI [where x = "oob @ [v]"] exI [where x = vs]) (simp add: vm_poll_body_def insert_commute)
  next
    case idle
    have "oob_ok vs oob" using assms(2) by (auto simp: oob_ok_def)
    moreover have "vm_inv_x nr g vs (set oob)" using vm_inv_weaken [OF g(2) idle(2)] v(2) by simp
    ultimately show ?thesis using idle out r hd g e0
      by (intro exI [where x = ?ctx] exI [where x = sk] exI [where x = "[]"] exI [where x = rvq]
          exI [where x = oob] exI [where x = vs]) (simp add: vm_poll_body_def)
  qed
qed

lemma vm_poll_stop:
  assumes "vm_rep (dc_vqman ctx) vs" and "\<not> length out < num \<or> vs = [] \<or> rvq = Some (hd vs)"
  shows "vm_poll_body rest num ctx sk out rvq oob = Some (ctx, sk, out, oob)"
proof -
  have "vs = [] \<or> vm_head_idx (dc_vqman ctx) = hd vs"
    using assms(1) idx_fifo_pop(1) by (cases vs) (auto simp: vm_rep_def)
  then show ?thesis using assms(2) vm_head [OF assms(1)] by (auto simp: vm_poll_body_def)
qed

text \<open>
  \<open>serves nr num f out oob g out' oob'\<close>: the loop went from \<open>f\<close> to \<open>g\<close>, appended entries to \<open>out\<close>
  and left the VMs \<open>oob'\<close> off the list.
\<close>

definition serves where
  "serves nr num f out g out' oob' \<longleftrightarrow> (\<exists>es vs'. out' = out @ es \<and> vm_inv_x nr g vs' (set oob') \<and> oob_ok vs' oob' \<and>
     vm_emits f es g \<and> length out' \<le> num)"

lemma serves_refl:
  "vm_inv_x nr f vs (set oob) \<Longrightarrow> oob_ok vs oob \<Longrightarrow> length out \<le> num \<Longrightarrow> serves nr num f out f out oob"
  using vm_emits_data [of f f] by (auto simp: serves_def)

lemma serves_trans:
  "vm_emits f es g \<Longrightarrow> serves nr num g (out @ es) h out' oob' \<Longrightarrow> serves nr num f out h out' oob'"
  unfolding serves_def using vm_emits_trans by fastforce

lemma vm_poll_body_inv:
  assumes rest: "\<And>ctx sk out rvq oob r. rest num ctx sk out rvq oob = Some r \<Longrightarrow>
      \<forall>vs. vm_inv_x nr (dc_vqman ctx) vs (set oob) \<longrightarrow> oob_ok vs oob \<longrightarrow> length out \<le> num \<longrightarrow>
        (case r of (ctx', sk', out', oob') \<Rightarrow> serves nr num (dc_vqman ctx) out (dc_vqman ctx') out' oob')"
    and r: "vm_poll_body rest num ctx sk out rvq oob = Some r"
    and inv: "vm_inv_x nr (dc_vqman ctx) vs (set oob)" "oob_ok vs oob" "length out \<le> num"
  shows "case r of (ctx', sk', out', oob') \<Rightarrow> serves nr num (dc_vqman ctx) out (dc_vqman ctx') out' oob'"
proof (cases "length out < num \<and> vs \<noteq> [] \<and> rvq \<noteq> Some (hd vs)")
  case True
  then obtain v us where vs: "vs = v # us" by (cases vs) auto
  obtain ctx' sk' es rvq' oob' vs'
    where st: "vm_poll_body rest num ctx sk out rvq oob = rest num ctx' sk' (out @ es) rvq' oob'"
      "vm_inv_x nr (dc_vqman ctx') vs' (set oob')" "oob_ok vs' oob'" "vm_emits (dc_vqman ctx) es (dc_vqman ctx')"
      "length (out @ es) \<le> num"
    using vm_poll_step [of nr ctx v us oob out num rvq rest sk] inv True unfolding vs by auto
  show ?thesis using rest [of ctx' sk' "out @ es" rvq' oob' r] st r serves_trans [OF st(4)] by (fastforce split: prod.splits)
next
  case False
  then have "r = (ctx, sk, out, oob)" using vm_poll_stop [of ctx vs out num rvq rest sk oob] inv(1) r by (auto simp: vm_inv_x_def)
  then show ?thesis using serves_refl [OF inv] by simp
qed

definition loop_post where
  "loop_post nr num ctx out oob r \<longleftrightarrow> (\<forall>vs. vm_inv_x nr (dc_vqman ctx) vs (set oob) \<longrightarrow> oob_ok vs oob \<longrightarrow> length out \<le> num \<longrightarrow>
     (case r of (ctx', sk', out', oob') \<Rightarrow> serves nr num (dc_vqman ctx) out (dc_vqman ctx') out' oob'))"

lemma vm_poll_loop_inv:
  assumes "vm_poll_loop num ctx sk out rvq oob = Some (ctx', sk', out', oob')"
    and "vm_inv_x nr (dc_vqman ctx) vs (set oob)" "oob_ok vs oob" "length out \<le> num"
  shows "serves nr num (dc_vqman ctx) out (dc_vqman ctx') out' oob'"
proof -
  have body: "loop_post nr num ctx out oob r"
    if "\<And>num ctx sk out rvq oob r. rest num ctx sk out rvq oob = Some r \<Longrightarrow> loop_post nr num ctx out oob r"
      and "vm_poll_body rest num ctx sk out rvq oob = Some r" for rest num ctx sk out rvq oob r
    using that vm_poll_body_inv [of rest num nr ctx sk out rvq oob r] unfolding loop_post_def by blast
  have "loop_post nr num ctx out oob (ctx', sk', out', oob')"
    using assms(1) by (rule vm_poll_loop.raw_induct [rotated, where P = "\<lambda>num ctx sk out rvq oob r. loop_post nr num ctx out oob r"])
      (rule body [unfolded vm_poll_body_def])
  then show ?thesis using assms(2-4) by (auto simp: loop_post_def)
qed

text \<open>Without rate limits every round hands something out or takes a VM off the list.\<close>

lemma vm_poll_loop_returns:
  "vm_inv_x True (dc_vqman ctx) vs (set oob) \<Longrightarrow> oob_ok vs oob \<Longrightarrow> length out \<le> num \<Longrightarrow>
     \<exists>r. vm_poll_loop num ctx sk out rvq oob = Some r"
proof (induction "num - length out" arbitrary: ctx sk out rvq oob vs rule: less_induct)
  case (less out)
  note IH = less.hyps
  show ?case using less.prems
  proof (induction "length vs" arbitrary: ctx sk rvq oob vs rule: less_induct)
    case (less vs)
    show ?case
    proof (cases "length out < num \<and> vs \<noteq> [] \<and> rvq \<noteq> Some (hd vs)")
      case True
      then obtain v us where vs: "vs = v # us" by (cases vs) auto
      obtain ctx' sk' es rvq' oob' vs'
        where st: "vm_poll_body vm_poll_loop num ctx sk out rvq oob = vm_poll_loop num ctx' sk' (out @ es) rvq' oob'"
          "vm_inv_x True (dc_vqman ctx') vs' (set oob')" "oob_ok vs' oob'"
          "length (out @ es) \<le> num" "es = [] \<longrightarrow> length vs' < length vs"
        using vm_poll_step [of True ctx v us oob out num rvq vm_poll_loop sk] less.prems True unfolding vs by auto
      have "\<exists>r. vm_poll_loop num ctx' sk' (out @ es) rvq' oob' = Some r"
      proof (cases "es = []")
        case True
        then show ?thesis using less.hyps [of vs' ctx' oob' sk' rvq'] st by simp
      next
        case False
        then have "num - length (out @ es) < num - length out" using True by (cases es) auto
        then show ?thesis using IH st(2-4) by blast
      qed
      then show ?thesis using vm_poll_loop_body [of num ctx sk out rvq oob] st(1) by metis
    next
      case False
      then have "vm_poll_body vm_poll_loop num ctx sk out rvq oob = Some (ctx, sk, out, oob)"
        using less.prems by (intro vm_poll_stop) (auto simp: vm_inv_x_def)
      then show ?thesis using vm_poll_loop_body [of num ctx sk out rvq oob] by metis
    qed
  qed
qed

section \<open>VMs that are out of budget\<close>

lemma clear_flag:
  assumes "vm_rep f vs" and "vm_ok v" and "v \<notin> set vs"
  shows "vm_put f v ((vm_queues f v)\<lparr>vq_flags := vq_flags (vm_queues f v) AND NOT FLAG_INNOLIMITL\<rparr>) = f"
proof -
  have "vq_flags (vm_queues f v) AND NOT FLAG_INNOLIMITL = vq_flags (vm_queues f v)"
    using vm_repD(3) [OF assms(1,2)] assms(3) by simp
  then show ?thesis by (simp only: vm_put_def) simp
qed

lemma vm_inv_push:
  assumes inv: "vm_inv_x nr f vs X" and v: "vm_ok v" "v \<notin> set vs"
  shows "\<exists>g. vm_queue_activate f v = Some g \<and> vm_inv_x nr g (vs @ [v]) (X - {v}) \<and> vm_emits f [] g"
proof -
  have rep: "vm_rep f vs" using inv by (simp add: vm_inv_x_def)
  obtain g where g: "vm_queue_activate f v = Some g" "vm_rep g (vs @ [v])" "vm_data g = vm_data f"
    using vm_push [OF rep v] by blast
  have "vm_one nr v (vm_queues g v)" using vm_one_data [OF g(3)] inv v(1) by (simp add: vm_inv_x_def)
  then have "vm_inv_x nr g (vs @ [v]) (X - {v})" using g(3) by (intro vm_inv_replace [OF inv v(1) g(2)]) auto
  then show ?thesis using g(1) vm_emits_data [OF g(3)] by blast
qed

lemma vm_poll_oob_ok:
  "vm_inv_x nr (dc_vqman ctx) vs (set oob) \<Longrightarrow> oob_ok vs oob \<Longrightarrow> length out \<le> num \<Longrightarrow>
   \<exists>ctx' sk' es vs'. vm_poll_oob num e ctx sk out oob = Some (ctx', sk', out @ es) \<and>
     vm_inv_x nr (dc_vqman ctx') vs' {} \<and> vm_emits (dc_vqman ctx) es (dc_vqman ctx') \<and> length (out @ es) \<le> num"
proof (induction oob arbitrary: ctx sk out vs)
  case Nil
  then show ?case using vm_emits_data [OF refl, of "dc_vqman ctx"] by (intro exI [where x = ctx] exI [where x = sk] exI [where x = "[]"] exI [where x = vs]) auto
next
  case (Cons v oob)
  have v: "vm_ok v" "v \<notin> set vs" "v \<notin> set oob" "set (v # oob) - {v} = set oob" using Cons.prems by (auto simp: oob_ok_def)
  have rep: "vm_rep (dc_vqman ctx) vs" and id: "vq_id (vm_queues (dc_vqman ctx) v) = v"
    using Cons.prems(1) v(1) by (auto simp: vm_inv_x_def vm_one_def)
  let ?ctx = "dc_set_qman ctx (qt_rng (dc_qman ctx)) (dc_vqman ctx)"
  have c: "vm_put (dc_vqman ctx) v ((vm_queues (dc_vqman ctx) v)
      \<lparr>vq_flags := vq_flags (vm_queues (dc_vqman ctx) v) AND NOT FLAG_INNOLIMITL\<rparr>) = dc_vqman ctx"
    using clear_flag [OF rep v(1,2)] .
  have inv: "vm_inv_x nr (dc_vqman ?ctx) vs (set (v # oob))" using Cons.prems(1) by simp
  show ?case
  proof (cases "length out < num \<and> e")
    case True
    from vm_poll_one_ok [OF inv v(1,2), of "sk\<lparr>sk_rate_limited := 0\<rparr>" "num - length out"]
    obtain rng h sk' es vs' where h: "vm_poll_one ?ctx v (sk\<lparr>sk_rate_limited := 0\<rparr>) (num - length out) =
          Some (dc_set_qman ?ctx rng h, sk', es, int (entry_bytes es), vq_avail (vm_queues (dc_vqman ctx) v))"
        "vm_inv_x nr h vs' (set oob)" "vm_emits (dc_vqman ctx) es h" "length es \<le> num - length out" "set vs' \<subseteq> insert v (set vs)"
      unfolding v(4) by auto
    have "oob_ok vs' oob" using Cons.prems(2) h(5) v(3) by (auto simp: oob_ok_def)
    moreover have "length (out @ es) \<le> num" using h(4) True by auto
    ultimately obtain ctx' sk'' es' vs''
      where "vm_poll_oob num e (dc_set_qman ?ctx rng h) sk' (out @ es) oob = Some (ctx', sk'', (out @ es) @ es')"
        "vm_inv_x nr (dc_vqman ctx') vs'' {}" "vm_emits h es' (dc_vqman ctx')" "length ((out @ es) @ es') \<le> num"
      using Cons.IH [of "dc_set_qman ?ctx rng h" vs' "out @ es" sk'] h(2) by auto
    then show ?thesis using True h(1) v(1) c id vm_emits_trans [OF h(3)]
      by (intro exI [where x = ctx'] exI [where x = sk''] exI [where x = "es @ es'"] exI [where x = vs'']) (simp add: Let_def)
  next
    case False
    obtain g where g: "vm_queue_activate (dc_vqman ctx) v = Some g" "vm_inv_x nr g (vs @ [v]) (set oob)" "vm_emits (dc_vqman ctx) [] g"
      using vm_inv_push [OF Cons.prems(1) v(1,2)] unfolding v(4) by blast
    let ?ctx' = "dc_set_qman ?ctx (qt_rng (dc_qman ?ctx)) g"
    have "oob_ok (vs @ [v]) oob" using Cons.prems(2) v(3) by (auto simp: oob_ok_def)
    then obtain ctx' sk'' es' vs''
      where "vm_poll_oob num e ?ctx' sk out oob = Some (ctx', sk'', out @ es')"
        "vm_inv_x nr (dc_vqman ctx') vs'' {}" "vm_emits g es' (dc_vqman ctx')" "length (out @ es') \<le> num"
      using Cons.IH [of ?ctx' "vs @ [v]" out sk] g(2) Cons.prems(3) by auto
    then show ?thesis using False g(1) v(1) c id vm_emits_trans [OF g(3)]
      by (intro exI [where x = ctx'] exI [where x = sk''] exI [where x = "es'"] exI [where x = vs'']) (auto simp: Let_def)
  qed
qed

lemma vm_qman_poll_inv:
  assumes inv: "vm_inv_x nr (dc_vqman ctx) vs {}" and r: "vm_qman_poll ctx cur_ts sk num = Some (ctx', es)"
  shows "\<exists>vs'. vm_inv_x nr (dc_vqman ctx') vs' {} \<and> vm_emits (dc_vqman ctx) es (dc_vqman ctx') \<and> length es \<le> num"
proof -
  obtain ctx1 sk1 out1 oob sk2 where l: "vm_poll_loop num ctx (sk\<lparr>sk_cur_ts := cur_ts\<rparr>) [] None [] = Some (ctx1, sk1, out1, oob)"
    and o: "vm_poll_oob num (out1 = []) ctx1 sk1 out1 oob = Some (ctx', sk2, es)"
    using r by (auto simp: vm_qman_poll_def)
  have "serves nr num (dc_vqman ctx) [] (dc_vqman ctx1) out1 oob"
    using l inv by (intro vm_poll_loop_inv [where vs = vs]) (auto simp: oob_ok_def)
  then obtain vs1 where s: "vm_inv_x nr (dc_vqman ctx1) vs1 (set oob)" "oob_ok vs1 oob" "vm_emits (dc_vqman ctx) out1 (dc_vqman ctx1)"
      "length out1 \<le> num" by (auto simp: serves_def)
  then show ?thesis using vm_poll_oob_ok [OF s(1,2,4), of "out1 = []" sk1] o vm_emits_trans [OF s(3)] by auto
qed

lemma vm_qman_poll_returns:
  assumes "vm_inv_x True (dc_vqman ctx) vs {}"
  shows "\<exists>r. vm_qman_poll ctx cur_ts sk num = Some r"
proof -
  obtain ctx1 sk1 out1 oob where l: "vm_poll_loop num ctx (sk\<lparr>sk_cur_ts := cur_ts\<rparr>) [] None [] = Some (ctx1, sk1, out1, oob)"
    using vm_poll_loop_returns [of ctx vs "[]" "[]" num "sk\<lparr>sk_cur_ts := cur_ts\<rparr>" None] assms by (auto simp: oob_ok_def)
  have "serves True num (dc_vqman ctx) [] (dc_vqman ctx1) out1 oob"
    using l assms by (intro vm_poll_loop_inv [where vs = vs]) (auto simp: oob_ok_def)
  then obtain vs1 where s: "vm_inv_x True (dc_vqman ctx1) vs1 (set oob)" "oob_ok vs1 oob" "length out1 \<le> num" by (auto simp: serves_def)
  then show ?thesis using vm_poll_oob_ok [OF s, of "out1 = []" sk1] l by (auto simp: vm_qman_poll_def)
qed

section \<open>Setting a flow\<close>

text \<open>The new counter of a flow.\<close>

definition set_avail :: "u8 \<Rightarrow> u32 \<Rightarrow> u32 \<Rightarrow> u32" where
  "set_avail flags old avail =
     (if flags AND QMAN_SET_AVAIL \<noteq> 0 then avail else if flags AND QMAN_ADD_AVAIL \<noteq> 0 then old + avail else old)"

definition set_queue :: "flow_queue \<Rightarrow> u32 \<Rightarrow> u32 \<Rightarrow> u16 \<Rightarrow> u8 \<Rightarrow> flow_queue" where
  "set_queue q rate avail max_chunk flags =
     q\<lparr>fq_rate := if flags AND QMAN_SET_RATE \<noteq> 0 then rate else fq_rate q,
       fq_max_chunk := if flags AND QMAN_SET_MAXCHUNK \<noteq> 0 then max_chunk else fq_max_chunk q,
       fq_avail := set_avail flags (fq_avail q) avail\<rparr>"

lemma flow_set_impl_eq:
  assumes "fq_ok i"
  shows "flow_set_impl rng t f i rate avail max_chunk flags =
    (let q = set_queue (fm_queues f i) rate avail max_chunk flags in
     if (flags AND QMAN_SET_AVAIL \<noteq> 0 \<or> flags AND QMAN_ADD_AVAIL \<noteq> 0) \<and> fq_avail q > 0 \<and>
        fq_flags q AND (FLAG_INSKIPLIST OR FLAG_INNOLIMITL) = 0
     then flow_queue_activate rng t (fq_put f i q) i else Some (rng, fq_put f i q))"
  unfolding flow_set_impl_def set_queue_def set_avail_def fq_get_Some [OF assms]
  by (cases "flags AND QMAN_SET_RATE = 0"; cases "flags AND QMAN_SET_MAXCHUNK = 0";
      cases "flags AND QMAN_SET_AVAIL = 0"; cases "flags AND QMAN_ADD_AVAIL = 0"; simp add: Let_def)

lemma flow_set_ok:
  assumes inv: "flow_inv f ns L" and i: "fq_ok i"
  shows "\<exists>rng' g ns' L'. flow_set_impl rng t f i rate avail max_chunk flags = Some (rng', g) \<and> flow_inv g ns' L' \<and>
    flow_avail g = (flow_avail f)(i := unat (set_avail flags (fq_avail (fm_queues f i)) avail)) \<and>
    fq_data g = (fq_data f)(i := fq_data (fq_put f i (set_queue (fm_queues f i) rate avail max_chunk flags)) i)"
proof -
  let ?q = "set_queue (fm_queues f i) rate avail max_chunk flags"
  let ?f = "fq_put f i ?q"
  let ?act = "(flags AND QMAN_SET_AVAIL \<noteq> 0 \<or> flags AND QMAN_ADD_AVAIL \<noteq> 0) \<and> fq_avail ?q > 0 \<and>
        fq_flags ?q AND (FLAG_INSKIPLIST OR FLAG_INNOLIMITL) = 0"
  have rep: "flow_rep ?f ns L" using inv by (intro flow_rep_put) (auto simp: flow_inv_def set_queue_def)
  have av: "flow_avail ?f = (flow_avail f)(i := unat (set_avail flags (fq_avail (fm_queues f i)) avail))"
    by (simp add: set_queue_def)
  have da: "fq_data ?f = (fq_data f)(i := fq_data ?f i)" by (auto simp: fq_data_def)
  have fl: "fq_flags ?q = list_flags ns L i" using flow_repD(6) [OF rep i] by simp
  show ?thesis
  proof (cases ?act)
    case True
    then have "i \<notin> set ns" "i \<notin> set (L 0)" using fl by (auto simp: list_flags_def split: if_splits)
    then obtain rng' g ns' L' where g: "flow_queue_activate rng t ?f i = Some (rng', g)" "flow_rep g ns' L'"
        "set ns' \<union> set (L' 0) = insert i (set ns \<union> set (L 0))" "fq_data g = fq_data ?f"
      using activate_ok [OF rep i] by blast
    have "flow_inv g ns' L'" using g(2,3) inv unfolding flow_inv_def flow_avail_data [OF g(4)] av
      by (auto split: if_splits)
    moreover have "flow_set_impl rng t f i rate avail max_chunk flags = Some (rng', g)"
      unfolding flow_set_impl_eq [OF i] Let_def using True g(1) by (simp only: if_P)
    ultimately show ?thesis using trans [OF flow_avail_data [OF g(4)] av] trans [OF g(4) da] by blast
  next
    case False
    have "i \<in> set ns \<union> set (L 0)" if "flow_avail ?f i > 0"
    proof (rule ccontr)
      assume n: "i \<notin> set ns \<union> set (L 0)"
      then have "fq_flags ?q = 0" using fl by simp
      with False that have "flags AND QMAN_SET_AVAIL = 0" "flags AND QMAN_ADD_AVAIL = 0"
        by (auto simp: unat_gt_0 word_gt_0 set_queue_def)
      then have "flow_avail f i > 0" using that by (simp add: set_queue_def set_avail_def flow_avail_def)
      with inv i n show False by (auto simp: flow_inv_def)
    qed
    then have "flow_inv ?f ns L" using rep inv unfolding flow_inv_def av by (auto split: if_splits)
    moreover have "flow_set_impl rng t f i rate avail max_chunk flags = Some (rng, ?f)"
      unfolding flow_set_impl_eq [OF i] Let_def using False by (rule if_not_P)
    ultimately show ?thesis using av da by blast
  qed
qed

text \<open>The counters of the VM do not wrap around.\<close>

definition set_fits :: "flow_qman \<Rightarrow> u32 \<Rightarrow> u32 \<Rightarrow> u8 \<Rightarrow> bool" where
  "set_fits f i avail flags \<longleftrightarrow>
     (if flags AND QMAN_SET_AVAIL \<noteq> 0 then flow_total f - flow_avail f i + unat avail < 2 ^ 32
      else if flags AND QMAN_ADD_AVAIL \<noteq> 0 then flow_total f + unat avail < 2 ^ 32 else True)"

lemma set_total:
  assumes "fq_ok i" and "set_fits f i avail flags"
    and g: "flow_avail g = (flow_avail f)(i := unat (set_avail flags (fq_avail (fm_queues f i)) avail))"
    and a: "unat a = flow_total f"
  shows "unat (if flags AND QMAN_SET_AVAIL \<noteq> 0 then a - fq_avail (fm_queues f i) + avail
      else if flags AND QMAN_ADD_AVAIL \<noteq> 0 then a + avail else a) = flow_total g"
proof -
  let ?o = "fq_avail (fm_queues f i)"
  have le: "unat ?o \<le> unat a" using flow_avail_le_total [OF assms(1), of f] a by (simp add: flow_avail_def)
  note tot = flow_total_upd [OF assms(1) g]
  consider "flags AND QMAN_SET_AVAIL \<noteq> 0" | "flags AND QMAN_SET_AVAIL = 0" "flags AND QMAN_ADD_AVAIL \<noteq> 0"
    | "flags AND QMAN_SET_AVAIL = 0" "flags AND QMAN_ADD_AVAIL = 0" by blast
  then show ?thesis
  proof cases
    case 1
    have "unat (a - ?o) = unat a - unat ?o" using le by (intro unat_sub) (simp add: word_le_nat_alt)
    then have "unat (a - ?o + avail) = unat a - unat ?o + unat avail"
      using assms(2) 1 a by (intro trans [OF unat_add_no_wrap]) (auto simp: set_fits_def flow_avail_def)
    then show ?thesis using 1 tot a le by (simp add: set_avail_def flow_avail_def)
  next
    case 2
    have "unat a + unat avail < 2 ^ 32" using assms(2) 2 a by (simp add: set_fits_def)
    then have "unat (a + avail) = unat a + unat avail" "unat (?o + avail) = unat ?o + unat avail"
      using le by (simp_all add: unat_add_no_wrap)
    then show ?thesis using 2 tot a by (simp add: set_avail_def flow_avail_def)
  next
    case 3
    then show ?thesis using tot a by (simp add: set_avail_def flow_avail_def)
  qed
qed

lemma vm_set_impl_ok:
  assumes rep: "vm_rep f vs" and v: "vm_ok v" and i: "fq_ok i"
    and a: "a = (if flags AND QMAN_SET_AVAIL \<noteq> 0 then vq_avail (vm_queues f v) - fq_avail (fm_queues (vm_flows f v) i) + avail
      else if flags AND QMAN_ADD_AVAIL \<noteq> 0 then vq_avail (vm_queues f v) + avail else vq_avail (vm_queues f v))"
    and vs: "vq_avail (vm_queues f v) > 0 \<longrightarrow> v \<in> set vs"
  shows "\<exists>g vs'. vm_set_impl f v i avail flags = Some g \<and> vm_rep g vs' \<and> set vs \<subseteq> set vs' \<and> (a > 0 \<longrightarrow> v \<in> set vs') \<and>
    vm_data g = vm_data (vm_put f v ((vm_queues f v)\<lparr>vq_avail := a\<rparr>))"
proof -
  let ?q = "vm_queues f v"
  let ?g = "vm_put f v (?q\<lparr>vq_avail := a\<rparr>)"
  let ?act = "(flags AND QMAN_SET_AVAIL \<noteq> 0 \<or> flags AND QMAN_ADD_AVAIL \<noteq> 0) \<and> a > 0 \<and> vq_flags ?q AND FLAG_INNOLIMITL = 0"
  have eq: "vm_set_impl f v i avail flags = (if ?act then vm_queue_activate ?g v else Some ?g)"
    using v i by (cases "flags AND QMAN_SET_AVAIL = 0"; cases "flags AND QMAN_ADD_AVAIL = 0"; simp add: vm_set_impl_def a Let_def)
  have rep1: "vm_rep ?g vs" using rep by (rule vm_rep_put) simp_all
  have fl: "vq_flags ?q = (if v \<in> set vs then FLAG_INNOLIMITL else 0)" using vm_repD(3) [OF rep v] .
  show ?thesis
  proof (cases ?act)
    case True
    then have "v \<notin> set vs" using fl by (auto simp: qman_flags)
    then obtain h where h: "vm_queue_activate ?g v = Some h" "vm_rep h (vs @ [v])" "vm_data h = vm_data ?g"
      using vm_push [OF rep1 v] by blast
    have "vm_set_impl f v i avail flags = Some h" unfolding eq if_P [OF True] by (rule h(1))
    moreover have "set vs \<subseteq> set (vs @ [v])" "v \<in> set (vs @ [v])" by auto
    ultimately show ?thesis using h(2,3) by (intro exI [where x = h] exI [where x = "vs @ [v]"] conjI impI)
  next
    case False
    have "a > 0 \<longrightarrow> v \<in> set vs"
    proof (cases "flags AND QMAN_SET_AVAIL \<noteq> 0 \<or> flags AND QMAN_ADD_AVAIL \<noteq> 0")
      case True
      then show ?thesis using False fl by (cases "v \<in> set vs") simp_all
    next
      case False
      then have "a = vq_avail ?q" using a by simp
      then show ?thesis using vs by simp
    qed
    moreover have "vm_set_impl f v i avail flags = Some ?g" unfolding eq if_not_P [OF False] ..
    ultimately show ?thesis using rep1 by (intro exI [where x = ?g] exI [where x = vs] conjI order_refl refl)
  qed
qed

lemma tas_qman_set_ok:
  assumes inv: "vm_inv (qt_vqman t) vs" and v: "vm_ok v" and i: "fq_ok i"
    and fits: "set_fits (vm_flows (qt_vqman t) v) i avail flags"
  shows "\<exists>t' vs'. tas_qman_set t v i rate avail max_chunk flags = Some (0, t') \<and> vm_inv (qt_vqman t') vs' \<and>
    (\<forall>w. w \<noteq> v \<longrightarrow> vm_flows (qt_vqman t') w = vm_flows (qt_vqman t) w) \<and>
    fq_data (vm_flows (qt_vqman t') v) = (fq_data (vm_flows (qt_vqman t) v))
      (i := fq_data (fq_put (vm_flows (qt_vqman t) v) i
        (set_queue (fm_queues (vm_flows (qt_vqman t) v) i) rate avail max_chunk flags)) i)"
proof -
  let ?f = "qt_vqman t"
  let ?q = "vm_queues ?f v"
  have rep: "vm_rep ?f vs" and one: "vm_one False v ?q" and lst: "vq_avail ?q > 0 \<longrightarrow> v \<in> set vs"
    using inv v by (auto simp: vm_inv_def vm_inv_x_def)
  obtain ns L where q: "vq_id ?q = v" "unat (vq_avail ?q) = flow_total (vq_fqman ?q)" "flow_inv (vq_fqman ?q) ns L"
    using one by (auto simp: vm_one_def)
  define a where "a = (if flags AND QMAN_SET_AVAIL \<noteq> 0 then vq_avail ?q - fq_avail (fm_queues (vq_fqman ?q) i) + avail
      else if flags AND QMAN_ADD_AVAIL \<noteq> 0 then vq_avail ?q + avail else vq_avail ?q)"
  obtain g vs' where g: "vm_set_impl ?f v i avail flags = Some g" "vm_rep g vs'" "set vs \<subseteq> set vs'" "a > 0 \<longrightarrow> v \<in> set vs'"
      "vm_data g = vm_data (vm_put ?f v (?q\<lparr>vq_avail := a\<rparr>))"
    using vm_set_impl_ok [OF rep v i a_def lst] by blast
  have gv: "vq_id (vm_queues g v) = v" "vq_fqman (vm_queues g v) = vq_fqman ?q" "vq_avail (vm_queues g v) = a"
    using vm_dataD [OF g(5), of v] q(1) by auto
  obtain rng h ns' L' where h: "flow_set_impl (qt_rng t) (vq_ts_virtual (vm_queues g v)) (vq_fqman ?q) i rate avail max_chunk flags
        = Some (rng, h)" "flow_inv h ns' L'"
      "flow_avail h = (flow_avail (vq_fqman ?q))(i := unat (set_avail flags (fq_avail (fm_queues (vq_fqman ?q) i)) avail))"
      "fq_data h = (fq_data (vq_fqman ?q))(i := fq_data (fq_put (vq_fqman ?q) i
        (set_queue (fm_queues (vq_fqman ?q) i) rate avail max_chunk flags)) i)"
    using flow_set_ok [OF q(3) i] by blast
  let ?g = "vm_put g v ((vm_queues g v)\<lparr>vq_fqman := h\<rparr>)"
  have "tas_qman_set t v i rate avail max_chunk flags = Some (0, t\<lparr>qt_rng := rng, qt_vqman := ?g\<rparr>)"
    using v i g(1) h(1) gv by (simp add: tas_qman_set_def vm_qman_set_def flow_qman_set_def)
  moreover have "vm_inv ?g vs'"
  proof -
    have "vm_one False v (vm_queues ?g v)"
      using gv h(2) set_total [OF i fits h(3) q(2)] by (auto simp: vm_one_def a_def)
    moreover have "vm_data ?g w = vm_data ?f w" if "w \<noteq> v" for w
      using fun_cong [OF g(5), of w] that by (simp add: vm_data_def)
    moreover have "vm_rep ?g vs'" using g(2) by (rule vm_rep_put) simp_all
    ultimately have "vm_inv_x False ?g vs' ({} - {v})"
      using g(3,4) gv(3) inv v unfolding vm_inv_def by (intro vm_inv_replace) auto
    then show ?thesis by (simp add: vm_inv_def)
  qed
  moreover have "vm_flows ?g w = vm_flows ?f w" if "w \<noteq> v" for w
    using vm_dataD(2) [OF g(5), of w] that by simp
  ultimately show ?thesis using h(4) by (intro exI [where x = "t\<lparr>qt_rng := rng, qt_vqman := ?g\<rparr>"] exI [where x = vs']) simp
qed

end
