(* ===== verification/Qman_Time.thy ===== *)
theory Qman_Time
  imports Qman_Inv
begin

text \<open>
  Virtual time in the queue manager: \<open>rel_time\<close> is the signed distance of two 32-bit times, and the
  skip list is kept sorted by it, so that its head is the flow that is due first.
\<close>

section \<open>Signed distances\<close>

lemma sint_of_int64: "- (2 ^ 63) \<le> k \<Longrightarrow> k < 2 ^ 63 \<Longrightarrow> sint (of_int k :: u64) = k"
  by (simp add: signed_of_int signed_take_bit_int_eq_self)

lemma sint_diff32:
  fixes a c :: u32
  shows "sint (a - c) = (let d = uint a - uint c in if d < - (2 ^ 31) then d + 2 ^ 32 else if 2 ^ 31 \<le> d then d - 2 ^ 32 else d)"
proof -
  define d where "d = uint a - uint c"
  have "0 \<le> uint a" "uint a < 2 ^ 32" "0 \<le> uint c" "uint c < 2 ^ 32" using uint_lt2p [of a] uint_lt2p [of c] by simp_all
  then have b: "- (2 ^ 32) < d" "d < 2 ^ 32" unfolding d_def by linarith+
  have "a - c = of_int d" by (simp add: d_def)
  then have "sint (a - c) = signed_take_bit 31 d" by (simp add: signed_of_int)
  also have "\<dots> = (d + 2 ^ 31) mod 2 ^ 32 - 2 ^ 31" by (simp add: signed_take_bit_eq_take_bit_shift take_bit_eq_mod)
  also have "\<dots> = (if d < - (2 ^ 31) then d + 2 ^ 32 else if 2 ^ 31 \<le> d then d - 2 ^ 32 else d)"
  proof -
    consider "d < - (2 ^ 31)" | "2 ^ 31 \<le> d" | "- (2 ^ 31) \<le> d" "d < 2 ^ 31" by linarith
    then show ?thesis
    proof cases
      case 1
      then have "(d + 2 ^ 31) mod 2 ^ 32 = d + 2 ^ 31 + 2 ^ 32"
        using mod_add_self2 [of "d + 2 ^ 31" "2 ^ 32"] mod_pos_pos_trivial [of "d + 2 ^ 31 + 2 ^ 32" "2 ^ 32"] b by simp
      then show ?thesis using 1 by simp
    next
      case 2
      have "(d + 2 ^ 31) mod 2 ^ 32 = (d + 2 ^ 31 - 2 ^ 32) mod 2 ^ 32" using minus_mod_self2 [of "d + 2 ^ 31" "2 ^ 32"] by simp
      then show ?thesis using 2 b by simp
    next
      case 3
      then show ?thesis by simp
    qed
  qed
  finally show ?thesis by (simp add: d_def Let_def)
qed


lemma of_int64_less:
  assumes "0 \<le> j" "j < 2 ^ 64" "0 \<le> k" "k < 2 ^ 64"
  shows "(of_int j :: u64) < of_int k \<longleftrightarrow> j < k" "(of_int j :: u64) \<le> of_int k \<longleftrightarrow> j \<le> k" "(of_int j :: u64) = of_int k \<longleftrightarrow> j = k"
  using assms by (simp_all add: word_less_def word_le_def word_uint_eq_iff unsigned_of_int take_bit_int_eq_self)

lemma and_low32:
  assumes "(k :: int) mod 2 ^ 32 = r"
  shows "(of_int k AND 0xFFFFFFFF :: u64) = of_int r"
proof -
  have "(0xFFFFFFFF :: u64) = mask 32" by (simp add: mask_eq_exp_minus_1)
  then have "(of_int k AND 0xFFFFFFFF :: u64) = take_bit 32 (of_int k)" by (simp only: take_bit_eq_mask)
  also have "\<dots> = of_int (take_bit 32 k)" by (simp only: take_bit_of_int)
  finally show ?thesis using assms by (simp only: take_bit_eq_mod)
qed

lemma rel_time_eq:
  "rel_time cur ts = (if cur > 2 ^ 31 \<and> ts - cur = 2 ^ 31 then 2 ^ 31 else sint (ts - cur))"
proof -
  define a c where "a = uint ts" and "c = uint cur"
  have b: "0 \<le> a" "a < 2 ^ 32" "0 \<le> c" "c < 2 ^ 32" using uint_lt2p [of ts] uint_lt2p [of cur] by (simp_all add: a_def c_def)
  have w: "(ucast ts :: u64) = of_int a" "(ucast cur :: u64) = of_int c" by (simp_all add: a_def c_def)
  have gt: "cur > 2 ^ 31 \<longleftrightarrow> c > 2 ^ 31" by (simp add: word_less_def c_def)
  have d: "sint (ts - cur) = (if a - c < - (2 ^ 31) then a - c + 2 ^ 32 else if 2 ^ 31 \<le> a - c then a - c - 2 ^ 32 else a - c)"
    by (simp add: sint_diff32 a_def c_def Let_def)
  have "sint (2 ^ 31 :: u32) = - (2 ^ 31)" by simp
  then have "ts - cur = 2 ^ 31 \<longleftrightarrow> sint (ts - cur) = - (2 ^ 31)" using signed_word_eqI by metis
  then have anti: "ts - cur = 2 ^ 31 \<longleftrightarrow> a - c = 2 ^ 31 \<or> a - c = - (2 ^ 31)"
    unfolding d using b by auto
  have m: "(push_bit 31 1 :: u64) = of_int (2 ^ 31)" "(push_bit 32 1 :: u64) = of_int (2 ^ 32)" by simp_all
  have z: "(0 :: u64) = of_int 0" by simp
  have s: "sint (of_int a - of_int c :: u64) = a - c"
    unfolding of_int_diff [symmetric] using b by (subst sint_of_int64) auto
  have mid1: "(of_int c :: u64) < of_int (2 ^ 31) \<longleftrightarrow> c < 2 ^ 31" by (rule of_int64_less(1)) (use b in simp_all)
  have mid2: "(of_int c :: u64) = of_int (2 ^ 31) \<longleftrightarrow> c = 2 ^ 31" by (rule of_int64_less(3)) (use b in simp_all)
  consider "c < 2 ^ 31" | "c = 2 ^ 31" | "c > 2 ^ 31" by linarith
  then show ?thesis
  proof cases
    case 1
    then have "(c - 2 ^ 31) mod 2 ^ 32 = c + 2 ^ 31"
      using mod_add_self2 [of "c - 2 ^ 31" "2 ^ 32"] mod_pos_pos_trivial [of "c - 2 ^ 31 + 2 ^ 32" "2 ^ 32"] b by simp
    then have st: "((of_int c - of_int (2 ^ 31)) AND 0xFFFFFFFF :: u64) = of_int (c + 2 ^ 31)"
      unfolding of_int_diff [symmetric] by (rule and_low32)
    have e: "(of_int (c + 2 ^ 31) :: u64) \<le> of_int a \<longleftrightarrow> c + 2 ^ 31 \<le> a" by (rule of_int64_less(2)) (use b 1 in simp_all)
    have e2: "(of_int a :: u64) < of_int (2 ^ 32) \<longleftrightarrow> a < 2 ^ 32" by (rule of_int64_less(1)) (use b 1 in simp_all)
    have s1: "sint (of_int a - of_int (c + 2 ^ 31) - of_int (2 ^ 31) :: u64) = a - (c + 2 ^ 31) - 2 ^ 31"
      unfolding of_int_diff [symmetric] using b 1 by (subst sint_of_int64) auto
    show ?thesis unfolding rel_time_def Let_def w m st d gt e e2 s s1 mid1 mid2 using 1 b by auto
  next
    case 2
    then show ?thesis using b unfolding rel_time_def Let_def w m d gt s mid1 mid2 by auto
  next
    case 3
    then have "(c + 2 ^ 31) mod 2 ^ 32 = c - 2 ^ 31"
      using minus_mod_self2 [of "c + 2 ^ 31" "2 ^ 32"] mod_pos_pos_trivial [of "c + 2 ^ 31 - 2 ^ 32" "2 ^ 32"] b by simp
    then have st: "((of_int c + of_int (2 ^ 31)) AND 0xFFFFFFFF :: u64) = of_int (c - 2 ^ 31)"
      unfolding of_int_add [symmetric] by (rule and_low32)
    have "of_int (c - 2 ^ 31) + 1 = (of_int (c - 2 ^ 31 + 1) :: u64)" by simp
    then have e: "(of_int a :: u64) < of_int (c - 2 ^ 31) + 1 \<longleftrightarrow> a < c - 2 ^ 31 + 1"
      using b 3 of_int64_less(1) [of a "c - 2 ^ 31 + 1"] by (simp del: of_int_add of_int_diff)
    have s1: "sint (of_int a + (of_int (2 ^ 32) - of_int c) :: u64) = a + (2 ^ 32 - c)"
      unfolding of_int_diff [symmetric] of_int_add [symmetric] using b 3 by (subst sint_of_int64) auto
    show ?thesis unfolding rel_time_def Let_def w m st d gt anti e s s1 mid1 mid2 using 3 b by auto
  qed
qed


lemma rel_time_window:
  assumes "uint (x - t) < 2 ^ 31"
  shows "rel_time t x = uint (x - t)"
proof -
  have "x - t \<noteq> 2 ^ 31" using assms by auto
  moreover have "sint (x - t) = uint (x - t)"
    unfolding sint_uint using assms
    by (intro signed_take_bit_int_eq_self) (auto intro: order_trans [OF _ uint_ge_0])
  ultimately show ?thesis by (simp add: rel_time_eq)
qed

lemma rel_time_pos:
  assumes "0 < rel_time t x" and "rel_time t x < 2 ^ 31"
  shows "uint (x - t) < 2 ^ 31"
proof -
  have "0 < sint (x - t)" using assms by (auto simp: rel_time_eq split: if_splits)
  moreover have "uint (x - t) < 2 ^ 32" using uint_lt2p [of "x - t"] by simp
  ultimately show ?thesis using sint_diff32 [of "x - t" 0] by (simp add: Let_def split: if_splits)
qed

lemma timestamp_lessthaneq_window:
  assumes "uint (a - t) < 2 ^ 31" and "uint (b - t) < 2 ^ 31"
  shows "timestamp_lessthaneq t a b \<longleftrightarrow> uint (a - t) \<le> uint (b - t)"
  using assms by (simp add: timestamp_lessthaneq_def rel_time_window)

section \<open>The skip list is sorted\<close>

text \<open>How long after the virtual time \<open>t\<close> a flow is due, and a list in that order, in a window of half the range.\<close>

definition due_in :: "flow_qman \<Rightarrow> u32 \<Rightarrow> u32 \<Rightarrow> int" where
  "due_in f t i = uint (fq_next_ts (fm_queues f i) - t)"

definition due_sorted :: "flow_qman \<Rightarrow> u32 \<Rightarrow> u32 list \<Rightarrow> bool" where
  "due_sorted f t xs \<longleftrightarrow> sorted (map (due_in f t) xs) \<and> (\<forall>i \<in> set xs. due_in f t i < 2 ^ 31)"

lemma skip_split_sorted:
  assumes "skip_split p xs pred A B" and "sorted (map k xs)" and "\<And>i. i \<in> set xs \<Longrightarrow> p i \<longleftrightarrow> k i \<le> (b :: int)"
  shows "A = takeWhile (\<lambda>i. k i \<le> b) xs \<and> B = dropWhile (\<lambda>i. k i \<le> b) xs"
proof -
  have xs: "xs = A @ B" using assms(1) by (simp add: skip_split_def)
  have a: "k i \<le> b" if "i \<in> set A" for i
  proof -
    have A: "A = butlast A @ [last A]" using that by (cases A) auto
    have "A \<noteq> []" using that by auto
    then have "k (last A) \<le> b" using assms(1,3) xs by (auto simp: skip_split_def)
    moreover have "sorted (map k (butlast A @ [last A]))" using assms(2) xs A by (metis map_append sorted_append)
    then have "\<forall>j \<in> set (butlast A). k j \<le> k (last A)" by (simp add: sorted_append)
    moreover have "i \<in> set (butlast A) \<or> i = last A" using that A by (metis UnE empty_iff insertE list.set set_append)
    ultimately show ?thesis by force
  qed
  have b: "\<not> k (hd B) \<le> b" if "B \<noteq> []" using assms(1,3) xs that by (auto simp: skip_split_def)
  show ?thesis
  proof (cases B)
    case Nil
    then show ?thesis using xs a by (simp add: takeWhile_eq_all_conv [THEN iffD2] dropWhile_eq_Nil_conv [THEN iffD2])
  next
    case (Cons c C)
    then show ?thesis using xs a b by (simp add: takeWhile_append2 dropWhile_append2)
  qed
qed

lemma due_sorted_Cons:
  "due_sorted f t (x # xs) \<longleftrightarrow> (\<forall>i \<in> set xs. due_in f t x \<le> due_in f t i) \<and> due_in f t x < 2 ^ 31 \<and> due_sorted f t xs"
  by (auto simp: due_sorted_def)

lemma due_sorted_insert:
  assumes "due_sorted f t xs" and "\<And>i. i \<in> set xs \<Longrightarrow> due_in g t i = due_in f t i" and "due_in g t y = b" and "b < 2 ^ 31"
  shows "due_sorted g t (takeWhile (\<lambda>i. due_in f t i \<le> b) xs @ y # dropWhile (\<lambda>i. due_in f t i \<le> b) xs)"
  using assms
proof (induction xs)
  case (Cons x xs)
  let ?ys = "takeWhile (\<lambda>i. due_in f t i \<le> b) xs @ y # dropWhile (\<lambda>i. due_in f t i \<le> b) xs"
  have IH: "due_sorted g t ?ys" using Cons by (auto simp: due_sorted_def)
  have x: "\<forall>i \<in> set xs. due_in g t x \<le> due_in g t i" "due_in g t x < 2 ^ 31" "due_in g t x = due_in f t x"
    using Cons.prems by (auto simp: due_sorted_def)
  show ?case
  proof (cases "due_in f t x \<le> b")
    case True
    have "set ?ys = insert y (set xs)"
      by (metis list.simps(15) set_append Un_insert_right takeWhile_dropWhile_id)
    then have "\<forall>i \<in> set ?ys. due_in g t x \<le> due_in g t i" using x True assms(3) by auto
    then have "due_sorted g t (x # ?ys)" using IH x(2) unfolding due_sorted_Cons by blast
    then show ?thesis using True by simp
  next
    case False
    have "due_sorted g t (x # xs)" using Cons.prems by (simp add: due_sorted_def cong: map_cong)
    moreover have "\<forall>i \<in> set (x # xs). b \<le> due_in g t i" using False x by auto
    ultimately have "due_sorted g t (y # x # xs)" using assms(3,4) by (simp add: due_sorted_def)
    then show ?thesis using False by simp
  qed
qed (simp add: due_sorted_def)

text \<open>Between polls the virtual time moves forward at most to the time of the head.\<close>

lemma due_sorted_advance:
  assumes "due_sorted f t xs" and "\<And>i. i \<in> set xs \<Longrightarrow> uint (t' - t) \<le> due_in f t i"
  shows "due_sorted f t' xs"
proof -
  have eq: "due_in f t' i = due_in f t i - uint (t' - t)" if "i \<in> set xs" for i
  proof -
    let ?x = "fq_next_ts (fm_queues f i)"
    have "?x - t' = (?x - t) - (t' - t)" by simp
    moreover have "t' - t \<le> ?x - t" using assms(2) [OF that] by (simp add: due_in_def word_le_def)
    ultimately show ?thesis unfolding due_in_def by (metis uint_minus_simple_alt)
  qed
  have "due_in f t' i < 2 ^ 31" if "i \<in> set xs" for i
  proof -
    have "0 \<le> uint (t' - t)" "due_in f t i < 2 ^ 31" using assms(1) that by (simp_all add: due_sorted_def)
    then show ?thesis unfolding eq [OF that] by linarith
  qed
  then show ?thesis using assms(1) eq unfolding due_sorted_def by (auto simp: sorted_iff_nth_mono)
qed

text \<open>The time that a full chunk takes at the flow's rate, in nanoseconds.\<close>

definition chunk_time :: "flow_queue \<Rightarrow> nat" where
  "chunk_time q = unat (fq_max_chunk q) * 8000000 div unat (fq_rate q)"

lemma new_ts_chunk:
  assumes "fq_rate q \<noteq> 0" and "chunk_time q < 2 ^ 31"
  shows "flow_queue_new_ts t q (ucast (fq_max_chunk q)) = Some (t + of_nat (chunk_time q))"
proof -
  let ?n = "ucast (ucast (fq_max_chunk q) :: u32) * 8 * 1000000 :: u64"
  have n: "unat ?n = unat (fq_max_chunk q) * 8000000"
    using unat_lt_u16 [of "fq_max_chunk q"] by (simp add: unat_word_ariths del: unat_lt_u16)
  have "unat (?n div ucast (fq_rate q)) = chunk_time q" unfolding unat_div n by (simp add: chunk_time_def)
  then have "?n div ucast (fq_rate q) = of_nat (chunk_time q)" by (metis of_nat_unat ucast_id)
  moreover have "(ucast (of_nat (chunk_time q) :: u64) :: u32) = of_nat (chunk_time q)"
    using assms(2) by (intro ucast_of_nat_small) simp
  ultimately show ?thesis using assms(1) by (simp add: flow_queue_new_ts_def)
qed

lemma clamp_window:
  assumes "fq_rate q \<noteq> 0" and "chunk_time q < 2 ^ 31"
  shows "\<exists>ts. clamp_next_ts t q = Some ts \<and> uint (ts - t) < 2 ^ 31"
proof -
  let ?m = "t + of_nat (chunk_time q)"
  have m: "uint (?m - t) < 2 ^ 31" using assms(2) by (simp add: unsigned_of_nat take_bit_nat_eq_self)
  have "uint (fq_next_ts q - t) < 2 ^ 31" if "\<not> timestamp_lessthaneq t (fq_next_ts q) t" "timestamp_lessthaneq t (fq_next_ts q) ?m"
  proof -
    have "0 < rel_time t (fq_next_ts q)" using that(1) by (simp add: timestamp_lessthaneq_def rel_time_window [of t t])
    moreover have "rel_time t (fq_next_ts q) < 2 ^ 31"
      using that(2) m unfolding timestamp_lessthaneq_def rel_time_window [OF m] by simp
    ultimately show ?thesis by (rule rel_time_pos)
  qed
  then show ?thesis using m new_ts_chunk [OF assms, of t] by (simp add: clamp_next_ts_def)
qed

lemma skiplist_push_sorted:
  assumes rep: "flow_rep f ns L" and y: "fq_ok y" "y \<notin> set ns" "y \<notin> set (L 0)"
    and sorted: "due_sorted f t (L 0)" and ts: "clamp_next_ts t (fm_queues f y) = Some ts" "uint (ts - t) < 2 ^ 31"
  shows "\<exists>g L'. flow_queue_activate_skiplist rng t f y = Some (snd (flow_queue_level rng), g) \<and> flow_rep g ns L' \<and>
    L' 0 = takeWhile (\<lambda>i. due_in f t i \<le> uint (ts - t)) (L 0) @ y # dropWhile (\<lambda>i. due_in f t i \<le> uint (ts - t)) (L 0) \<and>
    due_in g t y = uint (ts - t) \<and> due_sorted g t (L' 0)"
proof -
  let ?b = "uint (ts - t)"
  obtain g L' A B where g: "flow_queue_activate_skiplist rng t f y = Some (snd (flow_queue_level rng), g)" "flow_rep g ns L'"
      "skip_split (due_by f t ts) (L 0) (if A = [] then IDXLIST_INVAL else last A) A B" "L' 0 = A @ y # B"
      "\<forall>i. fq_next_ts (fm_queues g i) = (if i = y then ts else fq_next_ts (fm_queues f i))"
    using skiplist_push [OF rep y ts(1), of rng] by blast
  have p: "due_by f t ts i \<longleftrightarrow> due_in f t i \<le> ?b" if "i \<in> set (L 0)" for i
    using that sorted ts(2) timestamp_lessthaneq_window by (simp add: due_by_def due_in_def due_sorted_def)
  have AB: "A = takeWhile (\<lambda>i. due_in f t i \<le> ?b) (L 0) \<and> B = dropWhile (\<lambda>i. due_in f t i \<le> ?b) (L 0)"
    by (rule skip_split_sorted [OF g(3)]) (use sorted p in \<open>auto simp: due_sorted_def\<close>)
  have "due_in g t y = ?b" "\<And>i. i \<in> set (L 0) \<Longrightarrow> due_in g t i = due_in f t i"
    using g(5) y(3) by (auto simp: due_in_def)
  then have "due_sorted g t (L' 0)" unfolding g(4) using AB due_sorted_insert [OF sorted _ _ ts(2)] by simp
  then show ?thesis using g(1,2,4) AB \<open>due_in g t y = ?b\<close> by blast
qed

section \<open>Properties\<close>

text \<open>
  C19: The distance \<open>rel_time cur ts\<close> of two 32-bit times is the signed difference \<open>ts - cur\<close>; only
  for the time opposite to \<open>cur\<close> the sign depends on which half of the range \<open>cur\<close> lies in.
\<close>

theorem rel_time_signed:
  "rel_time cur ts = (if cur > 2 ^ 31 \<and> ts - cur = 2 ^ 31 then 2 ^ 31 else sint (ts - cur))"
  by (rule rel_time_eq)

text \<open>
  C10: Earliest deadline first. When the skip list is sorted by the time at which the flows are due,
  and a full chunk of the new flow takes less than half the range of the clock, activating a
  rate-limited flow inserts it at its place in that order, behind flows that are due at the same
  time: the search from the top level down, the random level and the links of all levels give the
  same list as a sorted insertion, and every level stays a subsequence of the level below.
\<close>

theorem skiplist_insert_sorted:
  assumes rep: "flow_rep f ns L" and y: "fq_ok y" "y \<notin> set ns" "y \<notin> set (L 0)"
    and sorted: "due_sorted f t (L 0)" and rate: "fq_rate (fm_queues f y) \<noteq> 0" "chunk_time (fm_queues f y) < 2 ^ 31"
  shows "\<exists>rng' g L' d. flow_queue_activate rng t f y = Some (rng', g) \<and> flow_rep g ns L' \<and> due_in g t y = d \<and>
    L' 0 = takeWhile (\<lambda>i. due_in f t i \<le> d) (L 0) @ y # dropWhile (\<lambda>i. due_in f t i \<le> d) (L 0) \<and>
    due_sorted g t (L' 0)"
proof -
  obtain ts where "clamp_next_ts t (fm_queues f y) = Some ts" "uint (ts - t) < 2 ^ 31" using clamp_window [OF rate] by blast
  moreover have "flow_queue_activate rng t f y = flow_queue_activate_skiplist rng t f y"
    using y(1) rate(1) by (simp add: flow_queue_activate_def)
  ultimately show ?thesis using skiplist_push_sorted [OF rep y sorted, of ts rng] by metis
qed

text \<open>A skip list with the flow 0, due at time 100, and a new flow 1.\<close>

definition demo_fq :: "u32 \<Rightarrow> u16 \<Rightarrow> flow_queue" where
  "demo_fq ts flags = \<lparr>fq_next_idxs = (\<lambda>l. IDXLIST_INVAL), fq_next_ts = ts, fq_rate = 1000000, fq_avail = 100,
     fq_max_chunk = 1448, fq_flags = flags\<rparr>"

definition demo_skip :: flow_qman where
  "demo_skip = \<lparr>fm_queues = (\<lambda>i. if i = 0 then demo_fq 100 FLAG_INSKIPLIST else demo_fq 50 0),
     fm_head_idx = (\<lambda>l. if l = 0 then 0 else IDXLIST_INVAL), fm_nolimit_head_idx = IDXLIST_INVAL,
     fm_nolimit_tail_idx = IDXLIST_INVAL, fm_nolimit_first = False\<rparr>"

definition demo_levels :: "nat \<Rightarrow> u32 list" where "demo_levels l = (if l = 0 then [0] else [])"

lemma demo_skip_rep: "flow_rep demo_skip [] demo_levels"
  by (simp add: flow_rep_def skip_rep_def idx_fifo_rep_def demo_skip_def demo_levels_def demo_fq_def lvl_next_def
      list_flags_def FLEXNIC_NUM_QMFLOWQUEUES_def IDXLIST_INVAL_def QMAN_SKIPLIST_LEVELS_def)

theorem skiplist_insert_sorted_witness:
  "\<exists>rng' g L' d. flow_queue_activate 7 20 demo_skip 1 = Some (rng', g) \<and> flow_rep g [] L' \<and> due_in g 20 1 = d \<and>
    L' 0 = takeWhile (\<lambda>i. due_in demo_skip 20 i \<le> d) (demo_levels 0) @ 1 # dropWhile (\<lambda>i. due_in demo_skip 20 i \<le> d) (demo_levels 0) \<and>
    due_sorted g 20 (L' 0)"
  by (rule skiplist_insert_sorted [OF demo_skip_rep])
    (simp_all add: demo_levels_def demo_skip_def demo_fq_def due_sorted_def due_in_def chunk_time_def FLEXNIC_NUM_QMFLOWQUEUES_def)


end
