(* ===== verification/Qman_Props.thy ===== *)
theory Qman_Props
  imports Qman_Vm Qman_Time
begin

text \<open>
  The properties of the queue manager: its invariant holds in every state that setting and polling
  reach, a poll hands out exactly what it takes from the flows, it returns when no flow is rate
  limited, and it can run forever when some are.
\<close>

section \<open>Initialisation\<close>

lemma vmcont_init_from_ok:
  assumes "\<And>j. alloc_ok j" and "i + n \<le> 2 ^ 32"
  shows "fst (vmcont_init_from now alloc_ok uninit i n f) = 0 \<and>
    (\<forall>v. i \<le> unat v \<and> unat v < i + n \<longrightarrow> vm_queues (snd (vmcont_init_from now alloc_ok uninit i n f)) v =
      (vm_queues f v)\<lparr>vq_avail := 0, vq_id := v, vq_ts_virtual := 0, vq_ts_real := now (unat v),
        vq_fqman := flowcont_init (uninit (unat v))\<rparr>) \<and>
    (\<forall>v. unat v < i \<longrightarrow> vm_queues (snd (vmcont_init_from now alloc_ok uninit i n f)) v = vm_queues f v)"
  using assms(2)
proof (induction n arbitrary: i f)
  case (Suc n)
  let ?q = "(vm_queues f (of_nat i))\<lparr>vq_avail := 0, vq_id := of_nat i, vq_ts_virtual := 0, vq_ts_real := now i,
        vq_fqman := flowcont_init (uninit i)\<rparr>"
  let ?f = "vm_put f (of_nat i) ?q"
  have i: "unat (of_nat i :: u32) = i" using Suc.prems by (intro unat_of_nat_small) simp
  have eq: "vmcont_init_from now alloc_ok uninit i (Suc n) f = vmcont_init_from now alloc_ok uninit (Suc i) n ?f"
    using assms(1) by simp
  have IH: "fst (vmcont_init_from now alloc_ok uninit (Suc i) n ?f) = 0"
    "\<And>v. Suc i \<le> unat v \<Longrightarrow> unat v < Suc i + n \<Longrightarrow> vm_queues (snd (vmcont_init_from now alloc_ok uninit (Suc i) n ?f)) v =
      (vm_queues ?f v)\<lparr>vq_avail := 0, vq_id := v, vq_ts_virtual := 0, vq_ts_real := now (unat v),
        vq_fqman := flowcont_init (uninit (unat v))\<rparr>"
    "\<And>v. unat v < Suc i \<Longrightarrow> vm_queues (snd (vmcont_init_from now alloc_ok uninit (Suc i) n ?f)) v = vm_queues ?f v"
    using Suc.IH [of "Suc i" ?f] Suc.prems by auto
  have ne: "v \<noteq> of_nat i" if "unat v \<noteq> i" for v :: u32 using that i by auto
  have same: "v = of_nat i" if "unat v = i" for v :: u32 using that by auto
  show ?case unfolding eq
  proof (intro conjI allI impI)
    show "fst (vmcont_init_from now alloc_ok uninit (Suc i) n ?f) = 0" by (rule IH(1))
    fix v :: u32
    show "vm_queues (snd (vmcont_init_from now alloc_ok uninit (Suc i) n ?f)) v = vm_queues f v" if "unat v < i"
      using IH(3) [of v] that ne [of v] by simp
    show "vm_queues (snd (vmcont_init_from now alloc_ok uninit (Suc i) n ?f)) v =
      (vm_queues f v)\<lparr>vq_avail := 0, vq_id := v, vq_ts_virtual := 0, vq_ts_real := now (unat v),
        vq_fqman := flowcont_init (uninit (unat v))\<rparr>" if "i \<le> unat v \<and> unat v < i + Suc n"
    proof (cases "unat v = i")
      case True
      then show ?thesis using IH(3) [of v] same [of v] i by simp
    next
      case False
      then show ?thesis using IH(2) [of v] that ne [of v] by simp
    qed
  qed
qed auto

lemma flowcont_init_inv: "flow_inv (flowcont_init u) [] (\<lambda>l. [])" "norate (flowcont_init u) (\<lambda>l. [])"
  "flow_total (flowcont_init u) = 0"
  by (simp_all add: flow_inv_def flow_rep_def skip_rep_def idx_fifo_rep_def flowcont_init_def zero_flow_queue_def
      flow_avail_def norate_def flow_total_def list_flags_def)

lemma flowcont_init_ex: "\<exists>ns L. flow_inv (flowcont_init u) ns L \<and> norate (flowcont_init u) L"
  using flowcont_init_inv by blast

lemma tas_qman_thread_init_inv:
  assumes "tas_qman_thread_init now queues_ok alloc_ok null uninit ctx = (0, ctx')" and ok: "\<And>j. alloc_ok j"
  shows "vm_inv_x True (dc_vqman ctx') [] {}"
proof -
  let ?f = "(dc_vqman ctx)\<lparr>vm_queues := \<lambda>i. zero_vm_queue null\<rparr>"
  let ?r = "vmcont_init_from now alloc_ok uninit 0 FLEXNIC_PL_VMST_NUM ?f"
  have r: "fst ?r = 0" "\<And>v. vm_ok v \<Longrightarrow> vm_queues (snd ?r) v = (zero_vm_queue null)\<lparr>vq_avail := 0, vq_id := v,
      vq_ts_virtual := 0, vq_ts_real := now (unat v), vq_fqman := flowcont_init (uninit (unat v))\<rparr>"
    using vmcont_init_from_ok [OF ok, where i = 0 and n = FLEXNIC_PL_VMST_NUM and now = now and uninit = uninit and f = ?f]
    by (auto simp: FLEXNIC_PL_VMST_NUM_def)
  have c: "dc_vqman ctx' = (snd ?r)\<lparr>vm_head_idx := IDXLIST_INVAL, vm_tail_idx := IDXLIST_INVAL\<rparr>"
    using assms(1) r(1) by (auto simp: tas_qman_thread_init_def vmcont_init_def split: if_splits prod.splits)
  show ?thesis unfolding c vm_inv_x_def
  proof (intro conjI allI impI)
    show "vm_rep ((snd ?r)\<lparr>vm_head_idx := IDXLIST_INVAL, vm_tail_idx := IDXLIST_INVAL\<rparr>) []"
      using r(2) by (simp add: vm_rep_def idx_fifo_rep_def zero_vm_queue_def)
  qed (use r(2) flowcont_init_inv(3) flowcont_init_ex in \<open>auto simp: vm_one_def\<close>)
qed

section \<open>All reachable states\<close>

text \<open>
  The states of a core's queue manager: after initialisation, every call of \<open>tas_qman_set\<close> for an
  existing VM and flow whose counters fit in 32 bits, and every poll that returns.
\<close>

inductive qman_reach :: "dataplane_context \<Rightarrow> bool" where
  init: "tas_qman_thread_init now True (\<lambda>j. True) null uninit ctx = (0, ctx') \<Longrightarrow> qman_reach ctx'"
| set_flow: "qman_reach ctx \<Longrightarrow> vm_ok v \<Longrightarrow> fq_ok i \<Longrightarrow> set_fits (vm_flows (dc_vqman ctx) v) i avail flags \<Longrightarrow>
     tas_qman_set (dc_qman ctx) v i rate avail max_chunk flags = Some (ret, t) \<Longrightarrow> qman_reach (ctx\<lparr>dc_qman := t\<rparr>)"
| poll: "qman_reach ctx \<Longrightarrow> tas_qman_poll ctx cur_ts sk num = Some (ctx', es) \<Longrightarrow> qman_reach ctx'"

lemma vm_inv_norate: "vm_inv_x True f vs {} \<Longrightarrow> vm_inv f vs"
  unfolding vm_inv_def vm_inv_x_def vm_one_def by blast

lemma qman_reach_inv_lemma: "qman_reach ctx \<Longrightarrow> \<exists>vs. vm_inv (dc_vqman ctx) vs"
proof (induction rule: qman_reach.induct)
  case (init now null uninit ctx ctx')
  have "vm_inv_x True (dc_vqman ctx') [] {}" using tas_qman_thread_init_inv [OF init] by simp
  then show ?case using vm_inv_norate by blast
next
  case (set_flow ctx v i avail flags rate max_chunk ret t)
  then obtain vs where "vm_inv (qt_vqman (dc_qman ctx)) vs" by (auto simp: dc_vqman_def)
  from tas_qman_set_ok [OF this set_flow.hyps(2,3), of avail flags rate max_chunk] set_flow.hyps
  show ?case by (auto simp: dc_vqman_def)
next
  case (poll ctx cur_ts sk num ctx' es)
  then show ?case using vm_qman_poll_inv [of False ctx _ cur_ts sk num ctx' es]
    by (auto simp: vm_inv_def tas_qman_poll_def)
qed

section \<open>A poll that does not end\<close>

text \<open>
  A VM that waits: nothing without rate limit, and the first rate-limited flow is not due at the
  virtual time \<open>m\<close> that the VM has reached now, neither seen from the old virtual time nor from the new one.
\<close>

definition vm_now :: "vm_queue \<Rightarrow> u32 \<Rightarrow> u32" where
  "vm_now q cur_ts = vq_ts_virtual q + (cur_ts - vq_ts_real q)"

definition not_due :: "vm_queue \<Rightarrow> u32 \<Rightarrow> bool" where
  "not_due q cur_ts \<longleftrightarrow> (let h = fm_head_idx (vq_fqman q) 0; ts = fq_next_ts (fm_queues (vq_fqman q) h); m = vm_now q cur_ts in
     h \<noteq> IDXLIST_INVAL \<and> fq_ok h \<and> \<not> timestamp_lessthaneq (vq_ts_virtual q) ts m \<and> \<not> timestamp_lessthaneq m ts m)"

definition vm_waits :: "vm_queue \<Rightarrow> u32 \<Rightarrow> bool" where
  "vm_waits q cur_ts \<longleftrightarrow> fm_nolimit_head_idx (vq_fqman q) = IDXLIST_INVAL \<and> not_due q cur_ts"

lemma skiplist_not_due:
  assumes "not_due q cur_ts" and "0 < num" and "0 < sk_orig_num sk" and "sk_cur_ts sk = cur_ts"
    and "fm_head_idx f 0 = fm_head_idx (vq_fqman q) 0"
    and "fq_next_ts (fm_queues f (fm_head_idx f 0)) = fq_next_ts (fm_queues (vq_fqman q) (fm_head_idx f 0))"
  shows "flow_poll_skiplist rng q f sk num out bs =
    Some (rng, q\<lparr>vq_ts_virtual := vm_now q cur_ts, vq_ts_real := cur_ts\<rparr>, f, sk\<lparr>sk_rate_limited := 1\<rparr>, out, bs)"
  using assms
  by (simp add: flow_poll_skiplist_def skiplist_loop.simps [of rng] not_due_def vm_now_def Let_def)

definition waited :: "vm_queue \<Rightarrow> u32 \<Rightarrow> vm_queue" where
  "waited q cur_ts = q\<lparr>vq_ts_virtual := vm_now q cur_ts, vq_ts_real := cur_ts,
     vq_fqman := (vq_fqman q)\<lparr>fm_nolimit_first := \<not> fm_nolimit_first (vq_fqman q)\<rparr>\<rparr>"

lemma poll_waits:
  assumes w: "vm_waits q cur_ts" and "0 < num" and "0 < sk_orig_num sk" and "sk_cur_ts sk = cur_ts"
  shows "flow_qman_poll rng q sk num = Some (rng, waited q cur_ts, sk\<lparr>sk_rate_limited := 1\<rparr>, [], 0)"
proof -
  have "flow_poll_nolimit rng q' (vq_fqman q) n out bs = Some (rng, vq_fqman q, out, bs)" for q' n out bs
    using w by (simp add: vm_waits_def flow_poll_nolimit.simps [of rng])
  moreover have "flow_poll_skiplist rng q (vq_fqman q) sk num [] 0 =
    Some (rng, q\<lparr>vq_ts_virtual := vm_now q cur_ts, vq_ts_real := cur_ts\<rparr>, vq_fqman q, sk\<lparr>sk_rate_limited := 1\<rparr>, [], 0)"
    using w assms(2-4) by (intro skiplist_not_due) (auto simp: vm_waits_def)
  ultimately show ?thesis by (simp add: flow_qman_poll_def waited_def Let_def)
qed

lemma waited_waits: "vm_waits q cur_ts \<Longrightarrow> vm_waits (waited q cur_ts) cur_ts"
  by (simp add: vm_waits_def not_due_def waited_def vm_now_def Let_def)

text \<open>The loop goes round when the only VM in the list waits and another one was the first to be rate limited.\<close>

definition stuck where
  "stuck v num ctx sk out rvq \<longleftrightarrow> length out < num \<and> (\<exists>u. rvq = Some u \<and> u \<noteq> v) \<and> vm_ok v \<and> vm_rep (dc_vqman ctx) [v] \<and>
     dc_budgets ctx v > 0 \<and> vm_waits (vm_queues (dc_vqman ctx) v) (sk_cur_ts sk) \<and> vq_avail (vm_queues (dc_vqman ctx) v) > 0"

lemma vm_put_twice [simp]: "vm_put (vm_put f v q) v q' = vm_put f v q'"
  by (simp add: vm_put_def)

lemma stuck_step:
  assumes st: "stuck v num ctx sk out rvq"
  shows "\<exists>ctx' sk'. vm_poll_body rest num ctx sk out rvq oob = rest num ctx' sk' out rvq oob \<and> stuck v num ctx' sk' out rvq"
proof -
  let ?f = "dc_vqman ctx"
  let ?t = "sk_cur_ts sk"
  have v: "vm_ok v" "vm_rep ?f [v]" "dc_budgets ctx v > 0" "vm_waits (vm_queues ?f v) ?t" "vq_avail (vm_queues ?f v) > 0"
    "length out < num" "rvq \<noteq> Some v" "rvq \<noteq> None"
    using st by (auto simp: stuck_def)
  obtain g where g: "vm_queue_pop ?f = Some (v, g)" "vm_rep g []" "vm_data g = vm_data ?f" using vm_pop [OF v(2)] by blast
  have gd: "vq_fqman (vm_queues g v) = vq_fqman (vm_queues ?f v)" "vq_avail (vm_queues g v) = vq_avail (vm_queues ?f v)"
    "vq_ts_real (vm_queues g v) = vq_ts_real (vm_queues ?f v)" "vq_ts_virtual (vm_queues g v) = vq_ts_virtual (vm_queues ?f v)"
    using fun_cong [OF g(3), of v] by (simp_all add: vm_data_def Let_def)
  then have w: "vm_waits (vm_queues g v) ?t" using v(4) by (simp add: vm_waits_def not_due_def vm_now_def Let_def)
  let ?w = "waited (vm_queues g v) ?t"
  let ?g = "vm_put g v ?w"
  have rep: "vm_rep ?g []" using g(2) by (rule vm_rep_put) (simp_all add: waited_def)
  have "vm_queues ?g v = ?w" "vq_avail ?w > 0" using gd v(5) by (simp_all add: waited_def)
  then obtain h where h: "vm_queue_fire ?g v 0 = Some h" "vm_rep h [v]" "vm_data h = vm_data ?g"
    using vm_push [of "vm_put ?g v (?w\<lparr>vq_avail := vq_avail ?w - of_int 0\<rparr>)" "[]" v] v(1) rep
    by (auto simp: vm_queue_fire_def Let_def)
  let ?sk = "sk\<lparr>sk_rate_limited := 0, sk_orig_num := num\<rparr>"
  let ?ctx = "dc_set_qman ctx (qt_rng (dc_qman ctx)) g"
  let ?ctx' = "dc_charge (dc_set_qman ?ctx (qt_rng (dc_qman ctx)) h) v 0"
  let ?sk' = "?sk\<lparr>sk_rate_limited := 1\<rparr>"
  have "flow_qman_poll (qt_rng (dc_qman ctx)) (vm_queues g v) ?sk (num - length out) =
      Some (qt_rng (dc_qman ctx), ?w, ?sk', [], 0)"
    using w v(6) by (intro poll_waits) auto
  then have "vm_poll_one ?ctx v ?sk (num - length out) =
      Some (dc_set_qman ?ctx (qt_rng (dc_qman ctx)) h, ?sk', [], 0, vq_avail ?w)"
    using v(1) h(1) gd v(5) by (simp add: vm_poll_one_def waited_def dc_set_qman_def dc_vqman_def)
  moreover have hd: "vm_head_idx ?f = v" "v \<noteq> IDXLIST_INVAL"
    using v(1,2) by (auto simp: vm_rep_def idx_fifo_rep_def)
  ultimately have "vm_poll_body rest num ctx sk out rvq oob = rest num ?ctx' ?sk' out rvq oob"
    using v g(1) by (auto simp: vm_poll_body_def)
  moreover have "stuck v num ?ctx' ?sk' out rvq"
  proof -
    have "vq_fqman (vm_queues h v) = vq_fqman ?w" "vq_avail (vm_queues h v) = vq_avail ?w"
      "vq_ts_real (vm_queues h v) = vq_ts_real ?w" "vq_ts_virtual (vm_queues h v) = vq_ts_virtual ?w"
      using fun_cong [OF h(3), of v] by (simp_all add: vm_data_def Let_def)
    moreover from this have "vm_waits (vm_queues h v) ?t"
      using waited_waits [OF w] by (simp add: vm_waits_def not_due_def vm_now_def Let_def)
    ultimately show ?thesis using v st h(2) gd by (auto simp: stuck_def waited_def)
  qed
  ultimately show ?thesis by blast
qed

lemma stuck_diverges:
  assumes "stuck v num ctx sk out rvq"
  shows "vm_poll_loop num ctx sk out rvq oob = None"
proof (rule ccontr)
  assume "vm_poll_loop num ctx sk out rvq oob \<noteq> None"
  then obtain r where r: "vm_poll_loop num ctx sk out rvq oob = Some r" by auto
  have body: "\<not> stuck v num ctx sk out rvq"
    if "\<And>num ctx sk out rvq oob r. rest num ctx sk out rvq oob = Some r \<Longrightarrow> \<not> stuck v num ctx sk out rvq"
      and "vm_poll_body rest num ctx sk out rvq oob = Some r" for rest num ctx sk out rvq oob r
    using that stuck_step [of v num ctx sk out rvq rest oob] by metis
  have "\<not> stuck v num ctx sk out rvq"
    using r by (rule vm_poll_loop.raw_induct [rotated, where P = "\<lambda>num ctx sk out rvq oob r. \<not> stuck v num ctx sk out rvq"])
      (rule body [unfolded vm_poll_body_def])
  with assms show False by blast
qed

text \<open>A VM whose last bytes belong to a flow without rate limit, while a rate-limited flow of it is not due.\<close>

definition last_bytes :: "vm_queue \<Rightarrow> u32 \<Rightarrow> u32 \<Rightarrow> bool" where
  "last_bytes q i cur_ts \<longleftrightarrow> (let f = vq_fqman q; p = fm_queues f i in
     fm_nolimit_first f \<and> fm_nolimit_head_idx f = i \<and> fq_ok i \<and> fq_next_idxs p 0 = IDXLIST_INVAL \<and> fq_rate p = 0 \<and>
     0 < fq_avail p \<and> fq_avail p \<le> ucast (fq_max_chunk p) \<and> i \<noteq> fm_head_idx f 0 \<and> not_due q cur_ts \<and> vq_avail q = fq_avail p)"

lemma poll_last_bytes:
  assumes l: "last_bytes q i cur_ts" and n: "1 < num" and sk: "0 < sk_orig_num sk" "sk_cur_ts sk = cur_ts"
  shows "\<exists>q'. flow_qman_poll rng q sk num = Some (rng, q', sk\<lparr>sk_rate_limited := 1\<rparr>, [(i, ucast (vq_avail q), vq_id q)], uint (vq_avail q)) \<and>
    same_vq q q'"
proof -
  let ?f = "vq_fqman q"
  let ?p = "fm_queues ?f i"
  note d = l [unfolded last_bytes_def Let_def]
  let ?p1 = "?p\<lparr>fq_flags := fq_flags ?p AND NOT FLAG_INNOLIMITL\<rparr>"
  let ?f1 = "fq_put (?f\<lparr>fm_nolimit_head_idx := IDXLIST_INVAL, fm_nolimit_tail_idx := IDXLIST_INVAL\<rparr>) i ?p1"
  let ?f2 = "fq_put ?f1 i (?p1\<lparr>fq_avail := 0\<rparr>)"
  have i: "i \<noteq> IDXLIST_INVAL" "fq_ok i" using d by auto
  have "flow_nolimit_pop ?f = Some (i, ?f1)" using d by (simp add: flow_nolimit_pop_def)
  moreover have "flow_queue_fire rng (vq_ts_virtual q) ?f1 i = Some (rng, ?f2, fq_avail ?p)"
    using d by (simp add: flow_queue_fire_def)
  moreover have "flow_poll_nolimit rng q ?f2 (num - 1) out bs = Some (rng, ?f2, out, bs)" for out bs
    by (simp add: flow_poll_nolimit.simps [of rng q ?f2])
  ultimately have nl: "flow_poll_nolimit rng q ?f num [] 0 = Some (rng, ?f2, [(i, ucast (fq_avail ?p), vq_id q)], uint (fq_avail ?p))"
    using d n i by (simp add: flow_poll_nolimit.simps [of rng q ?f])
  have "flow_poll_skiplist rng q ?f2 sk (num - 1) out bs =
    Some (rng, q\<lparr>vq_ts_virtual := vm_now q cur_ts, vq_ts_real := cur_ts\<rparr>, ?f2, sk\<lparr>sk_rate_limited := 1\<rparr>, out, bs)" for out bs
    using d n sk by (intro skiplist_not_due) auto
  then show ?thesis using nl d by (auto simp: flow_qman_poll_def same_vq_def Let_def)
qed

lemma diverges_lemma:
  assumes rep: "vm_rep (dc_vqman ctx) [u, v]" and b: "dc_budgets ctx u > 0" "dc_budgets ctx v > 0" and n: "1 < num"
    and u: "last_bytes (vm_queues (dc_vqman ctx) u) i cur_ts"
    and v: "vm_waits (vm_queues (dc_vqman ctx) v) cur_ts" "vq_avail (vm_queues (dc_vqman ctx) v) > 0"
  shows "vm_qman_poll ctx cur_ts sk num = None"
proof -
  let ?f = "dc_vqman ctx"
  have uv: "vm_ok u" "vm_ok v" "u \<noteq> v" "vm_head_idx ?f = u" "u \<noteq> IDXLIST_INVAL"
    using rep by (auto simp: vm_rep_def idx_fifo_rep_def)
  obtain g where g: "vm_queue_pop ?f = Some (u, g)" "vm_rep g [v]" "vm_data g = vm_data ?f" using vm_pop [OF rep] by blast
  have gu: "vq_fqman (vm_queues g w) = vq_fqman (vm_queues ?f w)" "vq_avail (vm_queues g w) = vq_avail (vm_queues ?f w)"
    "vq_ts_real (vm_queues g w) = vq_ts_real (vm_queues ?f w)" "vq_ts_virtual (vm_queues g w) = vq_ts_virtual (vm_queues ?f w)" for w
    using fun_cong [OF g(3), of w] by (simp_all add: vm_data_def Let_def)
  have lb: "last_bytes (vm_queues g u) i cur_ts"
    using u gu by (simp add: last_bytes_def not_due_def vm_now_def Let_def)
  let ?sk = "sk\<lparr>sk_cur_ts := cur_ts, sk_rate_limited := 0, sk_orig_num := num\<rparr>"
  obtain q' where q': "flow_qman_poll (qt_rng (dc_qman ctx)) (vm_queues g u) ?sk num =
      Some (qt_rng (dc_qman ctx), q', ?sk\<lparr>sk_rate_limited := 1\<rparr>, [(i, ucast (vq_avail (vm_queues g u)), vq_id (vm_queues g u))],
        uint (vq_avail (vm_queues g u)))" "same_vq (vm_queues g u) q'"
    using poll_last_bytes [OF lb n, of ?sk "qt_rng (dc_qman ctx)"] n by auto
  let ?a = "vq_avail (vm_queues g u)"
  have a: "?a > 0" using lb by (simp add: last_bytes_def Let_def)
  let ?h = "vm_put g u (q'\<lparr>vq_avail := 0\<rparr>)"
  let ?ctx = "dc_set_qman ctx (qt_rng (dc_qman ctx)) g"
  let ?out = "[(i, ucast ?a, vq_id (vm_queues g u))]"
  let ?ctx' = "dc_charge (dc_set_qman ?ctx (qt_rng (dc_qman ctx)) ?h) u (uint ?a)"
  have fire: "vm_queue_fire (vm_put g u q') u (uint ?a) = Some ?h"
    using uv(1) a q'(2) by (simp add: vm_queue_fire_def same_vq_def)
  have "vm_poll_one ?ctx u ?sk num = Some (dc_set_qman ?ctx (qt_rng (dc_qman ctx)) ?h, ?sk\<lparr>sk_rate_limited := 1\<rparr>, ?out, uint ?a, ?a)"
    using uv(1) q' a fire by (simp add: vm_poll_one_def same_vq_def dc_set_qman_def dc_vqman_def)
  then have "vm_poll_body vm_poll_loop num ctx (sk\<lparr>sk_cur_ts := cur_ts\<rparr>) [] None [] =
      vm_poll_loop num ?ctx' (?sk\<lparr>sk_rate_limited := 1\<rparr>) ?out (Some u) []"
    using uv n b a g(1) by (simp add: vm_poll_body_def)
  moreover have "stuck v num ?ctx' (?sk\<lparr>sk_rate_limited := 1\<rparr>) ?out (Some u)"
  proof -
    have "vm_rep ?h [v]" using g(2) q'(2) by (intro vm_rep_put) (auto simp: same_vq_def)
    moreover have "vm_waits (vm_queues g v) cur_ts" using v(1) gu by (simp add: vm_waits_def not_due_def vm_now_def Let_def)
    ultimately show ?thesis using uv b n v(2) gu by (simp add: stuck_def)
  qed
  ultimately have "vm_poll_loop num ctx (sk\<lparr>sk_cur_ts := cur_ts\<rparr>) [] None [] = None"
    using stuck_diverges vm_poll_loop_body [of num ctx "sk\<lparr>sk_cur_ts := cur_ts\<rparr>" "[]" None "[]"] by metis
  then show ?thesis by (simp add: vm_qman_poll_def)
qed

section \<open>Properties\<close>

text \<open>
  C8: In every state that initialisation, \<open>tas_qman_set\<close> and \<open>tas_qman_poll\<close> reach, the queue manager is
  consistent: the linked lists of VMs, of flows and all levels of the skip lists are well formed and
  agree with the flags, each VM's counter is the sum of its flows' counters, and no work is lost:
  every flow with bytes to send is in a list of its VM, and every VM with bytes to send is in the
  list of VMs.
\<close>

theorem qman_reachable_inv: "qman_reach ctx \<Longrightarrow> \<exists>vs. vm_inv (dc_vqman ctx) vs"
  by (rule qman_reach_inv_lemma)

definition demo_flows :: flow_qman where
  "demo_flows = \<lparr>fm_queues = (\<lambda>i. zero_flow_queue), fm_head_idx = (\<lambda>l. 0), fm_nolimit_head_idx = 0,
     fm_nolimit_tail_idx = 0, fm_nolimit_first = True\<rparr>"

definition demo_vms :: vm_qman where
  "demo_vms = \<lparr>vm_queues = (\<lambda>i. zero_vm_queue demo_flows), vm_head_idx = 0, vm_tail_idx = 0\<rparr>"

definition demo_buf :: network_buf where
  "demo_buf = \<lparr>nb_id = 0, nb_buf = [], nb_off = 0, nb_len = 0, nb_rss = None, nb_offload = OffNone\<rparr>"

definition demo_pctx :: polled_context where
  "demo_pctx = \<lparr>pc_id = 0, pc_vmid = 0, pc_next = 0, pc_prev = 0, pc_flags = 0, pc_null_rounds = 0\<rparr>"

definition demo_pvm :: polled_vm where
  "demo_pvm = \<lparr>pv_id = 0, pv_next = 0, pv_prev = 0, pv_flags = 0, pv_poll_next_ctx = 0, pv_act_ctx_head = 0,
     pv_act_ctx_tail = 0, pv_ctxs = (\<lambda>i. demo_pctx)\<rparr>"

definition demo_ctx :: dataplane_context where
  "demo_ctx = \<lparr>dc_qman = \<lparr>qt_vqman = demo_vms, qt_rng = 0\<rparr>, dc_id = 0, dc_arx = [], dc_tx = [],
     dc_poll_rounds = 0, dc_poll_next_vm = 0, dc_act_head = IDXLIST_INVAL, dc_act_tail = IDXLIST_INVAL,
     dc_polled_vms = (\<lambda>i. demo_pvm), dc_counters_total = 0, dc_vm_counters = (\<lambda>i. 0), dc_budgets = (\<lambda>i. 1000),
     dc_bufcache = (\<lambda>i. demo_buf), dc_bufcache_num = 0, dc_bufcache_head = 0, dc_kernel_drop = 0\<rparr>"

definition demo_init :: dataplane_context where
  "demo_init = snd (tas_qman_thread_init (\<lambda>i. 0) True (\<lambda>i. True) demo_flows (\<lambda>i. demo_flows) demo_ctx)"

lemma demo_init_eq: "tas_qman_thread_init (\<lambda>i. 0) True (\<lambda>i. True) demo_flows (\<lambda>i. demo_flows) demo_ctx = (0, demo_init)"
proof -
  have "fst (vmcont_init_from (\<lambda>i. 0) (\<lambda>i. True) (\<lambda>i. demo_flows) 0 FLEXNIC_PL_VMST_NUM f) = 0" for f
    using vmcont_init_from_ok [where i = 0 and alloc_ok = "\<lambda>i. True"] by (simp add: FLEXNIC_PL_VMST_NUM_def)
  then show ?thesis by (simp add: demo_init_def tas_qman_thread_init_def vmcont_init_def case_prod_beta)
qed

lemma demo_init_inv: "vm_inv_x True (dc_vqman demo_init) [] {}" "vm_inv (dc_vqman demo_init) []"
  using tas_qman_thread_init_inv [OF demo_init_eq] vm_inv_norate by auto

theorem qman_reachable_inv_witness: "\<exists>vs. vm_inv (dc_vqman demo_init) vs"
  by (rule qman_reachable_inv [OF qman_reach.init [OF demo_init_eq]])

text \<open>
  C18: A call of \<open>tas_qman_set\<close> for an existing VM and flow succeeds, keeps the queue manager consistent,
  sets the rate, the chunk size and the counter that the flags name (adding to the counter or
  replacing it), and leaves all other flows alone.
\<close>

theorem tas_qman_set_correct:
  assumes "vm_inv (qt_vqman t) vs" and "vm_ok v" and "fq_ok i" and "set_fits (vm_flows (qt_vqman t) v) i avail flags"
  shows "\<exists>t' vs'. tas_qman_set t v i rate avail max_chunk flags = Some (0, t') \<and> vm_inv (qt_vqman t') vs' \<and>
    (\<forall>w. w \<noteq> v \<longrightarrow> vm_flows (qt_vqman t') w = vm_flows (qt_vqman t) w) \<and>
    fq_data (vm_flows (qt_vqman t') v) = (fq_data (vm_flows (qt_vqman t) v))
      (i := fq_data (fq_put (vm_flows (qt_vqman t) v) i
        (set_queue (fm_queues (vm_flows (qt_vqman t) v) i) rate avail max_chunk flags)) i)"
  using assms by (rule tas_qman_set_ok)

lemma demo_init_total: "flow_total (vm_flows (dc_vqman demo_init) 1) = 0"
proof -
  have "vm_ok 1" by (simp add: FLEXNIC_PL_VMST_NUM_def)
  then have "unat (vq_avail (vm_queues (dc_vqman demo_init) 1)) = flow_total (vm_flows (dc_vqman demo_init) 1)"
    "\<not> vq_avail (vm_queues (dc_vqman demo_init) 1) > 0"
    using demo_init_inv(2) by (auto simp: vm_inv_def vm_inv_x_def vm_one_def)
  then show ?thesis by (simp add: word_gt_0)
qed

theorem tas_qman_set_correct_witness:
  "\<exists>t' vs'. tas_qman_set (dc_qman demo_init) 1 5 0 100 1448 (QMAN_SET_MAXCHUNK OR QMAN_ADD_AVAIL) = Some (0, t') \<and> vm_inv (qt_vqman t') vs'"
proof -
  have "vm_inv (qt_vqman (dc_qman demo_init)) []" using demo_init_inv(2) by (simp add: dc_vqman_def)
  moreover have "set_fits (vm_flows (qt_vqman (dc_qman demo_init)) 1) 5 100 (QMAN_SET_MAXCHUNK OR QMAN_ADD_AVAIL)"
    using demo_init_total by (simp add: set_fits_def dc_vqman_def)
  ultimately show ?thesis
    using tas_qman_set_correct [of "dc_qman demo_init" "[]" 1 5 100 "QMAN_SET_MAXCHUNK OR QMAN_ADD_AVAIL" 0 1448]
    by (auto simp: FLEXNIC_PL_VMST_NUM_def FLEXNIC_NUM_QMFLOWQUEUES_def)
qed

text \<open>A queue manager in which flow 5 of VM 1 has 100 bytes to send.\<close>

definition busy_flows :: flow_qman where
  "busy_flows = \<lparr>fm_queues = (\<lambda>i. if i = 5 then zero_flow_queue\<lparr>fq_avail := 100, fq_max_chunk := 1448,
       fq_flags := FLAG_INNOLIMITL, fq_next_idxs := (\<lambda>l. IDXLIST_INVAL)\<rparr> else zero_flow_queue),
     fm_head_idx = (\<lambda>l. IDXLIST_INVAL), fm_nolimit_head_idx = 5, fm_nolimit_tail_idx = 5, fm_nolimit_first = True\<rparr>"

definition busy_vms :: vm_qman where
  "busy_vms = \<lparr>vm_queues = (\<lambda>v. if v = 1 then (zero_vm_queue busy_flows)\<lparr>vq_id := 1, vq_avail := 100,
       vq_flags := FLAG_INNOLIMITL, vq_next_idx := IDXLIST_INVAL\<rparr> else (zero_vm_queue (flowcont_init demo_flows))\<lparr>vq_id := v\<rparr>),
     vm_head_idx = 1, vm_tail_idx = 1\<rparr>"

definition demo_busy :: dataplane_context where
  "demo_busy = demo_ctx\<lparr>dc_qman := \<lparr>qt_vqman = busy_vms, qt_rng = 0\<rparr>\<rparr>"

definition demo_sk :: skiplist_fstate where
  "demo_sk = \<lparr>sk_cur_ts = 0, sk_rate_limited = 0, sk_orig_num = 0\<rparr>"

lemma busy_flows_inv: "flow_inv busy_flows [5] (\<lambda>l. [])" "norate busy_flows (\<lambda>l. [])" "flow_total busy_flows = 100"
proof -
  have av: "flow_avail busy_flows = (\<lambda>i. if i = 5 then 100 else 0)"
    by (auto simp: busy_flows_def flow_avail_def zero_flow_queue_def fun_eq_iff)
  have ok: "fq_ok 5" by (simp add: FLEXNIC_NUM_QMFLOWQUEUES_def)
  have "flow_rep busy_flows [5] (\<lambda>l. [])"
    using ok by (auto simp: flow_rep_def skip_rep_def idx_fifo_rep_def busy_flows_def zero_flow_queue_def lvl_next_def
      list_flags_def IDXLIST_INVAL_def)
  then show "flow_inv busy_flows [5] (\<lambda>l. [])" by (simp add: flow_inv_def av)
  show "norate busy_flows (\<lambda>l. [])" by (simp add: norate_def busy_flows_def zero_flow_queue_def)
  show "flow_total busy_flows = 100" using ok by (simp add: flow_total_def av)
qed

lemma demo_busy_inv: "vm_inv_x True (dc_vqman demo_busy) [1] {}" "vm_inv (dc_vqman demo_busy) [1]"
proof -
  have eq: "dc_vqman demo_busy = busy_vms" by (simp add: demo_busy_def dc_vqman_def)
  have "vm_rep busy_vms [1]"
    by (auto simp: vm_rep_def idx_fifo_rep_def busy_vms_def zero_vm_queue_def vm_next_def IDXLIST_INVAL_def FLEXNIC_PL_VMST_NUM_def)
  moreover have "vm_one True v (vm_queues busy_vms v)" for v
    using busy_flows_inv flowcont_init_inv(3) flowcont_init_ex
    by (cases "v = 1") (auto simp: vm_one_def busy_vms_def zero_vm_queue_def)
  moreover have "vq_avail (vm_queues busy_vms v) > 0 \<longrightarrow> v = 1" for v by (simp add: busy_vms_def zero_vm_queue_def)
  ultimately show "vm_inv_x True (dc_vqman demo_busy) [1] {}" unfolding eq by (simp add: vm_inv_x_def)
  then show "vm_inv (dc_vqman demo_busy) [1]" by (rule vm_inv_norate)
qed

text \<open>
  C9: A poll hands out exactly what it takes: every entry names an existing VM and flow, no more than
  \<open>num\<close> entries are returned, each flow's counter decreases by precisely the bytes of its entries,
  and the queue manager stays consistent.
\<close>

theorem tas_qman_poll_conserves:
  assumes "vm_inv (dc_vqman ctx) vs" and "tas_qman_poll ctx cur_ts sk num = Some (ctx', es)"
  shows "\<exists>vs'. vm_inv (dc_vqman ctx') vs' \<and> vm_emits (dc_vqman ctx) es (dc_vqman ctx') \<and> length es \<le> num"
  using vm_qman_poll_inv [of False ctx vs cur_ts sk num ctx' es] assms by (simp add: vm_inv_def tas_qman_poll_def)

theorem tas_qman_poll_conserves_witness:
  "\<exists>ctx' es vs'. tas_qman_poll demo_busy 5 demo_sk 16 = Some (ctx', es) \<and> vm_inv (dc_vqman ctx') vs' \<and>
    vm_emits (dc_vqman demo_busy) es (dc_vqman ctx') \<and> length es \<le> 16"
proof -
  obtain ctx' es where "tas_qman_poll demo_busy 5 demo_sk 16 = Some (ctx', es)"
    using vm_qman_poll_returns [OF demo_busy_inv(1), of 5 demo_sk 16] by (auto simp: tas_qman_poll_def)
  then show ?thesis using tas_qman_poll_conserves [OF demo_busy_inv(2)] by blast
qed

text \<open>
  C17: A poll returns when no flow is rate limited: every round of the loop hands out an entry, or
  takes a VM off the list.
\<close>

theorem tas_qman_poll_returns:
  assumes "vm_inv_x True (dc_vqman ctx) vs {}"
  shows "\<exists>ctx' es. tas_qman_poll ctx cur_ts sk num = Some (ctx', es)"
  using vm_qman_poll_returns [OF assms] by (auto simp: tas_qman_poll_def)

theorem tas_qman_poll_returns_witness:
  "\<exists>ctx' es. tas_qman_poll demo_busy 5 demo_sk 16 = Some (ctx', es)"
  by (rule tas_qman_poll_returns [OF demo_busy_inv(1)])

text \<open>
  C16: With rate-limited flows a poll may never return. Suppose that the first VM sends its last bytes
  from a flow without rate limit while another flow of it, with nothing left to send, waits for its
  time, and that the second VM only has flows that wait for their time. The loop remembers the first
  VM as the one to stop at, but that VM has no bytes left and is not put back into the list, so the
  loop serves the second VM forever.
\<close>

theorem tas_qman_poll_diverges:
  assumes "vm_rep (dc_vqman ctx) [u, v]" and "dc_budgets ctx u > 0" "dc_budgets ctx v > 0" and "1 < num"
    and "last_bytes (vm_queues (dc_vqman ctx) u) i cur_ts"
    and "vm_waits (vm_queues (dc_vqman ctx) v) cur_ts" "vq_avail (vm_queues (dc_vqman ctx) v) > 0"
  shows "tas_qman_poll ctx cur_ts sk num = None"
  using diverges_lemma [OF assms] by (simp add: tas_qman_poll_def)

text \<open>Such a state: flow 5 of VM 1 has the last 100 bytes, flow 6 of VM 1 and flow 7 of VM 2 are due at time 1000.\<close>

definition wait_queue :: flow_queue where
  "wait_queue = zero_flow_queue\<lparr>fq_rate := 1000, fq_max_chunk := 1448, fq_flags := FLAG_INSKIPLIST, fq_next_ts := 1000,
     fq_next_idxs := (\<lambda>l. IDXLIST_INVAL)\<rparr>"

definition loop_vms :: vm_qman where
  "loop_vms = \<lparr>vm_queues = (\<lambda>v.
       if v = 1 then (zero_vm_queue (busy_flows\<lparr>fm_queues := (fm_queues busy_flows)(6 := wait_queue), fm_head_idx := (\<lambda>l. 6)\<rparr>))
         \<lparr>vq_id := 1, vq_avail := 100, vq_flags := FLAG_INNOLIMITL, vq_next_idx := 2\<rparr>
       else if v = 2 then (zero_vm_queue ((flowcont_init demo_flows)
           \<lparr>fm_queues := (\<lambda>i. zero_flow_queue)(7 := wait_queue\<lparr>fq_avail := 10\<rparr>), fm_head_idx := (\<lambda>l. 7)\<rparr>))
         \<lparr>vq_id := 2, vq_avail := 10, vq_flags := FLAG_INNOLIMITL, vq_next_idx := IDXLIST_INVAL\<rparr>
       else (zero_vm_queue (flowcont_init demo_flows))\<lparr>vq_id := v\<rparr>), vm_head_idx = 1, vm_tail_idx = 2\<rparr>"

definition demo_loop :: dataplane_context where
  "demo_loop = demo_ctx\<lparr>dc_qman := \<lparr>qt_vqman = loop_vms, qt_rng = 0\<rparr>\<rparr>"

lemma demo_loop_not_due:
  "timestamp_lessthaneq 0 1000 100 = False" "timestamp_lessthaneq 100 1000 100 = False"
  by (simp_all add: timestamp_lessthaneq_def rel_time_eq)

theorem tas_qman_poll_diverges_witness: "tas_qman_poll demo_loop 100 demo_sk 16 = None"
proof (rule tas_qman_poll_diverges [where u = 1 and v = 2 and i = 5])
  have eq: "dc_vqman demo_loop = loop_vms" by (simp add: demo_loop_def dc_vqman_def)
  show "vm_rep (dc_vqman demo_loop) [1, 2]" unfolding eq
    by (auto simp: vm_rep_def idx_fifo_rep_def loop_vms_def zero_vm_queue_def vm_next_def IDXLIST_INVAL_def FLEXNIC_PL_VMST_NUM_def)
  show "last_bytes (vm_queues (dc_vqman demo_loop) 1) 5 100" unfolding eq
    by (simp add: last_bytes_def not_due_def vm_now_def loop_vms_def busy_flows_def zero_vm_queue_def wait_queue_def
        zero_flow_queue_def demo_loop_not_due FLEXNIC_NUM_QMFLOWQUEUES_def IDXLIST_INVAL_def)
  show "vm_waits (vm_queues (dc_vqman demo_loop) 2) 100" "vq_avail (vm_queues (dc_vqman demo_loop) 2) > 0" unfolding eq
    by (simp_all add: vm_waits_def not_due_def vm_now_def loop_vms_def zero_vm_queue_def wait_queue_def flowcont_init_def
        zero_flow_queue_def demo_loop_not_due FLEXNIC_NUM_QMFLOWQUEUES_def IDXLIST_INVAL_def)
qed (simp_all add: demo_loop_def demo_ctx_def)

text \<open>
  The range check of \<open>vm_qman_set\<close> comes too late: for a VM index out of range the call does not
  return -1 as the code intends, it reads beyond the array of VM queues first.
\<close>

lemma tas_qman_set_bad_vm:
  "FLEXNIC_PL_VMST_NUM \<le> unat v \<Longrightarrow> tas_qman_set t v i rate avail max_chunk flags = None"
  by (simp add: tas_qman_set_def vm_qman_set_def vm_get_def)

end
