(* ===== verification/Tcp_Trim.thy ===== *)
theory Tcp_Trim
  imports Tcp_Common
begin

text \<open>
  What trimming does to an interval that lies inside the receive window, and to one that begins at
  most 64 KiB before it: the two cases the reassembly of out-of-order data relies on.
\<close>


lemma trim_inside_int:
  assumes "u32_val P" "u32_val N" "u32_val A" "u32_val W" "W \<le> 2147483648" "wsub P A + M \<le> W" "N \<le> M" "0 < M"
  defines "PB \<equiv> wadd P N" and "B \<equiv> wadd A W"
  shows "P \<le> PB \<Longrightarrow> A \<le> B \<Longrightarrow> \<not> PB < A \<and> \<not> P > B \<and> \<not> P < A \<and> \<not> PB > B"
    and "P \<le> PB \<Longrightarrow> \<not> A \<le> B \<Longrightarrow> \<not> (P > B \<and> P < A) \<and> (PB \<ge> B \<and> PB < A \<longrightarrow> PB = B)"
    and "\<not> P \<le> PB \<Longrightarrow> A \<le> B \<Longrightarrow> False"
    and "\<not> P \<le> PB \<Longrightarrow> \<not> A \<le> B \<Longrightarrow> \<not> P < A \<and> \<not> PB > B"
  using assms(1-8) unfolding PB_def B_def circ_arith by (auto split: if_splits)

lemma trim_behind_int:
  assumes "u32_val P" "u32_val N" "u32_val A" "u32_val W" "W \<le> 2147483648" "wsub A P = X" "0 < X" "X \<le> 65535" "N \<le> 65535" "N \<le> X + W"
  defines "PB \<equiv> wadd P N" and "B \<equiv> wadd A W"
  shows "P \<le> PB \<Longrightarrow> A \<le> B \<Longrightarrow> N < X \<Longrightarrow> PB < A \<or> P > B"
    and "P \<le> PB \<Longrightarrow> \<not> A \<le> B \<Longrightarrow> N < X \<Longrightarrow> P > B \<and> PB < A"
    and "\<not> P \<le> PB \<Longrightarrow> A \<le> B \<Longrightarrow> N < X \<Longrightarrow> P > B \<and> PB < A"
    and "\<not> P \<le> PB \<Longrightarrow> \<not> A \<le> B \<Longrightarrow> N < X \<Longrightarrow> False"
    and "P \<le> PB \<Longrightarrow> A \<le> B \<Longrightarrow> \<not> N < X \<Longrightarrow> \<not> PB < A \<and> \<not> P > B \<and> P < A \<and> \<not> PB > B"
    and "P \<le> PB \<Longrightarrow> \<not> A \<le> B \<Longrightarrow> \<not> N < X \<Longrightarrow> \<not> (P > B \<and> PB < A) \<and> P > B \<and> P < A \<and> (PB \<ge> B \<and> PB < A \<longrightarrow> PB = B)"
    and "\<not> P \<le> PB \<Longrightarrow> A \<le> B \<Longrightarrow> \<not> N < X \<Longrightarrow> \<not> (P > B \<and> PB < A) \<and> (A \<le> PB \<or> A > P) \<and> \<not> (PB > B \<or> A \<ge> P)"
    and "\<not> P \<le> PB \<Longrightarrow> \<not> A \<le> B \<Longrightarrow> \<not> N < X \<Longrightarrow> P < A \<and> \<not> PB > B"
  using assms(1-10) unfolding PB_def B_def circ_arith by (auto split: if_splits)
definition trim_ends :: "u32 \<Rightarrow> u32 \<Rightarrow> u32 \<Rightarrow> u32 \<Rightarrow> (u32 \<times> u32) option" where
  "trim_ends p pb a b =
     (if p \<le> pb \<and> a \<le> b then
        if pb < a then None else if p > b then None
        else Some (if p < a then a - p else 0, if pb > b then pb - b else 0)
      else if p \<le> pb \<and> a > b then
        if p > b \<and> pb < a then None
        else Some (if p > b \<and> p < a then a - p else 0, if pb \<ge> b \<and> pb < a then pb - b else 0)
      else if p > pb \<and> a \<le> b then
        if p > b \<and> pb < a then None
        else Some (if a \<le> pb \<or> a > p then a - p else 0, if pb > b \<or> a \<ge> p then pb - b else 0)
      else Some (if p < a then a - p else 0, if pb > b then pb - b else 0))"

lemma trim_window_ends: "trim_window p n a w = trim_ends p (p + n) a (a + w)"
  by (simp only: trim_window_def trim_ends_def Let_def)

lemma trim_ends_keep:
  "p \<le> pb \<Longrightarrow> a \<le> b \<Longrightarrow> \<not> pb < a \<Longrightarrow> \<not> p > b \<Longrightarrow> \<not> p < a \<Longrightarrow> \<not> pb > b \<Longrightarrow> trim_ends p pb a b = Some (0, 0)"
  "p \<le> pb \<Longrightarrow> \<not> a \<le> b \<Longrightarrow> \<not> (p > b \<and> p < a) \<Longrightarrow> (pb \<ge> b \<and> pb < a \<Longrightarrow> pb = b) \<Longrightarrow> trim_ends p pb a b = Some (0, 0)"
  "\<not> p \<le> pb \<Longrightarrow> \<not> a \<le> b \<Longrightarrow> \<not> p < a \<Longrightarrow> \<not> pb > b \<Longrightarrow> trim_ends p pb a b = Some (0, 0)"
  by (auto simp: trim_ends_def)

lemma trim_ends_front:
  "p \<le> pb \<Longrightarrow> a \<le> b \<Longrightarrow> \<not> pb < a \<Longrightarrow> \<not> p > b \<Longrightarrow> p < a \<Longrightarrow> \<not> pb > b \<Longrightarrow> trim_ends p pb a b = Some (a - p, 0)"
  "p \<le> pb \<Longrightarrow> \<not> a \<le> b \<Longrightarrow> \<not> (p > b \<and> pb < a) \<Longrightarrow> p > b \<Longrightarrow> p < a \<Longrightarrow> trim_ends p pb a b = Some (a - p, 0)"
  "\<not> p \<le> pb \<Longrightarrow> a \<le> b \<Longrightarrow> \<not> (p > b \<and> pb < a) \<Longrightarrow> a \<le> pb \<or> a > p \<Longrightarrow> \<not> (pb > b \<or> a \<ge> p) \<Longrightarrow> trim_ends p pb a b = Some (a - p, 0)"
  "\<not> p \<le> pb \<Longrightarrow> \<not> a \<le> b \<Longrightarrow> p < a \<Longrightarrow> \<not> pb > b \<Longrightarrow> trim_ends p pb a b = Some (a - p, 0)"
  by (auto simp: trim_ends_def)

lemma trim_ends_reject:
  "p \<le> pb \<Longrightarrow> a \<le> b \<Longrightarrow> pb < a \<or> p > b \<Longrightarrow> trim_ends p pb a b = None"
  "p \<le> pb \<Longrightarrow> \<not> a \<le> b \<Longrightarrow> p > b \<and> pb < a \<Longrightarrow> trim_ends p pb a b = None"
  "\<not> p \<le> pb \<Longrightarrow> a \<le> b \<Longrightarrow> p > b \<and> pb < a \<Longrightarrow> trim_ends p pb a b = None"
  by (auto simp: trim_ends_def)

lemma four_cases: "(A \<Longrightarrow> B \<Longrightarrow> P) \<Longrightarrow> (A \<Longrightarrow> \<not> B \<Longrightarrow> P) \<Longrightarrow> (\<not> A \<Longrightarrow> B \<Longrightarrow> P) \<Longrightarrow> (\<not> A \<Longrightarrow> \<not> B \<Longrightarrow> P) \<Longrightarrow> P"
  by blast

lemma trim_window_inside:
  assumes "w \<le> 0x80000000" "uint (p - a) + M \<le> uint w" "uint n \<le> M" "0 < M"
  shows "trim_window p n a w = Some (0, 0)"
proof -
  have W: "uint w \<le> 2147483648" using assms(1) by (simp add: word_le_def)
  note t = trim_inside_int [OF u32_val_uint [of p] u32_val_uint [of n] u32_val_uint [of a] u32_val_uint [of w] W
    assms(2) [unfolded uint_wsub] assms(3,4), folded uint_wadd, folded word_le_def word_less_def word_uint_eq_iff]
  show ?thesis unfolding trim_window_ends
    by (rule four_cases [of "p \<le> p + n" "a \<le> a + w"])
      (use t in \<open>blast intro: trim_ends_keep\<close>)+
qed

lemma trim_window_behind:
  assumes "w \<le> 0x80000000" "uint (a - p) = X" "0 < X" "X \<le> 65535" "uint n \<le> 65535" "uint n \<le> X + uint w"
  shows "trim_window p n a w = (if uint n < X then None else Some (a - p, 0))"
proof -
  have W: "uint w \<le> 2147483648" using assms(1) by (simp add: word_le_def)
  note t = trim_behind_int [OF u32_val_uint [of p] u32_val_uint [of n] u32_val_uint [of a] u32_val_uint [of w] W
    assms(2) [unfolded uint_wsub] assms(3-6), folded uint_wadd, folded word_le_def word_less_def word_uint_eq_iff]
  show ?thesis
  proof (cases "uint n < X")
    case True
    have "trim_ends p (p + n) a (a + w) = None"
      by (rule four_cases [of "p \<le> p + n" "a \<le> a + w"]) (use t(1-4) True in \<open>blast intro: trim_ends_reject\<close>)+
    with True show ?thesis by (simp only: trim_window_ends if_True)
  next
    case False
    have "trim_ends p (p + n) a (a + w) = Some (a - p, 0)"
      by (rule four_cases [of "p \<le> p + n" "a \<le> a + w"]) (use t(5-8) False in \<open>blast intro: trim_ends_front\<close>)+
    with False show ?thesis by (simp only: trim_window_ends if_False)
  qed
qed

lemma trim_rxbuf_inside:
  assumes "fs_rx_avail fs \<le> 0x80000000" "unat (s - fs_rx_next_seq fs) + M \<le> unat (fs_rx_avail fs)" "unat n \<le> M" "0 < M"
  shows "tcp_trim_rxbuf fs s n = Some (0, 0)"
proof -
  have u: "uint (x::u32) = int (unat x)" for x by simp
  have n: "uint (ucast n :: u32) = int (unat n)" unfolding uint_widen by simp
  have "trim_window s (ucast n) (fs_rx_next_seq fs) (fs_rx_avail fs) = Some (0, 0)"
    by (rule trim_window_inside [OF assms(1), where M = "int M"]; (unfold n)?; (unfold u)?) (use assms(2-4) in linarith)+
  then show ?thesis by (simp add: trim_rxbuf_window)
qed

lemma trim_rxbuf_behind:
  assumes "fs_rx_avail fs \<le> 0x80000000" "unat (fs_rx_next_seq fs - s) = x" "0 < x" "x \<le> 65535" "unat n \<le> x + unat (fs_rx_avail fs)"
  shows "tcp_trim_rxbuf fs s n = (if unat n < x then None else Some (of_nat x, 0))"
proof -
  have u: "uint (x::u32) = int (unat x)" for x by simp
  have n: "uint (ucast n :: u32) = int (unat n)" unfolding uint_widen by simp
  have "trim_window s (ucast n) (fs_rx_next_seq fs) (fs_rx_avail fs) =
      (if int (unat n) < int x then None else Some (fs_rx_next_seq fs - s, 0))"
    by (rule trim_window_behind [OF assms(1), of "fs_rx_next_seq fs" s "int x" "ucast n", unfolded n]; (unfold u)?)
      (use assms(2-5) unat_lt_u16 [of n] in linarith)+
  then have "trim_window s (ucast n) (fs_rx_next_seq fs) (fs_rx_avail fs) =
      (if unat n < x then None else Some (fs_rx_next_seq fs - s, 0))" by (simp only: of_nat_less_iff)
  moreover have "ucast (fs_rx_next_seq fs - s) = (of_nat x :: u16)" using assms(2) by auto
  ultimately show ?thesis by (simp add: trim_rxbuf_window)
qed

lemma unat_add_small:
  fixes a :: u32
  assumes "unat a + m < 4294967296"
  shows "unat (a + of_nat m) = unat a + m"
  using assms by (simp add: unat_add_no_wrap unat_of_nat_small unsigned_of_nat take_bit_nat_eq_self)

lemma trim_kept:
  assumes "fs_rx_avail fs \<le> 0x80000000" "\<not> trim_wraps fs seq n" "tcp_trim_rxbuf fs seq n = Some (ts, te)"
  shows "unat ts + unat te \<le> unat n"
    and "i < unat n - (unat ts + unat te) \<Longrightarrow>
      unat (seq + ucast ts - fs_rx_next_seq fs) + i < unat (fs_rx_avail fs)"
proof -
  have e: "unat ts + unat te \<le> unat n"
    "\<And>i. i < unat n \<Longrightarrow> (unat ts \<le> i \<and> i < unat n - unat te) = in_rx_window fs (seq + of_nat i)"
    using trim_rxbuf_exact [OF assms(1,2)] assms(3) by auto
  show "unat ts + unat te \<le> unat n" by (rule e(1))
  let ?d = "seq + ucast ts - fs_rx_next_seq fs"
  have win: "unat (?d + of_nat i) < unat (fs_rx_avail fs)" if "i < unat n - (unat ts + unat te)" for i
  proof -
    have "in_rx_window fs (seq + of_nat (unat ts + i))" using that e by (intro e(2) [THEN iffD1]) auto
    moreover have "(of_nat (unat ts) :: u32) = ucast ts" by simp
    ultimately show ?thesis by (simp add: in_rx_window_def word_less_nat_alt algebra_simps)
  qed
  assume i: "i < unat n - (unat ts + unat te)"
  have d: "unat ?d < unat (fs_rx_avail fs)" using win [of 0] i by simp
  have "unat (fs_rx_avail fs) \<le> 2147483648" using assms(1) by (simp add: word_le_nat_alt)
  moreover have "i < 65536" using i unat_lt_u16 [of n] by linarith
  ultimately have "unat (?d + of_nat i) = unat ?d + i" using d by (intro unat_add_small) linarith
  with win [OF i] show "unat ?d + i < unat (fs_rx_avail fs)" by simp
qed
end
