(* ===== verification/Packet_Bytes.thy ===== *)
theory Packet_Bytes
  imports Packet_Defs
begin

text \<open>
  Packet headers in memory. The header structs of \<open>src/include/packet_defs.h\<close> are packed, and the
  fast path reads and writes them in place in the packet buffer; \<open>.._load\<close> and \<open>.._store\<close> give the
  struct for the bytes at an address and the bytes for a struct. Loads from a range outside the
  buffer fail.
\<close>

unbundle bit_operations_syntax

section \<open>Integers\<close>

fun st16 :: "u16 \<Rightarrow> bytes" where
  "st16 w = [ucast w, ucast (drop_bit 8 w)]"

fun st32 :: "u32 \<Rightarrow> bytes" where
  "st32 w = [ucast w, ucast (drop_bit 8 w), ucast (drop_bit 16 w), ucast (drop_bit 24 w)]"

fun st48 :: "48 word \<Rightarrow> bytes" where
  "st48 w = [ucast w, ucast (drop_bit 8 w), ucast (drop_bit 16 w), ucast (drop_bit 24 w),
     ucast (drop_bit 32 w), ucast (drop_bit 40 w)]"

definition ld8 :: "bytes \<Rightarrow> nat \<Rightarrow> u8" where "ld8 b i = b ! i"
definition ld16 :: "bytes \<Rightarrow> nat \<Rightarrow> u16" where
  "ld16 b i = ucast (b ! i) OR push_bit 8 (ucast (b ! (i + 1)))"
definition ld32 :: "bytes \<Rightarrow> nat \<Rightarrow> u32" where
  "ld32 b i = ucast (b ! i) OR push_bit 8 (ucast (b ! (i + 1))) OR push_bit 16 (ucast (b ! (i + 2)))
     OR push_bit 24 (ucast (b ! (i + 3)))"
definition ld48 :: "bytes \<Rightarrow> nat \<Rightarrow> 48 word" where
  "ld48 b i = ucast (b ! i) OR push_bit 8 (ucast (b ! (i + 1))) OR push_bit 16 (ucast (b ! (i + 2)))
     OR push_bit 24 (ucast (b ! (i + 3))) OR push_bit 32 (ucast (b ! (i + 4))) OR push_bit 40 (ucast (b ! (i + 5)))"

fun raw16 :: "beui16 \<Rightarrow> u16" where "raw16 (BE16 w) = w"
fun raw32 :: "beui32 \<Rightarrow> u32" where "raw32 (BE32 w) = w"

section \<open>Header structs\<close>

definition eth_load :: "bytes \<Rightarrow> nat \<Rightarrow> eth_hdr" where
  "eth_load b i = \<lparr>eth_dest = ld48 b i, eth_src = ld48 b (i + 6), eth_type = BE16 (ld16 b (i + 12))\<rparr>"

definition eth_store :: "eth_hdr \<Rightarrow> bytes" where
  "eth_store h = st48 (eth_dest h) @ st48 (eth_src h) @ st16 (raw16 (eth_type h))"

definition ip_load :: "bytes \<Rightarrow> nat \<Rightarrow> ip_hdr" where
  "ip_load b i = \<lparr>ip_v_hl = ld8 b i, ip_tos = ld8 b (i + 1), ip_len = BE16 (ld16 b (i + 2)),
     ip_id = BE16 (ld16 b (i + 4)), ip_offset = BE16 (ld16 b (i + 6)), ip_ttl = ld8 b (i + 8),
     ip_proto = ld8 b (i + 9), ip_chksum = ld16 b (i + 10), ip_src = BE32 (ld32 b (i + 12)),
     ip_dest = BE32 (ld32 b (i + 16))\<rparr>"

definition ip_store :: "ip_hdr \<Rightarrow> bytes" where
  "ip_store h = [ip_v_hl h, ip_tos h] @ st16 (raw16 (ip_len h)) @ st16 (raw16 (ip_id h)) @
     st16 (raw16 (ip_offset h)) @ [ip_ttl h, ip_proto h] @ st16 (ip_chksum h) @ st32 (raw32 (ip_src h)) @
     st32 (raw32 (ip_dest h))"

definition gre_load :: "bytes \<Rightarrow> nat \<Rightarrow> gre_hdr" where
  "gre_load b i = \<lparr>gre_c_k_s_ver = BE16 (ld16 b i), gre_proto = BE16 (ld16 b (i + 2)),
     gre_key = BE32 (ld32 b (i + 4))\<rparr>"

definition gre_store :: "gre_hdr \<Rightarrow> bytes" where
  "gre_store h = st16 (raw16 (gre_c_k_s_ver h)) @ st16 (raw16 (gre_proto h)) @ st32 (raw32 (gre_key h))"

definition tcp_load :: "bytes \<Rightarrow> nat \<Rightarrow> tcp_hdr" where
  "tcp_load b i = \<lparr>tcp_src = BE16 (ld16 b i), tcp_dest = BE16 (ld16 b (i + 2)),
     tcp_seqno = BE32 (ld32 b (i + 4)), tcp_ackno = BE32 (ld32 b (i + 8)),
     tcp_hdrlen_rsvd_flags = ld16 b (i + 12), tcp_wnd = BE16 (ld16 b (i + 14)),
     tcp_chksum = ld16 b (i + 16), tcp_urgp = BE16 (ld16 b (i + 18))\<rparr>"

definition tcp_store :: "tcp_hdr \<Rightarrow> bytes" where
  "tcp_store h = st16 (raw16 (tcp_src h)) @ st16 (raw16 (tcp_dest h)) @ st32 (raw32 (tcp_seqno h)) @
     st32 (raw32 (tcp_ackno h)) @ st16 (tcp_hdrlen_rsvd_flags h) @ st16 (raw16 (tcp_wnd h)) @
     st16 (tcp_chksum h) @ st16 (raw16 (tcp_urgp h))"

definition pkt_tcp_load :: "bytes \<Rightarrow> nat \<Rightarrow> pkt_tcp option" where
  "pkt_tcp_load b i = (if i + unat sizeof_pkt_tcp \<le> length b
     then Some \<lparr>p_eth = eth_load b i, p_ip = ip_load b (i + 14), p_tcp = tcp_load b (i + 34)\<rparr> else None)"

definition pkt_tcp_store :: "pkt_tcp \<Rightarrow> bytes" where
  "pkt_tcp_store p = eth_store (p_eth p) @ ip_store (p_ip p) @ tcp_store (p_tcp p)"

definition pkt_gre_load :: "bytes \<Rightarrow> nat \<Rightarrow> pkt_gre option" where
  "pkt_gre_load b i = (if i + unat sizeof_pkt_gre \<le> length b
     then Some \<lparr>g_eth = eth_load b i, g_out_ip = ip_load b (i + 14), g_gre = gre_load b (i + 34),
       g_in_ip = ip_load b (i + 42), g_tcp = tcp_load b (i + 62)\<rparr> else None)"

definition pkt_gre_store :: "pkt_gre \<Rightarrow> bytes" where
  "pkt_gre_store p = eth_store (g_eth p) @ ip_store (g_out_ip p) @ gre_store (g_gre p) @
     ip_store (g_in_ip p) @ tcp_store (g_tcp p)"

section \<open>Round trips\<close>

lemma ld_st16 [simp]: "ucast (ucast w :: u8) OR push_bit 8 (ucast (ucast (drop_bit 8 w) :: u8)) = (w :: u16)"
proof (rule bit_word_eqI)
  fix n assume "n < LENGTH(16)"
  then have "n < 8 \<or> (8 \<le> n \<and> n < 16)" by auto
  then show "bit (ucast (ucast w :: u8) OR push_bit 8 (ucast (ucast (drop_bit 8 w) :: u8)) :: u16) n = bit w n"
    by (elim disjE conjE) (auto simp: bit_simps)
qed

lemma ld_st32 [simp]: "ucast (ucast w :: u8) OR push_bit 8 (ucast (ucast (drop_bit 8 w) :: u8))
    OR push_bit 16 (ucast (ucast (drop_bit 16 w) :: u8)) OR push_bit 24 (ucast (ucast (drop_bit 24 w) :: u8)) = (w :: u32)"
  (is "?l = w")
proof (rule bit_word_eqI)
  fix n assume "n < LENGTH(32)"
  then have n: "n < 32" by simp
  show "bit ?l n = bit w n"
    using less_32_cases [OF n] by (elim disjE conjE) (auto simp: bit_simps)
qed

lemma ld_st48 [simp]: "ucast (ucast w :: u8) OR push_bit 8 (ucast (ucast (drop_bit 8 w) :: u8))
    OR push_bit 16 (ucast (ucast (drop_bit 16 w) :: u8)) OR push_bit 24 (ucast (ucast (drop_bit 24 w) :: u8))
    OR push_bit 32 (ucast (ucast (drop_bit 32 w) :: u8)) OR push_bit 40 (ucast (ucast (drop_bit 40 w) :: u8)) = (w :: 48 word)"
  (is "?l = w")
proof (rule bit_word_eqI)
  fix n assume "n < LENGTH(48)"
  then have "n < 8 \<or> (8 \<le> n \<and> n < 16) \<or> (16 \<le> n \<and> n < 24) \<or> (24 \<le> n \<and> n < 32)
      \<or> (32 \<le> n \<and> n < 40) \<or> (40 \<le> n \<and> n < 48)"
    by auto
  then show "bit ?l n = bit w n"
    by (elim disjE conjE) (auto simp: bit_simps)
qed

lemma raw_BE [simp]: "BE16 (raw16 a) = a" "BE32 (raw32 b) = b"
  by (cases a; simp) (cases b; simp)

lemma length_stores [simp]:
  "length (eth_store e) = 14" "length (ip_store i) = 20" "length (gre_store g) = 8" "length (tcp_store t) = 20"
  by (simp_all add: eth_store_def ip_store_def gre_store_def tcp_store_def)

lemma ld_append [simp]:
  "ld8 (a @ b) (length a + i) = ld8 b i" "ld16 (a @ b) (length a + i) = ld16 b i"
  "ld32 (a @ b) (length a + i) = ld32 b i" "ld48 (a @ b) (length a + i) = ld48 b i"
  by (simp_all add: ld8_def ld16_def ld32_def ld48_def nth_append add.assoc)

lemma ld_append0: "ld8 (a @ b) (length a) = ld8 b 0" "ld16 (a @ b) (length a) = ld16 b 0"
  "ld32 (a @ b) (length a) = ld32 b 0" "ld48 (a @ b) (length a) = ld48 b 0"
  using ld_append [of a b 0] by simp_all

lemma hdr_load_append:
  "eth_load (a @ b) (length a) = eth_load b 0" "ip_load (a @ b) (length a) = ip_load b 0"
  "gre_load (a @ b) (length a) = gre_load b 0" "tcp_load (a @ b) (length a) = tcp_load b 0"
  by (simp_all only: eth_load_def ip_load_def gre_load_def tcp_load_def ld_append ld_append0 add_0)

lemma eth_load_store [simp]: "eth_load (eth_store h @ r) 0 = h"
  by (simp add: eth_load_def eth_store_def ld48_def ld16_def)

lemma ip_load_store [simp]: "ip_load (ip_store h @ r) 0 = h"
  by (simp add: ip_load_def ip_store_def ld8_def ld32_def ld16_def)

lemma gre_load_store [simp]: "gre_load (gre_store h @ r) 0 = h"
  by (simp add: gre_load_def gre_store_def ld32_def ld16_def)

lemma tcp_load_store [simp]: "tcp_load (tcp_store h @ r) 0 = h"
  by (simp add: tcp_load_def tcp_store_def ld32_def ld16_def)

lemma length_pkt_stores [simp]:
  "length (pkt_tcp_store p) = 54" "length (pkt_gre_store g) = 82"
  by (simp_all add: pkt_tcp_store_def pkt_gre_store_def)

lemma pkt_tcp_load_store: "pkt_tcp_load (a @ pkt_tcp_store p @ r) (length a) = Some p"
proof -
  let ?b = "a @ pkt_tcp_store p @ r"
  have e: "eth_load ?b (length a) = p_eth p"
    by (simp add: hdr_load_append pkt_tcp_store_def)
  have i: "ip_load ?b (length a + 14) = p_ip p"
    using hdr_load_append(2) [of "a @ eth_store (p_eth p)" "ip_store (p_ip p) @ tcp_store (p_tcp p) @ r"]
    by (simp add: pkt_tcp_store_def)
  have t: "tcp_load ?b (length a + 34) = p_tcp p"
    using hdr_load_append(4) [of "a @ eth_store (p_eth p) @ ip_store (p_ip p)" "tcp_store (p_tcp p) @ r"]
    by (simp add: pkt_tcp_store_def add.assoc)
  show ?thesis by (simp add: pkt_tcp_load_def e i t sizeof_defs)
qed

lemma pkt_gre_load_store: "pkt_gre_load (a @ pkt_gre_store p @ r) (length a) = Some p"
proof -
  let ?b = "a @ pkt_gre_store p @ r"
  have e: "eth_load ?b (length a) = g_eth p"
    by (simp add: hdr_load_append pkt_gre_store_def)
  have o: "ip_load ?b (length a + 14) = g_out_ip p"
    using hdr_load_append(2) [of "a @ eth_store (g_eth p)"
      "ip_store (g_out_ip p) @ gre_store (g_gre p) @ ip_store (g_in_ip p) @ tcp_store (g_tcp p) @ r"]
    by (simp add: pkt_gre_store_def)
  have g: "gre_load ?b (length a + 34) = g_gre p"
    using hdr_load_append(3) [of "a @ eth_store (g_eth p) @ ip_store (g_out_ip p)"
      "gre_store (g_gre p) @ ip_store (g_in_ip p) @ tcp_store (g_tcp p) @ r"]
    by (simp add: pkt_gre_store_def add.assoc)
  have i: "ip_load ?b (length a + 42) = g_in_ip p"
    using hdr_load_append(2) [of "a @ eth_store (g_eth p) @ ip_store (g_out_ip p) @ gre_store (g_gre p)"
      "ip_store (g_in_ip p) @ tcp_store (g_tcp p) @ r"]
    by (simp add: pkt_gre_store_def add.assoc)
  have t: "tcp_load ?b (length a + 62) = g_tcp p"
    using hdr_load_append(4) [of "a @ eth_store (g_eth p) @ ip_store (g_out_ip p) @ gre_store (g_gre p) @ ip_store (g_in_ip p)"
      "tcp_store (g_tcp p) @ r"]
    by (simp add: pkt_gre_store_def add.assoc)
  show ?thesis by (simp add: pkt_gre_load_def e o g i t sizeof_defs)
qed

end
