(* ===== verification/Fast_Io.thy ===== *)
theory Fast_Io
  imports Fastpath_State Packet_Bytes
begin

text \<open>
  What the flow code uses to touch memory and the NIC: DMA to the shared memory of a VM
  (\<open>src/tas/fast/dma.h\<close>), network buffers and the pseudo header checksum
  (\<open>src/tas/fast/network.h\<close>), the transmit list and the cache of application notifications
  (\<open>src/tas/fast/fastemu.h\<close>). A failed \<open>assert\<close>, an \<open>abort\<close> and an access outside an array or a
  buffer are \<open>None\<close>.
\<close>

unbundle bit_operations_syntax

section \<open>DMA\<close>

definition dma_range :: "fp_env \<Rightarrow> u64 \<Rightarrow> u64 \<Rightarrow> bool" where
  "dma_range env addr len \<longleftrightarrow> addr + len \<ge> addr \<and> addr + len \<le> env_vm_shm_len env"

text \<open>\<open>vm_shm\<close> has one entry per VM and one for the slow path.\<close>

definition shm_get :: "(u16 \<Rightarrow> bytes) \<Rightarrow> u16 \<Rightarrow> bytes option" where
  "shm_get shm vm_id = (if unat vm_id \<le> FLEXNIC_PL_VMST_NUM then Some (shm vm_id) else None)"

definition dma_read :: "fp_env \<Rightarrow> (u16 \<Rightarrow> bytes) \<Rightarrow> u64 \<Rightarrow> u64 \<Rightarrow> u16 \<Rightarrow> bytes option" where
  "dma_read env shm addr len vm_id = do {
     c_assert (dma_range env addr len);
     m \<leftarrow> shm_get shm vm_id;
     mem_read m (unat addr) (unat len) }"

text \<open>\<open>buf\<close> holds the \<open>len\<close> bytes to write.\<close>

definition dma_write :: "fp_env \<Rightarrow> (u16 \<Rightarrow> bytes) \<Rightarrow> u64 \<Rightarrow> u64 \<Rightarrow> bytes \<Rightarrow> u16 \<Rightarrow> (u16 \<Rightarrow> bytes) option" where
  "dma_write env shm addr len buf vm_id = do {
     c_assert (dma_range env addr len);
     m \<leftarrow> shm_get shm vm_id;
     src \<leftarrow> mem_read buf 0 (unat len);
     m \<leftarrow> mem_write m (unat addr) src;
     Some (shm(vm_id := m)) }"

definition dma_pointer :: "fp_env \<Rightarrow> u64 \<Rightarrow> u64 \<Rightarrow> u64 option" where
  "dma_pointer env addr len = do { c_assert (dma_range env addr len); Some addr }"

section \<open>Network buffers\<close>

definition network_buf_reset :: "network_buf \<Rightarrow> network_buf" where
  "network_buf_reset nb = nb\<lparr>nb_offload := OffNone\<rparr>"

definition network_buf_setoff :: "network_buf \<Rightarrow> u16 \<Rightarrow> network_buf" where
  "network_buf_setoff nb off = nb\<lparr>nb_off := off\<rparr>"

definition network_buf_setlen :: "network_buf \<Rightarrow> u16 \<Rightarrow> network_buf" where
  "network_buf_setlen nb len = nb\<lparr>nb_len := len\<rparr>"

text \<open>Overwriting the buffer's memory from an offset on.\<close>

definition network_buf_write :: "network_buf \<Rightarrow> nat \<Rightarrow> bytes \<Rightarrow> network_buf option" where
  "network_buf_write nb off src = do { b \<leftarrow> mem_write (nb_buf nb) off src; Some (nb\<lparr>nb_buf := b\<rparr>) }"

definition network_ip_phdr_xsum :: "beui32 \<Rightarrow> beui32 \<Rightarrow> u8 \<Rightarrow> u16 \<Rightarrow> u16" where
  "network_ip_phdr_xsum ip_s ip_d proto l3_paylen =
     (let sum = (raw32 ip_s AND 0xffff) + (drop_bit 16 (raw32 ip_s) AND 0xffff) +
                (raw32 ip_d AND 0xffff) + (drop_bit 16 (raw32 ip_d) AND 0xffff) +
                push_bit 8 (ucast proto) + ucast (raw16 (t_beui16 l3_paylen));
          sum = drop_bit 16 (sum AND 0xffff0000) + (sum AND 0xffff);
          sum = drop_bit 16 (sum AND 0xffff0000) + (sum AND 0xffff)
      in ucast (sum :: u32))"

definition network_buf_tcpxsums ::
  "network_buf \<Rightarrow> u8 \<Rightarrow> u8 \<Rightarrow> beui32 \<Rightarrow> beui32 \<Rightarrow> u8 \<Rightarrow> u16 \<Rightarrow> u16 \<times> network_buf" where
  "network_buf_tcpxsums nb l2l l3l ip_s ip_d proto l3_paylen =
     (network_ip_phdr_xsum ip_s ip_d proto l3_paylen, nb\<lparr>nb_offload := OffTcp l2l l3l\<rparr>)"

definition network_buf_grexsums ::
  "network_buf \<Rightarrow> u8 \<Rightarrow> u8 \<Rightarrow> u8 \<Rightarrow> beui32 \<Rightarrow> beui32 \<Rightarrow> u8 \<Rightarrow> u16 \<Rightarrow> u16 \<times> network_buf" where
  "network_buf_grexsums nb l2l in_l3l out_l3l ip_s ip_d proto l3_paylen =
     (network_ip_phdr_xsum ip_s ip_d proto l3_paylen, nb\<lparr>nb_offload := OffGre l2l in_l3l out_l3l\<rparr>)"

definition network_buf_flowgroup :: "u16 \<Rightarrow> network_buf \<Rightarrow> u16 \<Rightarrow> u16" where
  "network_buf_flowgroup rss_reta_size nb core =
     (case nb_rss nb of None \<Rightarrow> core | Some rss \<Rightarrow> ucast (rss AND ucast (rss_reta_size - 1)))"

section \<open>Transmit list and notification cache\<close>

definition tx_send :: "dataplane_context \<Rightarrow> network_buf \<Rightarrow> u16 \<Rightarrow> u16 \<Rightarrow> dataplane_context option" where
  "tx_send ctx nb off len = do {
     c_assert (length (dc_tx ctx) < TXBUF_SIZE);
     Some (ctx\<lparr>dc_tx := dc_tx ctx @ [network_buf_setlen (network_buf_setoff nb off) len]\<rparr>) }"

definition tx_xsum_enable :: "network_buf \<Rightarrow> beui32 \<Rightarrow> beui32 \<Rightarrow> u16 \<Rightarrow> u16 \<times> network_buf" where
  "tx_xsum_enable nb ip_s ip_d l3_paylen =
     network_buf_tcpxsums nb (ucast sizeof_eth_hdr) (ucast sizeof_ip_hdr) ip_s ip_d IP_PROTO_TCP l3_paylen"

definition tx_gre_xsum_enable :: "network_buf \<Rightarrow> ip_hdr \<Rightarrow> u16 \<Rightarrow> u16 \<times> network_buf" where
  "tx_gre_xsum_enable nb in_iph l3_paylen =
     network_buf_grexsums nb (ucast sizeof_eth_hdr) (ucast sizeof_ip_hdr) (ucast sizeof_ip_hdr)
       (ip_src in_iph) (ip_dest in_iph) IP_PROTO_TCP l3_paylen"

text \<open>The cache has room for one batch; nothing checks that it is not full.\<close>

definition arx_cache_add ::
  "dataplane_context \<Rightarrow> u16 \<Rightarrow> u16 \<Rightarrow> u64 \<Rightarrow> u32 \<Rightarrow> u32 \<Rightarrow> u32 \<Rightarrow> u16 \<Rightarrow> dataplane_context option" where
  "arx_cache_add ctx ctx_id vmid opaque rx_bump rx_pos tx_bump type_flags = do {
     c_assert (length (dc_arx ctx) < BATCH_SIZE);
     Some (ctx\<lparr>dc_arx := dc_arx ctx @ [(ctx_id, vmid,
       \<lparr>arx_opaque = opaque, arx_rx_bump = rx_bump, arx_rx_pos = rx_pos, arx_tx_bump = tx_bump,
        arx_flags = ucast (drop_bit 8 type_flags), arx_type = ucast (type_flags AND 0xff)\<rparr>)]\<rparr>) }"

section \<open>Flow table access\<close>

definition fs_ok :: "u32 \<Rightarrow> bool" where "fs_ok i \<longleftrightarrow> unat i < FLEXNIC_PL_FLOWST_NUM"

definition fs_get :: "fp_mem \<Rightarrow> u32 \<Rightarrow> flextcp_pl_flowst option" where
  "fs_get fp i = (if fs_ok i then Some (fp_flowst fp i) else None)"

definition fs_put :: "fp_mem \<Rightarrow> u32 \<Rightarrow> flextcp_pl_flowst \<Rightarrow> fp_mem" where
  "fs_put fp i fs = fp\<lparr>fp_flowst := (fp_flowst fp)(i := fs)\<rparr>"

section \<open>Lemmas\<close>

text \<open>\<open>shm_ok\<close>: the memory of each VM has the configured length, less than half of the address space.\<close>

definition shm_ok :: "fp_env \<Rightarrow> (u16 \<Rightarrow> bytes) \<Rightarrow> bool" where
  "shm_ok env shm \<longleftrightarrow> env_vm_shm_len env \<le> 0x7FFFFFFFFFFFFFFF \<and>
     (\<forall>v. length (shm v) = unat (env_vm_shm_len env))"

text \<open>\<open>in_shm env base len\<close>: the buffer of \<open>len\<close> bytes at \<open>base\<close> lies in the memory of a VM.\<close>

definition in_shm :: "fp_env \<Rightarrow> u64 \<Rightarrow> u32 \<Rightarrow> bool" where
  "in_shm env base len \<longleftrightarrow> unat base + unat len \<le> unat (env_vm_shm_len env)"

lemma dma_range_in:
  assumes "env_vm_shm_len env \<le> 0x7FFFFFFFFFFFFFFF" and "unat addr + unat len \<le> unat (env_vm_shm_len env)"
  shows "dma_range env addr len"
proof -
  have "unat (addr + len) = unat addr + unat len"
    using assms unat_lt_u64 [of "env_vm_shm_len env"] by (intro unat_add_no_wrap) (simp del: unat_lt_u64)
  with assms show ?thesis by (simp add: dma_range_def word_le_nat_alt)
qed

lemma dma_read_in:
  assumes "shm_ok env shm" and "unat vm \<le> FLEXNIC_PL_VMST_NUM" and "unat addr + unat len \<le> unat (env_vm_shm_len env)"
  shows "dma_read env shm addr len vm = Some (take (unat len) (drop (unat addr) (shm vm)))"
  using assms dma_range_in [of env addr len] by (simp add: dma_read_def shm_get_def shm_ok_def mem_read_def)

lemma dma_write_in:
  assumes "shm_ok env shm" and "unat vm \<le> FLEXNIC_PL_VMST_NUM" and "unat addr + unat len \<le> unat (env_vm_shm_len env)"
    and "unat len \<le> length buf"
  shows "dma_write env shm addr len buf vm =
    Some (shm(vm := mem_splice (shm vm) (unat addr) (take (unat len) buf)))"
  using assms dma_range_in [of env addr len]
  by (simp add: dma_write_def shm_get_def shm_ok_def mem_read_def mem_write_def mem_splice_def)

lemma shm_ok_splice:
  assumes "shm_ok env shm" and "off + length src \<le> unat (env_vm_shm_len env)"
  shows "shm_ok env (shm(vm := mem_splice (shm vm) off src))"
  using assms by (auto simp: shm_ok_def mem_simps)

end
