(* ===== verification/Fast_Flows.thy ===== *)
theory Fast_Flows
  imports Fast_Io Tcp_Common Qman
begin

text \<open>
  The flow code of the fast path (\<open>src/tas/fast/fast_flows.c\<close>): the circular payload buffers, segment
  and acknowledgement construction, packet reception with its out-of-order interval, application
  bumps, retransmission, and the flow lookup. The lock of the flow state is left out: each operation
  holds it from its first access to its last one. Prefetching, tracing and debug output are left out.
\<close>

unbundle bit_operations_syntax

definition TCP_MSS :: u32 where "TCP_MSS = 1400"
definition TCP_MAX_RTT :: u32 where "TCP_MAX_RTT = 100000"
definition QMAN_SET_ALL :: u8 where
  "QMAN_SET_ALL = QMAN_SET_RATE OR QMAN_SET_MAXCHUNK OR QMAN_SET_AVAIL"

definition has_flag :: "u64 \<Rightarrow> u64 \<Rightarrow> bool" where "has_flag sp f \<longleftrightarrow> sp AND f = f"
definition has_tcp :: "u16 \<Rightarrow> u16 \<Rightarrow> bool" where "has_tcp flags f \<longleftrightarrow> flags AND f = f"

section \<open>Payload buffers\<close>

definition flow_tx_read :: "fp_env \<Rightarrow> (u16 \<Rightarrow> bytes) \<Rightarrow> flextcp_pl_flowst \<Rightarrow> u32 \<Rightarrow> u16 \<Rightarrow> bytes option" where
  "flow_tx_read env shm fs pos len =
     (if pos + ucast len \<le> fs_tx_len fs then
        dma_read env shm (fs_tx_base fs + ucast pos) (ucast len) (fs_vm_id fs)
      else do {
        let part = fs_tx_len fs - pos;
        a \<leftarrow> dma_read env shm (fs_tx_base fs + ucast pos) (ucast part) (fs_vm_id fs);
        b \<leftarrow> dma_read env shm (fs_tx_base fs) (ucast (ucast len - part)) (fs_vm_id fs);
        Some (a @ b) })"

definition flow_rx_write ::
  "fp_env \<Rightarrow> (u16 \<Rightarrow> bytes) \<Rightarrow> flextcp_pl_flowst \<Rightarrow> u32 \<Rightarrow> u16 \<Rightarrow> bytes \<Rightarrow> (u16 \<Rightarrow> bytes) option" where
  "flow_rx_write env shm fs pos len src =
     (let rx_base = fs_rx_base_sp fs AND FLEXNIC_PL_FLOWST_RX_MASK in
      if pos + ucast len \<le> fs_rx_len fs then
        dma_write env shm (rx_base + ucast pos) (ucast len) src (fs_vm_id fs)
      else do {
        let part = fs_rx_len fs - pos;
        shm \<leftarrow> dma_write env shm (rx_base + ucast pos) (ucast part) src (fs_vm_id fs);
        dma_write env shm rx_base (ucast (ucast len - part)) (drop (unat part) src) (fs_vm_id fs) })"

definition flow_rx_seq_write ::
  "fp_env \<Rightarrow> (u16 \<Rightarrow> bytes) \<Rightarrow> flextcp_pl_flowst \<Rightarrow> u32 \<Rightarrow> u16 \<Rightarrow> bytes \<Rightarrow> (u16 \<Rightarrow> bytes) option" where
  "flow_rx_seq_write env shm fs seq len src = do {
     let diff = seq - fs_rx_next_seq fs;
     let pos = fs_rx_next_pos fs + diff;
     let pos = (if pos \<ge> fs_rx_len fs then pos - fs_rx_len fs else pos);
     c_assert (pos < fs_rx_len fs);
     flow_rx_write env shm fs pos len src }"

section \<open>Segments and acknowledgements\<close>

definition dc_vm_ok :: "u16 \<Rightarrow> bool" where "dc_vm_ok v \<longleftrightarrow> unat v < FLEXNIC_PL_VMST_NUM"

text \<open>Each arithmetic operation on C doubles rounds its exact result.\<close>

definition flow_should_signal_ece :: "fp_env \<Rightarrow> dataplane_context \<Rightarrow> u16 \<Rightarrow> bool option" where
  "flow_should_signal_ece env ctx vm_id =
     (if env_ecn_thresh env \<le> 0 then Some False
      else do {
        let threshold = env_double env (env_double env (of_int (env_max_budget env)) * env_ecn_thresh env);
        c_assert (dc_vm_ok vm_id);
        Some (env_double env (of_int (dc_budgets ctx (ucast vm_id))) < threshold) })"

definition tcp_checksums ::
  "fp_env \<Rightarrow> network_buf \<Rightarrow> pkt_tcp \<Rightarrow> bytes \<Rightarrow> beui32 \<Rightarrow> beui32 \<Rightarrow> u16 \<Rightarrow> pkt_tcp \<times> network_buf" where
  "tcp_checksums env nb p rest ip_s ip_d l3_paylen =
     (let p = p\<lparr>p_ip := (p_ip p)\<lparr>ip_chksum := 0\<rparr>\<rparr> in
      if env_xsumoffload env then
        let (x, nb) = tx_xsum_enable nb ip_s ip_d l3_paylen in
        (p\<lparr>p_tcp := (p_tcp p)\<lparr>tcp_chksum := x\<rparr>\<rparr>, nb)
      else
        let p = p\<lparr>p_tcp := (p_tcp p)\<lparr>tcp_chksum := 0\<rparr>\<rparr>;
            p = p\<lparr>p_ip := (p_ip p)\<lparr>ip_chksum := env_ipv4_cksum env (p_ip p)\<rparr>\<rparr>
        in (p\<lparr>p_tcp := (p_tcp p)\<lparr>tcp_chksum := env_udptcp_cksum env (p_ip p) (p_tcp p) rest\<rparr>\<rparr>, nb))"

definition gre_checksums ::
  "fp_env \<Rightarrow> network_buf \<Rightarrow> pkt_gre \<Rightarrow> bytes \<Rightarrow> u16 \<Rightarrow> pkt_gre \<times> network_buf" where
  "gre_checksums env nb p rest l3_paylen =
     (let p = p\<lparr>g_in_ip := (g_in_ip p)\<lparr>ip_chksum := 0\<rparr>, g_out_ip := (g_out_ip p)\<lparr>ip_chksum := 0\<rparr>\<rparr> in
      if env_xsumoffload env then
        let (x, nb) = tx_gre_xsum_enable nb (g_in_ip p) l3_paylen in
        (p\<lparr>g_tcp := (g_tcp p)\<lparr>tcp_chksum := x\<rparr>\<rparr>, nb)
      else
        let p = p\<lparr>g_tcp := (g_tcp p)\<lparr>tcp_chksum := 0\<rparr>\<rparr>;
            p = p\<lparr>g_in_ip := (g_in_ip p)\<lparr>ip_chksum := env_ipv4_cksum env (g_in_ip p)\<rparr>\<rparr>;
            p = p\<lparr>g_out_ip := (g_out_ip p)\<lparr>ip_chksum := env_ipv4_cksum env (g_out_ip p)\<rparr>\<rparr>
        in (p\<lparr>g_tcp := (g_tcp p)\<lparr>tcp_chksum := env_udptcp_cksum env (g_in_ip p) (g_tcp p) rest\<rparr>\<rparr>, nb))"

text \<open>Parts of \<open>flow_tx_segment\<close> and \<open>flow_tx_segment_gre\<close>.\<close>

definition seg_optlen :: u16 where "seg_optlen = ucast ((sizeof_ts_opt + 3) AND NOT 3)"

definition seg_eth :: "fp_env \<Rightarrow> flextcp_pl_flowst \<Rightarrow> eth_hdr" where
  "seg_eth env fs = \<lparr>eth_dest = fs_remote_mac fs, eth_src = env_eth_addr env, eth_type = t_beui16 ETH_TYPE_IP\<rparr>"

definition seg_ip :: "u16 \<Rightarrow> u8 \<Rightarrow> beui32 \<Rightarrow> beui32 \<Rightarrow> ip_hdr" where
  "seg_ip len proto src dest = IPH_VHL_SET 4 5
     \<lparr>ip_v_hl = 0, ip_tos = 0, ip_len = t_beui16 len, ip_id = t_beui16 3, ip_offset = t_beui16 0, ip_ttl = 0xff,
      ip_proto = proto, ip_chksum = 0, ip_src = src, ip_dest = dest\<rparr>"

definition seg_ecn :: "flextcp_pl_flowst \<Rightarrow> ip_hdr \<Rightarrow> ip_hdr" where
  "seg_ecn fs h = (if has_flag (fs_rx_base_sp fs) FLEXNIC_PL_FLOWST_ECN then IPH_ECN_SET TAS_IP_ECN_ECT0 h else h)"

definition signals_ece :: "fp_env \<Rightarrow> dataplane_context \<Rightarrow> flextcp_pl_flowst \<Rightarrow> bool option" where
  "signals_ece env ctx fs =
     (if has_flag (fs_rx_base_sp fs) FLEXNIC_PL_FLOWST_ECN then flow_should_signal_ece env ctx (fs_vm_id fs)
      else Some False)"

definition seg_flags :: "bool \<Rightarrow> bool \<Rightarrow> u16" where
  "seg_flags fin ece = TAS_TCP_PSH OR TAS_TCP_ACK OR (if fin then TAS_TCP_FIN else 0) OR (if ece then TAS_TCP_ECE else 0)"

definition seg_tcp :: "flextcp_pl_flowst \<Rightarrow> u32 \<Rightarrow> u32 \<Rightarrow> u32 \<Rightarrow> u16 \<Rightarrow> tcp_hdr" where
  "seg_tcp fs seq ack rxwnd flags = TCPH_HDRLEN_FLAGS_SET (5 + seg_optlen div 4) flags
     \<lparr>tcp_src = fs_local_port fs, tcp_dest = fs_remote_port fs, tcp_seqno = t_beui32 seq, tcp_ackno = t_beui32 ack,
      tcp_hdrlen_rsvd_flags = 0, tcp_wnd = t_beui16 (ucast (min 0xFFFF rxwnd)), tcp_chksum = 0,
      tcp_urgp = t_beui16 0\<rparr>"

definition seg_opts :: "u32 \<Rightarrow> u32 \<Rightarrow> bytes" where
  "seg_opts ts_my ts_echo = mem_splice (replicate (unat seg_optlen) 0) 0
     (ts_opt_store \<lparr>ts_kind = TCP_OPT_TIMESTAMP, ts_length = ucast sizeof_ts_opt,
        ts_val = t_beui32 ts_my, ts_ecr = t_beui32 ts_echo\<rparr>)"

definition seg_payload :: "fp_env \<Rightarrow> (u16 \<Rightarrow> bytes) \<Rightarrow> flextcp_pl_flowst \<Rightarrow> u32 \<Rightarrow> u16 \<Rightarrow> bytes option" where
  "seg_payload env shm fs payload_pos payload =
     (if payload > 0 then flow_tx_read env shm fs payload_pos payload else Some [])"

definition flow_tx_segment ::
  "fp_env \<Rightarrow> (u16 \<Rightarrow> bytes) \<Rightarrow> dataplane_context \<Rightarrow> network_buf \<Rightarrow> flextcp_pl_flowst \<Rightarrow> u32 \<Rightarrow> u32 \<Rightarrow> u32 \<Rightarrow>
     u16 \<Rightarrow> u32 \<Rightarrow> u32 \<Rightarrow> u32 \<Rightarrow> bool \<Rightarrow> dataplane_context option" where
  "flow_tx_segment env shm ctx nb fs seq ack rxwnd payload payload_pos ts_echo ts_my fin = do {
     let hdrs_len = ucast sizeof_pkt_tcp + seg_optlen;
     ece \<leftarrow> signals_ece env ctx fs;
     let p = \<lparr>p_eth = seg_eth env fs,
       p_ip = seg_ecn fs (seg_ip (hdrs_len - 14 + payload) IP_PROTO_TCP (fs_out_local_ip fs) (fs_out_remote_ip fs)),
       p_tcp = seg_tcp fs seq ack rxwnd (seg_flags fin ece)\<rparr>;
     data \<leftarrow> seg_payload env shm fs payload_pos payload;
     let rest = seg_opts ts_my ts_echo @ data;
     let (p, nb) = tcp_checksums env nb p rest (fs_out_local_ip fs) (fs_out_remote_ip fs) (hdrs_len - 34 + payload);
     nb \<leftarrow> network_buf_write nb 0 (pkt_tcp_store p @ rest);
     tx_send ctx nb 0 (hdrs_len + payload) }"

definition flow_tx_segment_gre ::
  "fp_env \<Rightarrow> (u16 \<Rightarrow> bytes) \<Rightarrow> dataplane_context \<Rightarrow> network_buf \<Rightarrow> flextcp_pl_flowst \<Rightarrow> u32 \<Rightarrow> u32 \<Rightarrow> u32 \<Rightarrow>
     u16 \<Rightarrow> u32 \<Rightarrow> u32 \<Rightarrow> u32 \<Rightarrow> bool \<Rightarrow> dataplane_context option" where
  "flow_tx_segment_gre env shm ctx nb fs seq ack rxwnd payload payload_pos ts_echo ts_my fin = do {
     let hdrs_len = ucast sizeof_pkt_gre + seg_optlen;
     ece \<leftarrow> signals_ece env ctx fs;
     let p = \<lparr>g_eth = seg_eth env fs,
       g_out_ip = seg_ip (hdrs_len - 14 + payload) IP_PROTO_GRE (fs_out_local_ip fs) (fs_out_remote_ip fs),
       g_gre = GREH_CKSV_SET 0 1 0 0
         \<lparr>gre_c_k_s_ver = t_beui16 0, gre_proto = t_beui16 GRE_PROTO_IP, gre_key = fs_tunnel_id fs\<rparr>,
       g_in_ip = seg_ecn fs (seg_ip (hdrs_len - 42 + payload) IP_PROTO_TCP (fs_in_local_ip fs) (fs_in_remote_ip fs)),
       g_tcp = seg_tcp fs seq ack rxwnd (seg_flags fin ece)\<rparr>;
     data \<leftarrow> seg_payload env shm fs payload_pos payload;
     let rest = seg_opts ts_my ts_echo @ data;
     let (p, nb) = gre_checksums env nb p rest (hdrs_len - 62 + payload);
     nb \<leftarrow> network_buf_write nb 0 (pkt_gre_store p @ rest);
     tx_send ctx nb 0 (hdrs_len + payload) }"

text \<open>
  Acknowledgements are built in the buffer of the received packet. \<open>ts_off\<close> is the offset of the
  timestamp option behind the header struct. \<open>ack_tcp\<close> and \<open>ack_opts\<close> are the parts that
  \<open>flow_tx_ack\<close> and \<open>flow_tx_ack_gre\<close> share.
\<close>

definition ack_eth :: "eth_hdr \<Rightarrow> eth_hdr" where
  "ack_eth h = h\<lparr>eth_src := eth_dest h, eth_dest := eth_src h\<rparr>"

definition ack_ip :: "u16 \<Rightarrow> ip_hdr \<Rightarrow> ip_hdr" where
  "ack_ip len h = (IPH_ECN_SET TAS_IP_ECN_NONE (h\<lparr>ip_src := ip_dest h, ip_dest := ip_src h\<rparr>))
     \<lparr>ip_len := t_beui16 len, ip_ttl := 0xff\<rparr>"

definition ack_tcp :: "u32 \<Rightarrow> u32 \<Rightarrow> u32 \<Rightarrow> u16 \<Rightarrow> tcp_hdr \<Rightarrow> tcp_hdr" where
  "ack_tcp seq ack rxwnd ecn_flags h = TCPH_HDRLEN_FLAGS_SET (TCPH_HDRLEN h) (TAS_TCP_ACK OR ecn_flags)
     (h\<lparr>tcp_src := tcp_dest h, tcp_dest := tcp_src h, tcp_wnd := t_beui16 (ucast (min 0xFFFF rxwnd)),
        tcp_seqno := t_beui32 seq, tcp_ackno := t_beui32 ack, tcp_urgp := t_beui16 0\<rparr>)"

definition ack_ecn :: "ip_hdr \<Rightarrow> bool \<Rightarrow> u16" where
  "ack_ecn h mark_ece = (if IPH_ECN h = TAS_IP_ECN_CE then TAS_TCP_ECE else 0) OR (if mark_ece then TAS_TCP_ECE else 0)"

definition ack_opts :: "network_buf \<Rightarrow> nat \<Rightarrow> u32 \<Rightarrow> u32 \<Rightarrow> network_buf option" where
  "ack_opts nb opt_at myts echots = do {
     nb \<leftarrow> network_buf_write nb (opt_at + 2) (be32_store (t_beui32 myts));
     network_buf_write nb (opt_at + 6) (be32_store (t_beui32 echots)) }"

definition flow_tx_ack ::
  "fp_env \<Rightarrow> dataplane_context \<Rightarrow> flextcp_pl_flowst \<Rightarrow> u32 \<Rightarrow> u32 \<Rightarrow> u32 \<Rightarrow> u32 \<Rightarrow> u32 \<Rightarrow> network_buf \<Rightarrow> u16 \<Rightarrow>
     dataplane_context option" where
  "flow_tx_ack env ctx fs seq ack rxwnd echots myts nb ts_off = do {
     let base = unat (nb_off nb);
     p \<leftarrow> pkt_tcp_load (nb_buf nb) base;
     let hdrlen = ucast sizeof_pkt_tcp + (TCPH_HDRLEN (p_tcp p) - 5) * 4;
     mark_ece \<leftarrow> signals_ece env ctx fs;
     let p = \<lparr>p_eth = ack_eth (p_eth p), p_ip = ack_ip (hdrlen - 14) (p_ip p),
       p_tcp = ack_tcp seq ack rxwnd (ack_ecn (p_ip p) mark_ece) (p_tcp p)\<rparr>;
     nb \<leftarrow> ack_opts nb (base + unat sizeof_pkt_tcp + unat ts_off) myts echots;
     let (p, nb) = tcp_checksums env nb p (drop (base + unat sizeof_pkt_tcp) (nb_buf nb))
       (ip_src (p_ip p)) (ip_dest (p_ip p)) (hdrlen - 34);
     nb \<leftarrow> network_buf_write nb base (pkt_tcp_store p);
     tx_send ctx nb (nb_off nb) hdrlen }"

definition flow_tx_ack_gre ::
  "fp_env \<Rightarrow> dataplane_context \<Rightarrow> flextcp_pl_flowst \<Rightarrow> u32 \<Rightarrow> u32 \<Rightarrow> u32 \<Rightarrow> u32 \<Rightarrow> u32 \<Rightarrow> network_buf \<Rightarrow> u16 \<Rightarrow>
     dataplane_context option" where
  "flow_tx_ack_gre env ctx fs seq ack rxwnd echots myts nb ts_off = do {
     let base = unat (nb_off nb);
     p \<leftarrow> pkt_gre_load (nb_buf nb) base;
     let hdrlen = ucast sizeof_pkt_gre + (TCPH_HDRLEN (g_tcp p) - 5) * 4;
     mark_ece \<leftarrow> signals_ece env ctx fs;
     let p = \<lparr>g_eth = ack_eth (g_eth p), g_out_ip = ack_ip (hdrlen - 14) (g_out_ip p), g_gre = g_gre p,
       g_in_ip = ack_ip (hdrlen - 42) (g_in_ip p),
       g_tcp = ack_tcp seq ack rxwnd (ack_ecn (g_in_ip p) mark_ece) (g_tcp p)\<rparr>;
     nb \<leftarrow> ack_opts nb (base + unat sizeof_pkt_gre + unat ts_off) myts echots;
     let (p, nb) = gre_checksums env nb p (drop (base + unat sizeof_pkt_gre) (nb_buf nb)) (hdrlen - 62);
     nb \<leftarrow> network_buf_write nb base (pkt_gre_store p);
     tx_send ctx nb (nb_off nb) hdrlen }"

definition fast_flows_kernelxsums :: "fp_env \<Rightarrow> network_buf \<Rightarrow> pkt_tcp \<Rightarrow> bytes \<Rightarrow> pkt_tcp \<times> network_buf" where
  "fast_flows_kernelxsums env nb p rest =
     tcp_checksums env nb p rest (ip_src (p_ip p)) (ip_dest (p_ip p)) (f_beui16 (ip_len (p_ip p)) - ucast sizeof_ip_hdr)"

definition fast_flows_kernelxsums_gre :: "fp_env \<Rightarrow> network_buf \<Rightarrow> pkt_gre \<Rightarrow> bytes \<Rightarrow> pkt_gre \<times> network_buf" where
  "fast_flows_kernelxsums_gre env nb p rest =
     gre_checksums env nb p rest (f_beui16 (ip_len (g_in_ip p)) - ucast sizeof_ip_hdr)"

section \<open>Queue manager\<close>

text \<open>Every caller aborts when \<open>tas_qman_set\<close> returns an error.\<close>

definition flow_qman_update :: "dataplane_context \<Rightarrow> u32 \<Rightarrow> u32 \<Rightarrow> u32 \<Rightarrow> u32 \<Rightarrow> u16 \<Rightarrow> dataplane_context option" where
  "flow_qman_update ctx vm_id flow_id rate avail max_chunk = do {
     (ret, t) \<leftarrow> tas_qman_set (dc_qman ctx) vm_id flow_id rate avail max_chunk QMAN_SET_ALL;
     c_assert (ret = 0);
     Some (ctx\<lparr>dc_qman := t\<rparr>) }"

definition flow_reset_retransmit :: "flextcp_pl_flowst \<Rightarrow> flextcp_pl_flowst" where
  "flow_reset_retransmit fs =
     (let fs = fs\<lparr>fs_rx_dupack_cnt := 0, fs_tx_next_seq := fs_tx_next_seq fs - fs_tx_sent fs\<rparr>;
          fs = (if fs_tx_next_pos fs \<ge> fs_tx_sent fs
                then fs\<lparr>fs_tx_next_pos := fs_tx_next_pos fs - fs_tx_sent fs\<rparr>
                else let x = fs_tx_sent fs - fs_tx_next_pos fs in fs\<lparr>fs_tx_next_pos := fs_tx_len fs - x\<rparr>);
          fs = fs\<lparr>fs_tx_avail := fs_tx_avail fs + fs_tx_sent fs, fs_tx_sent := 0\<rparr>;
          fs = (if fs_cnt_tx_drops fs = 0 then fs\<lparr>fs_tx_rate := fs_tx_rate fs div 2\<rparr> else fs)
      in fs\<lparr>fs_cnt_tx_drops := fs_cnt_tx_drops fs + 1\<rparr>)"

text \<open>Sending the next segment of a flow that the queue manager selected. The flow is handed over if another core
  serves its flow group now; waking that core up is left out.\<close>

definition qman_advance :: "flextcp_pl_flowst \<Rightarrow> u32 \<Rightarrow> flextcp_pl_flowst" where
  "qman_advance fs len =
     (let fs = fs\<lparr>fs_tx_next_seq := fs_tx_next_seq fs + len, fs_tx_next_pos := fs_tx_next_pos fs + len\<rparr>;
          fs = (if fs_tx_next_pos fs \<ge> fs_tx_len fs
                then fs\<lparr>fs_tx_next_pos := fs_tx_next_pos fs - fs_tx_len fs\<rparr> else fs)
      in fs\<lparr>fs_tx_sent := fs_tx_sent fs + len, fs_tx_avail := fs_tx_avail fs - len\<rparr>)"

definition qman_forward :: "fp_env \<Rightarrow> fp_mem \<Rightarrow> dataplane_context \<Rightarrow> u32 \<Rightarrow> u32 \<Rightarrow> u16 \<Rightarrow>
    (int \<times> fp_mem \<times> dataplane_context) option" where
  "qman_forward env fp ctx vm_id flow_id new_core = do {
     c_assert (length (fp_rings fp new_core) < env_ring_size env);
     ctx \<leftarrow> flow_qman_update ctx vm_id flow_id 0 0 0;
     Some (- 1, fp\<lparr>fp_rings := (fp_rings fp)(new_core := fp_rings fp new_core @ [flow_id])\<rparr>, ctx) }"

definition fast_flows_qman :: "fp_env \<Rightarrow> fp_mem \<Rightarrow> dataplane_context \<Rightarrow> u32 \<Rightarrow> u32 \<Rightarrow> network_buf \<Rightarrow> u32 \<Rightarrow>
    (int \<times> fp_mem \<times> dataplane_context) option" where
  "fast_flows_qman env fp ctx vm_id queue nb ts = do {
     let flow_id = queue;
     fs \<leftarrow> fs_get fp flow_id;
     c_assert (unat (fs_flow_group fs) < FLEXNIC_PL_MAX_FLOWGROUPS);
     let new_core = ucast (fp_steering fp (fs_flow_group fs));
     if new_core \<noteq> dc_id ctx then qman_forward env fp ctx vm_id flow_id new_core
     else do {
       let avail = tcp_txavail fs None;
       if avail = 0 then Some (- 1, fp, ctx)
       else do {
         let len = min avail TCP_MSS;
         let fs' = qman_advance fs len;
         let fin = has_flag (fs_rx_base_sp fs') FLEXNIC_PL_FLOWST_TXFIN \<and> fs_tx_avail fs' = 0;
         c_assert (fin \<longrightarrow> len > 0);
         let len = (if fin then len - 1 else len);
         ctx \<leftarrow> flow_tx_segment env (fp_shm fp) ctx nb fs' (fs_tx_next_seq fs) (fs_rx_next_seq fs) (fs_rx_avail fs)
           (ucast len) (fs_tx_next_pos fs) (fs_tx_next_ts fs') ts fin;
         Some (0, fs_put fp flow_id fs', ctx) } } }"

text \<open>The flow index is cut to 16 bits.\<close>

definition fast_flows_qman_fwd :: "fp_mem \<Rightarrow> dataplane_context \<Rightarrow> u32 \<Rightarrow> (int \<times> dataplane_context) option" where
  "fast_flows_qman_fwd fp ctx fid = do {
     fs \<leftarrow> fs_get fp fid;
     let flow_id = (ucast fid :: u16);
     ctx \<leftarrow> flow_qman_update ctx (ucast (fs_vm_id fs)) (ucast flow_id) (fs_tx_rate fs) (tcp_txavail fs None) (ucast TCP_MSS);
     Some (0, ctx) }"

section \<open>Bumps and retransmission\<close>

definition bump_out_of_order :: "u16 \<Rightarrow> u16 \<Rightarrow> bool" where
  "bump_out_of_order bump_seq fs_seq \<longleftrightarrow>
     (bump_seq \<ge> fs_seq \<and> bump_seq - fs_seq > 0xFFFF div 2) \<or>
     (bump_seq < fs_seq \<and> (fs_seq < (0xFFFF div 4) * 3 \<or> bump_seq > 0xFFFF div 4))"

definition bump_too_large :: "flextcp_pl_flowst \<Rightarrow> u32 \<Rightarrow> u32 \<Rightarrow> bool" where
  "bump_too_large fs rx_bump tx_bump \<longleftrightarrow>
     (let tx_avail = fs_tx_avail fs + tx_bump in
      (tx_bump > fs_tx_len fs \<or> tx_avail > fs_tx_len fs \<or> tx_avail + fs_tx_sent fs > fs_tx_len fs) \<or>
      (rx_bump > fs_rx_len fs \<or> rx_bump + fs_rx_avail fs > fs_tx_len fs))"

definition fast_flows_bump :: "fp_env \<Rightarrow> fp_mem \<Rightarrow> dataplane_context \<Rightarrow> u32 \<Rightarrow> u16 \<Rightarrow> u32 \<Rightarrow> u32 \<Rightarrow> u8 \<Rightarrow>
    network_buf \<Rightarrow> u32 \<Rightarrow> (int \<times> fp_mem \<times> dataplane_context) option" where
  "fast_flows_bump env fp ctx flow_id bump_seq rx_bump tx_bump flags nb ts = do {
     fs \<leftarrow> fs_get fp flow_id;
     if bump_out_of_order bump_seq (fs_bump_seq fs) then Some (- 1, fp, ctx)
     else do {
       let fs = fs\<lparr>fs_bump_seq := bump_seq\<rparr>;
       let txfin = has_flag (fs_rx_base_sp fs) FLEXNIC_PL_FLOWST_TXFIN;
       let done = (flags AND FLEXTCP_PL_ATX_FLTXDONE = FLEXTCP_PL_ATX_FLTXDONE);
       if \<not> (txfin \<and> tx_bump \<noteq> 0) \<and> done \<and> fs_rx_base_sp fs AND FLEXNIC_PL_FLOWST_TXFIN = 0 \<and> tx_bump = 0
       then Some (- 1, fs_put fp flow_id fs, ctx)
       else do {
         let tx_bump = (if txfin \<and> tx_bump \<noteq> 0 then 0 else tx_bump);
         let tx_avail = fs_tx_avail fs + tx_bump;
         if bump_too_large fs rx_bump tx_bump then Some (- 1, fs_put fp flow_id fs, ctx)
         else do {
           let old_avail = tcp_txavail fs None;
           let new_avail = tcp_txavail fs (Some tx_avail);
           let fs = (if done \<and> fs_rx_base_sp fs AND FLEXNIC_PL_FLOWST_TXFIN = 0
             then fs\<lparr>fs_rx_base_sp := fs_rx_base_sp fs OR FLEXNIC_PL_FLOWST_TXFIN\<rparr> else fs);
           ctx \<leftarrow> (if old_avail < new_avail
             then flow_qman_update ctx (ucast (fs_vm_id fs)) flow_id (fs_tx_rate fs) new_avail (ucast TCP_MSS)
             else Some ctx);
           let rx_avail_prev = fs_rx_avail fs;
           let fs = fs\<lparr>fs_tx_avail := tx_avail, fs_rx_avail := fs_rx_avail fs + rx_bump\<rparr>;
           if new_avail = 0 \<and> rx_avail_prev = 0 \<and> fs_rx_avail fs \<noteq> 0 then do {
             ctx \<leftarrow> flow_tx_segment env (fp_shm fp) ctx nb fs (fs_tx_next_seq fs) (fs_rx_next_seq fs)
               (fs_rx_avail fs) 0 0 (fs_tx_next_ts fs) ts False;
             Some (0, fs_put fp flow_id fs, ctx) }
           else Some (- 1, fs_put fp flow_id fs, ctx) } } } }"

definition fast_flows_winretransmit ::
  "fp_env \<Rightarrow> fp_mem \<Rightarrow> dataplane_context \<Rightarrow> u32 \<Rightarrow> network_buf \<Rightarrow> u32 \<Rightarrow> dataplane_context option" where
  "fast_flows_winretransmit env fp ctx flow_id nb ts = do {
     fs \<leftarrow> fs_get fp flow_id;
     c_assert (dc_vm_ok (fs_vm_id fs));
     let ctx = dc_charge ctx (ucast (fs_vm_id fs)) 1;
     flow_tx_segment env (fp_shm fp) ctx nb fs (fs_tx_next_seq fs) (fs_rx_next_seq fs) (fs_rx_avail fs) 0 0
       (fs_tx_next_ts fs) ts False }"

definition fast_flows_retransmit :: "fp_mem \<Rightarrow> dataplane_context \<Rightarrow> u32 \<Rightarrow> (fp_mem \<times> dataplane_context) option" where
  "fast_flows_retransmit fp ctx flow_id = do {
     fs \<leftarrow> fs_get fp flow_id;
     c_assert (dc_vm_ok (fs_vm_id fs));
     let ctx = dc_charge ctx (ucast (fs_vm_id fs)) 1;
     let old_avail = tcp_txavail fs None;
     if fs_tx_sent fs = 0 then Some (fp, ctx)
     else do {
       let fs = flow_reset_retransmit fs;
       let new_avail = tcp_txavail fs None;
       ctx \<leftarrow> (if new_avail > old_avail
         then flow_qman_update ctx (ucast (fs_vm_id fs)) flow_id (fs_tx_rate fs) new_avail (ucast TCP_MSS)
         else Some ctx);
       Some (fs_put fp flow_id fs, ctx) } }"

section \<open>Received packets\<close>

text \<open>
  The local variables of \<open>fast_flows_packet\<close> that change while a packet is processed. Each stage below
  is a piece of that function up to the next \<open>goto unlock\<close>; a stage returns \<open>True\<close> with the variables
  when it jumps there. \<open>pm\<close> is the memory from the packet's first byte on.
\<close>

record rx_vars =
  rv_fs :: flextcp_pl_flowst
  rv_shm :: "u16 \<Rightarrow> bytes"
  rv_payload_bytes :: u32
  rv_payload_off :: u32
  rv_seq :: u32
  rv_rx_bump :: u32
  rv_tx_bump :: u32
  rv_trigger_ack :: bool
  rv_fin_bump :: bool

text \<open>The counters for congestion control, and the acknowledged bytes: they may exceed what was sent.\<close>

definition ack_stats :: "tcp_hdr \<Rightarrow> u32 \<Rightarrow> flextcp_pl_flowst \<Rightarrow> flextcp_pl_flowst" where
  "ack_stats h tx_bump fs =
     (let fs = fs\<lparr>fs_cnt_rx_ack_bytes := fs_cnt_rx_ack_bytes fs + tx_bump\<rparr> in
      if has_tcp (TCPH_FLAGS h) TAS_TCP_ECE
      then fs\<lparr>fs_cnt_rx_ecn_bytes := fs_cnt_rx_ecn_bytes fs + tx_bump\<rparr> else fs)"

definition ack_sent :: "u32 \<Rightarrow> flextcp_pl_flowst \<Rightarrow> flextcp_pl_flowst" where
  "ack_sent tx_bump fs =
     (if tx_bump \<le> fs_tx_sent fs then fs\<lparr>fs_tx_sent := fs_tx_sent fs - tx_bump\<rparr>
      else
        let fs = fs\<lparr>fs_tx_next_seq := fs_tx_next_seq fs + (tx_bump - fs_tx_sent fs),
              fs_tx_next_pos := fs_tx_next_pos fs + (tx_bump - fs_tx_sent fs)\<rparr>;
            fs = (if fs_tx_next_pos fs \<ge> fs_tx_len fs
                  then fs\<lparr>fs_tx_next_pos := fs_tx_next_pos fs - fs_tx_len fs\<rparr> else fs)
        in fs\<lparr>fs_tx_avail := fs_tx_avail fs - (tx_bump - fs_tx_sent fs), fs_tx_sent := 0\<rparr>)"

definition rx_ack :: "tcp_hdr \<Rightarrow> u32 \<Rightarrow> rx_vars \<Rightarrow> rx_vars \<times> bool" where
  "rx_ack h orig_payload r =
     (if \<not> has_tcp (TCPH_FLAGS h) TAS_TCP_ACK then (r, False)
      else
        let fs = (rv_fs r)\<lparr>fs_cnt_rx_acks := fs_cnt_rx_acks (rv_fs r) + 1\<rparr> in
        case tcp_valid_rxack fs (f_beui32 (tcp_ackno h)) of
          None \<Rightarrow> (r\<lparr>rv_fs := fs\<rparr>, False)
        | Some tx_bump \<Rightarrow>
            let fs = ack_sent tx_bump (ack_stats h tx_bump fs); r = r\<lparr>rv_tx_bump := tx_bump\<rparr> in
            if tx_bump \<noteq> 0 then (r\<lparr>rv_fs := fs\<lparr>fs_rx_dupack_cnt := 0\<rparr>\<rparr>, False)
            else if orig_payload = 0 then
              let fs = fs\<lparr>fs_rx_dupack_cnt := fs_rx_dupack_cnt fs + 1\<rparr> in
              if fs_rx_dupack_cnt fs \<ge> 3 then (r\<lparr>rv_fs := flow_reset_retransmit fs\<rparr>, True)
              else (r\<lparr>rv_fs := fs\<rparr>, False)
            else (r\<lparr>rv_fs := fs\<rparr>, False))"

text \<open>The payload length is cut to 16 bits for the trimming.\<close>

definition rx_trim :: "rx_vars \<Rightarrow> rx_vars \<times> bool" where
  "rx_trim r =
     (case tcp_trim_rxbuf (rv_fs r) (rv_seq r) (ucast (rv_payload_bytes r)) of
        None \<Rightarrow> (r\<lparr>rv_trigger_ack := True\<rparr>, True)
      | Some (trim_start, trim_end) \<Rightarrow>
          (r\<lparr>rv_payload_bytes := rv_payload_bytes r - (ucast trim_start + ucast trim_end),
             rv_payload_off := rv_payload_off r + ucast trim_start,
             rv_seq := rv_seq r + ucast trim_start\<rparr>, False))"

definition rx_seq_write :: "fp_env \<Rightarrow> bytes \<Rightarrow> rx_vars \<Rightarrow> flextcp_pl_flowst \<Rightarrow> (rx_vars \<times> bool) option" where
  "rx_seq_write env pm r fs = do {
     shm \<leftarrow> flow_rx_seq_write env (rv_shm r) fs (rv_seq r) (ucast (rv_payload_bytes r))
       (drop (unat (rv_payload_off r)) pm);
     Some (r\<lparr>rv_fs := fs, rv_shm := shm\<rparr>, True) }"

definition rx_ooo :: "fp_env \<Rightarrow> bytes \<Rightarrow> rx_vars \<Rightarrow> (rx_vars \<times> bool) option" where
  "rx_ooo env pm r =
     (let fs = rv_fs r in
      if rv_seq r = fs_rx_next_seq fs then Some (r, False)
      else
        let r = r\<lparr>rv_trigger_ack := True\<rparr> in
        if rv_payload_bytes r = 0 then Some (r, True)
        else if fs_rx_ooo_len fs = 0 then
          rx_seq_write env pm r (fs\<lparr>fs_rx_ooo_start := rv_seq r, fs_rx_ooo_len := rv_payload_bytes r\<rparr>)
        else if rv_seq r + rv_payload_bytes r = fs_rx_ooo_start fs then
          rx_seq_write env pm r
            (fs\<lparr>fs_rx_ooo_start := rv_seq r, fs_rx_ooo_len := fs_rx_ooo_len fs + rv_payload_bytes r\<rparr>)
        else if fs_rx_ooo_start fs + fs_rx_ooo_len fs = rv_seq r then
          rx_seq_write env pm r (fs\<lparr>fs_rx_ooo_len := fs_rx_ooo_len fs + rv_payload_bytes r\<rparr>)
        else Some (r, True))"

definition rx_rtt :: "tcp_hdr \<Rightarrow> tcp_timestamp_opt \<Rightarrow> u32 \<Rightarrow> rx_vars \<Rightarrow> rx_vars" where
  "rx_rtt h opt ts r =
     (let fs = (rv_fs r)\<lparr>fs_tx_next_ts := f_beui32 (ts_val opt)\<rparr>;
          rtt = ts - f_beui32 (ts_ecr opt);
          fs = (if has_tcp (TCPH_FLAGS h) TAS_TCP_ACK \<and> f_beui32 (ts_ecr opt) \<noteq> 0 \<and> rtt < TCP_MAX_RTT
                then if fs_rtt_est fs \<noteq> 0 then fs\<lparr>fs_rtt_est := (fs_rtt_est fs * 7 + rtt) div 8\<rparr>
                     else fs\<lparr>fs_rtt_est := rtt\<rparr>
                else fs)
      in r\<lparr>rv_fs := fs\<lparr>fs_rx_remote_avail := ucast (f_beui16 (tcp_wnd h))\<rparr>\<rparr>)"

definition rx_after_fin :: "rx_vars \<Rightarrow> bool" where
  "rx_after_fin r \<longleftrightarrow> has_flag (fs_rx_base_sp (rv_fs r)) FLEXNIC_PL_FLOWST_RXFIN \<and> rv_payload_bytes r > 0"

text \<open>\<open>rx_advance\<close> moves the receive position over \<open>len\<close> bytes.\<close>

definition rx_advance :: "flextcp_pl_flowst \<Rightarrow> u32 \<Rightarrow> flextcp_pl_flowst option" where
  "rx_advance fs len = do {
     let fs = fs\<lparr>fs_rx_avail := fs_rx_avail fs - len, fs_rx_next_pos := fs_rx_next_pos fs + len\<rparr>;
     let fs = (if fs_rx_next_pos fs \<ge> fs_rx_len fs
       then fs\<lparr>fs_rx_next_pos := fs_rx_next_pos fs - fs_rx_len fs\<rparr> else fs);
     c_assert (fs_rx_next_pos fs < fs_rx_len fs);
     Some (fs\<lparr>fs_rx_next_seq := fs_rx_next_seq fs + len\<rparr>) }"

definition rx_merge :: "rx_vars \<Rightarrow> rx_vars option" where
  "rx_merge r =
     (let fs = rv_fs r in
      if fs_rx_ooo_len fs = 0 then Some r
      else case tcp_trim_rxbuf fs (fs_rx_ooo_start fs) (ucast (fs_rx_ooo_len fs)) of
        None \<Rightarrow> Some (r\<lparr>rv_fs := fs\<lparr>fs_rx_ooo_len := 0\<rparr>\<rparr>)
      | Some (trim_start, trim_end) \<Rightarrow>
          let fs = fs\<lparr>fs_rx_ooo_start := fs_rx_ooo_start fs + ucast trim_start,
                fs_rx_ooo_len := fs_rx_ooo_len fs - (ucast trim_start + ucast trim_end)\<rparr> in
          if fs_rx_ooo_len fs > 0 \<and> fs_rx_ooo_start fs = fs_rx_next_seq fs then do {
            let bump = fs_rx_ooo_len fs;
            fs \<leftarrow> rx_advance fs bump;
            Some (r\<lparr>rv_fs := fs\<lparr>fs_rx_ooo_len := 0\<rparr>, rv_rx_bump := rv_rx_bump r + bump\<rparr>) }
          else Some (r\<lparr>rv_fs := fs\<rparr>))"

definition rx_payload :: "fp_env \<Rightarrow> bytes \<Rightarrow> rx_vars \<Rightarrow> rx_vars option" where
  "rx_payload env pm r =
     (if rv_payload_bytes r > 0 then do {
        let fs = rv_fs r;
        shm \<leftarrow> flow_rx_write env (rv_shm r) fs (fs_rx_next_pos fs) (ucast (rv_payload_bytes r))
          (drop (unat (rv_payload_off r)) pm);
        fs \<leftarrow> rx_advance fs (rv_payload_bytes r);
        rx_merge (r\<lparr>rv_fs := fs, rv_shm := shm, rv_rx_bump := rv_payload_bytes r, rv_trigger_ack := True\<rparr>) }
      else Some r)"

definition rx_fin :: "tcp_hdr \<Rightarrow> u32 \<Rightarrow> rx_vars \<Rightarrow> rx_vars" where
  "rx_fin h orig_payload r =
     (let fs = rv_fs r in
      if has_tcp (TCPH_FLAGS h) TAS_TCP_FIN \<and> fs_rx_base_sp fs AND FLEXNIC_PL_FLOWST_RXFIN = 0 \<and>
         fs_rx_next_seq fs = f_beui32 (tcp_seqno h) + orig_payload \<and> fs_rx_ooo_len fs = 0
      then r\<lparr>rv_fs := fs\<lparr>fs_rx_base_sp := fs_rx_base_sp fs OR FLEXNIC_PL_FLOWST_RXFIN,
               fs_rx_next_seq := fs_rx_next_seq fs + 1\<rparr>, rv_fin_bump := True, rv_trigger_ack := True\<rparr>
      else r)"

text \<open>All stages between the slow path checks and the label \<open>unlock\<close>.\<close>

definition flow_rx :: "fp_env \<Rightarrow> tcp_hdr \<Rightarrow> bytes \<Rightarrow> tcp_timestamp_opt option \<Rightarrow> u32 \<Rightarrow> u32 \<Rightarrow> rx_vars \<Rightarrow> rx_vars option" where
  "flow_rx env h pm opt ts orig_payload r = do {
     let (r, unlock) = rx_ack h orig_payload r;
     if unlock then Some r
     else do {
       let (r, unlock) = rx_trim r;
       if unlock then Some r
       else do {
         (r, unlock) \<leftarrow> rx_ooo env pm r;
         if unlock then Some r
         else do {
           opt \<leftarrow> opt;
           let r = rx_rtt h opt ts r;
           if rx_after_fin r then Some r
           else do {
             r \<leftarrow> rx_payload env pm r;
             Some (rx_fin h orig_payload r) } } } } }"

definition rx_start :: "tcp_hdr \<Rightarrow> u32 \<Rightarrow> u32 \<Rightarrow> flextcp_pl_flowst \<Rightarrow> (u16 \<Rightarrow> bytes) \<Rightarrow> rx_vars" where
  "rx_start h payload_bytes payload_off fs shm =
     \<lparr>rv_fs = fs, rv_shm = shm, rv_payload_bytes = payload_bytes, rv_payload_off = payload_off,
      rv_seq = f_beui32 (tcp_seqno h), rv_rx_bump = 0, rv_tx_bump = 0, rv_trigger_ack = payload_bytes > 0,
      rv_fin_bump = False\<rparr>"

text \<open>From the label \<open>unlock\<close> on, except for the acknowledgement.\<close>

definition rx_notify :: "dataplane_context \<Rightarrow> u32 \<Rightarrow> rx_vars \<Rightarrow> dataplane_context option" where
  "rx_notify ctx rx_pos r =
     (if rv_rx_bump r \<noteq> 0 \<or> rv_tx_bump r \<noteq> 0 \<or> rv_fin_bump r then
        arx_cache_add ctx (fs_db_id (rv_fs r)) (fs_vm_id (rv_fs r)) (fs_opaque (rv_fs r)) (rv_rx_bump r) rx_pos
          (rv_tx_bump r)
          (FLEXTCP_PL_ARX_CONNUPDATE OR (if rv_fin_bump r then push_bit 8 FLEXTCP_PL_ARX_FLRXDONE else 0))
      else Some ctx)"

definition rx_rearm :: "dataplane_context \<Rightarrow> u16 \<Rightarrow> u32 \<Rightarrow> flextcp_pl_flowst \<Rightarrow> dataplane_context option" where
  "rx_rearm ctx flow_id old_avail fs =
     (let new_avail = tcp_txavail fs None in
      if new_avail > old_avail
      then flow_qman_update ctx (ucast (fs_vm_id fs)) (ucast flow_id) (fs_tx_rate fs) new_avail (ucast TCP_MSS)
      else Some ctx)"

definition slowpath_flags :: "tcp_hdr \<Rightarrow> bool" where
  "slowpath_flags h \<longleftrightarrow>
     TCPH_FLAGS h AND NOT (TAS_TCP_ACK OR TAS_TCP_PSH OR TAS_TCP_ECE OR TAS_TCP_CWR OR TAS_TCP_FIN) \<noteq> 0"

definition rx_slowpath :: "fp_mem \<Rightarrow> u32 \<Rightarrow> flextcp_pl_flowst \<Rightarrow> bool \<Rightarrow> fp_mem" where
  "rx_slowpath fp fid fs no_permanent_sp =
     (if no_permanent_sp then fp
      else fs_put fp fid (fs\<lparr>fs_rx_base_sp := fs_rx_base_sp fs OR FLEXNIC_PL_FLOWST_SLOWPATH\<rparr>))"

text \<open>
  The body that \<open>fast_flows_packet\<close> and \<open>fast_flows_packet_gre\<close> share: they differ in the header
  struct, in the IP header whose length counts, and in the function that sends the acknowledgement.
  The flow index is cut to 16 bits for the queue manager.
\<close>

definition rx_packet ::
  "fp_env \<Rightarrow> fp_mem \<Rightarrow> dataplane_context \<Rightarrow> u32 \<Rightarrow> u64 \<Rightarrow> u16 \<Rightarrow> tcp_hdr \<Rightarrow> bytes \<Rightarrow> u16 option \<Rightarrow> bool \<Rightarrow> u32 \<Rightarrow>
     (dataplane_context \<Rightarrow> flextcp_pl_flowst \<Rightarrow> u16 \<Rightarrow> dataplane_context option) \<Rightarrow>
     (int \<times> fp_mem \<times> dataplane_context) option" where
  "rx_packet env fp ctx fid sizeof_p iplen h pm ts_off spend_budget ts send_ack = do {
     fs \<leftarrow> fs_get fp fid;
     let flow_id = (ucast fid :: u16);
     let tcp_extra_hlen = (TCPH_HDRLEN h - 5) * 4;
     let payload_off = ucast (sizeof_p + ucast tcp_extra_hlen);
     let payload_bytes = ucast (ucast iplen - (sizeof_ip_hdr + sizeof_tcp_hdr + ucast tcp_extra_hlen));
     c_assert (spend_budget \<longrightarrow> dc_vm_ok (fs_vm_id fs));
     let ctx = (if spend_budget then dc_charge ctx (ucast (fs_vm_id fs)) (uint payload_bytes) else ctx);
     if spend_budget \<and> dc_budgets ctx (ucast (fs_vm_id fs)) \<le> 0 then Some (0, fp, ctx)
     else if fs_rx_base_sp fs AND FLEXNIC_PL_FLOWST_SLOWPATH \<noteq> 0 then Some (- 1, rx_slowpath fp fid fs False, ctx)
     else if slowpath_flags h
       then Some (- 1, rx_slowpath fp fid fs (TCPH_FLAGS h AND TAS_TCP_SYN \<noteq> 0), ctx)
     else do {
       let old_avail = tcp_txavail fs None;
       r \<leftarrow> flow_rx env h pm
         (Option.bind ts_off (\<lambda>off. ts_opt_load pm (unat sizeof_p + unat off))) ts payload_bytes
         (rx_start h payload_bytes payload_off fs (fp_shm fp));
       ctx \<leftarrow> rx_notify ctx (fs_rx_next_pos fs) r;
       ctx \<leftarrow> rx_rearm ctx flow_id old_avail (rv_fs r);
       let fp = (fs_put fp fid (rv_fs r))\<lparr>fp_shm := rv_shm r\<rparr>;
       if rv_trigger_ack r then do {
         off \<leftarrow> ts_off;
         ctx \<leftarrow> send_ack ctx (rv_fs r) off;
         Some (1, fp, ctx) }
       else Some (0, fp, ctx) } }"

definition fast_flows_packet ::
  "fp_env \<Rightarrow> fp_mem \<Rightarrow> dataplane_context \<Rightarrow> network_buf \<Rightarrow> u32 \<Rightarrow> u16 option \<Rightarrow> bool \<Rightarrow> u32 \<Rightarrow>
     (int \<times> fp_mem \<times> dataplane_context) option" where
  "fast_flows_packet env fp ctx nb fid ts_off spend_budget ts = do {
     p \<leftarrow> pkt_tcp_load (nb_buf nb) (unat (nb_off nb));
     rx_packet env fp ctx fid sizeof_pkt_tcp (f_beui16 (ip_len (p_ip p))) (p_tcp p)
       (drop (unat (nb_off nb)) (nb_buf nb)) ts_off spend_budget ts
       (\<lambda>ctx fs off. flow_tx_ack env ctx fs (fs_tx_next_seq fs) (fs_rx_next_seq fs) (fs_rx_avail fs) (fs_tx_next_ts fs)
          ts nb off) }"

definition fast_flows_packet_gre ::
  "fp_env \<Rightarrow> fp_mem \<Rightarrow> dataplane_context \<Rightarrow> network_buf \<Rightarrow> u32 \<Rightarrow> u16 option \<Rightarrow> bool \<Rightarrow> u32 \<Rightarrow>
     (int \<times> fp_mem \<times> dataplane_context) option" where
  "fast_flows_packet_gre env fp ctx nb fid ts_off spend_budget ts = do {
     p \<leftarrow> pkt_gre_load (nb_buf nb) (unat (nb_off nb));
     rx_packet env fp ctx fid sizeof_pkt_gre (f_beui16 (ip_len (g_in_ip p))) (g_tcp p)
       (drop (unat (nb_off nb)) (nb_buf nb)) ts_off spend_budget ts
       (\<lambda>ctx fs off. flow_tx_ack_gre env ctx fs (fs_tx_next_seq fs) (fs_rx_next_seq fs) (fs_rx_avail fs) (fs_tx_next_ts fs)
          ts nb off) }"

section \<open>The outcomes of an acknowledgement\<close>

abbreviation acks_counted :: "flextcp_pl_flowst \<Rightarrow> flextcp_pl_flowst" where
  "acks_counted fs \<equiv> fs\<lparr>fs_cnt_rx_acks := fs_cnt_rx_acks fs + 1\<rparr>"

abbreviation acked :: "tcp_hdr \<Rightarrow> u32 \<Rightarrow> u32 \<Rightarrow> flextcp_pl_flowst \<Rightarrow> flextcp_pl_flowst" where
  "acked h m x fs \<equiv> (ack_sent m (ack_stats h m (acks_counted fs)))\<lparr>fs_rx_dupack_cnt := x\<rparr>"

lemma rx_ack_cases:
  assumes "rx_ack h n r = (r', u)"
  obtains (ignored) "r' = r" "\<not> u"
  | (invalid) "r' = r\<lparr>rv_fs := acks_counted (rv_fs r)\<rparr>" "\<not> u"
  | (valid) m x where "tcp_valid_rxack (acks_counted (rv_fs r)) (f_beui32 (tcp_ackno h)) = Some m"
      "r' = r\<lparr>rv_tx_bump := m, rv_fs := acked h m x (rv_fs r)\<rparr>" "\<not> u"
  | (dupack) x where "tcp_valid_rxack (acks_counted (rv_fs r)) (f_beui32 (tcp_ackno h)) = Some 0"
      "r' = r\<lparr>rv_tx_bump := 0, rv_fs := flow_reset_retransmit (acked h 0 x (rv_fs r))\<rparr>" "u"
proof (cases "has_tcp (TCPH_FLAGS h) TAS_TCP_ACK")
  case False
  then show thesis using assms ignored by (simp add: rx_ack_def)
next
  case ack: True
  show thesis
  proof (cases "tcp_valid_rxack (acks_counted (rv_fs r)) (f_beui32 (tcp_ackno h))")
    case None
    then show thesis using assms ack invalid by (simp add: rx_ack_def Let_def)
  next
    case (Some m)
    let ?fs = "ack_sent m (ack_stats h m (acks_counted (rv_fs r)))" and ?r = "r\<lparr>rv_tx_bump := m\<rparr>"
    let ?x = "fs_rx_dupack_cnt ?fs + 1"
    have dc: "fs_rx_dupack_cnt (f\<lparr>fs_rx_dupack_cnt := y\<rparr>) = y" for f y by simp
    have res: "(r', u) = (if m \<noteq> 0 then (?r\<lparr>rv_fs := ?fs\<lparr>fs_rx_dupack_cnt := 0\<rparr>\<rparr>, False)
          else if n = 0 then
            if ?x \<ge> 3 then (?r\<lparr>rv_fs := flow_reset_retransmit (?fs\<lparr>fs_rx_dupack_cnt := ?x\<rparr>)\<rparr>, True)
            else (?r\<lparr>rv_fs := ?fs\<lparr>fs_rx_dupack_cnt := ?x\<rparr>\<rparr>, False)
          else (?r\<lparr>rv_fs := ?fs\<rparr>, False))"
      unfolding assms [symmetric] rx_ack_def Let_def
      by (simp only: ack Some not_True_eq_False if_False option.case dc)
    consider "m \<noteq> 0" | "m = 0" "n = 0" "?x \<ge> 3" | "m = 0" "n = 0" "\<not> ?x \<ge> 3" | "m = 0" "n \<noteq> 0" by blast
    then show thesis
    proof cases
      case 1
      then show thesis using valid [OF Some, of 0] res by simp
    next
      case 2
      then show thesis using dupack [of ?x] Some res by simp
    next
      case 3
      then show thesis using valid [OF Some, of ?x] res by simp
    next
      case 4
      then show thesis using valid [OF Some, of "fs_rx_dupack_cnt ?fs"] res by simp
    qed
  qed
qed

end
