(* ===== verification/Flow_Rx.thy ===== *)
theory Flow_Rx
  imports Tcp_Trim Fast_Flows
begin

text \<open>
  Reception of data by the fast path (\<open>flow_rx\<close> of \<open>Fast_Flows\<close>): the receive part of the flow state
  stays well formed, data is written only to the free part of the receive buffer, and the bytes that
  are handed to the application are the sender's stream in order, whatever the order of the segments.
\<close>

unbundle bit_operations_syntax

section \<open>Receive state\<close>

abbreviation rx_base :: "flextcp_pl_flowst \<Rightarrow> u64" where
  "rx_base fs \<equiv> fs_rx_base_sp fs AND FLEXNIC_PL_FLOWST_RX_MASK"

definition rx_buf :: "flextcp_pl_flowst \<Rightarrow> (u16 \<Rightarrow> bytes) \<Rightarrow> bytes" where
  "rx_buf fs shm = take (unat (fs_rx_len fs)) (drop (unat (rx_base fs)) (shm (fs_vm_id fs)))"

text \<open>The buffers of a flow lie in the memory of its VM and have at most 2 GiB.\<close>

definition rx_place :: "fp_env \<Rightarrow> flextcp_pl_flowst \<Rightarrow> bool" where
  "rx_place env fs \<longleftrightarrow> unat (fs_vm_id fs) \<le> FLEXNIC_PL_VMST_NUM \<and> in_shm env (rx_base fs) (fs_rx_len fs) \<and>
     fs_rx_len fs \<le> 0x80000000"

definition rx_ooo_off :: "flextcp_pl_flowst \<Rightarrow> nat" where
  "rx_ooo_off fs = unat (fs_rx_ooo_start fs - fs_rx_next_seq fs)"

text \<open>\<open>rx_ok\<close>: the next position is in the buffer, the free space is at most the buffer, and the
  out-of-order interval lies in the free space.\<close>

definition rx_ok :: "flextcp_pl_flowst \<Rightarrow> bool" where
  "rx_ok fs \<longleftrightarrow> fs_rx_next_pos fs < fs_rx_len fs \<and> fs_rx_avail fs \<le> fs_rx_len fs \<and>
     (fs_rx_ooo_len fs \<noteq> 0 \<longrightarrow> rx_ooo_off fs + unat (fs_rx_ooo_len fs) \<le> unat (fs_rx_avail fs))"

lemma rx_okD:
  assumes "rx_ok fs"
  shows "unat (fs_rx_next_pos fs) < unat (fs_rx_len fs)" "unat (fs_rx_avail fs) \<le> unat (fs_rx_len fs)"
    "fs_rx_ooo_len fs \<noteq> 0 \<Longrightarrow> rx_ooo_off fs + unat (fs_rx_ooo_len fs) \<le> unat (fs_rx_avail fs)"
  using assms by (auto simp: rx_ok_def word_less_nat_alt word_le_nat_alt)

lemma rx_placeD:
  assumes "rx_place env fs"
  shows "unat (fs_vm_id fs) \<le> FLEXNIC_PL_VMST_NUM"
    "unat (rx_base fs) + unat (fs_rx_len fs) \<le> unat (env_vm_shm_len env)" "unat (fs_rx_len fs) \<le> 2147483648"
  using assms by (auto simp: rx_place_def in_shm_def word_le_nat_alt)

lemma length_rx_buf:
  assumes "rx_place env fs" "shm_ok env shm"
  shows "length (rx_buf fs shm) = unat (fs_rx_len fs)"
  using rx_placeD [OF assms(1)] assms(2) by (simp add: rx_buf_def shm_ok_def)

section \<open>Writing to the receive buffer\<close>

text \<open>\<open>rx_splice\<close>: the receive buffer replaced in the memory of the VM.\<close>

definition rx_splice :: "flextcp_pl_flowst \<Rightarrow> (u16 \<Rightarrow> bytes) \<Rightarrow> bytes \<Rightarrow> (u16 \<Rightarrow> bytes)" where
  "rx_splice fs shm b = shm(fs_vm_id fs := mem_splice (shm (fs_vm_id fs)) (unat (rx_base fs)) b)"

lemma mem_splice_within:
  assumes "off + n \<le> length m" "pos + length src \<le> n"
  shows "mem_splice m (off + pos) src = mem_splice m off (mem_splice (take n (drop off m)) pos src)"
  using assms by (intro nth_equalityI) (auto simp: mem_simps nth_mem_splice)

lemma take_drop_splice:
  assumes "off + n \<le> length m" "length b = n"
  shows "take n (drop off (mem_splice m off b)) = b"
  using assms by (simp add: mem_splice_def)

lemma mem_splice_twice:
  assumes "off + length b \<le> length m" "length b' = length b"
  shows "mem_splice (mem_splice m off b) off b' = mem_splice m off b'"
  using assms by (intro nth_equalityI) (auto simp: mem_simps nth_mem_splice)

lemma rx_buf_splice:
  assumes "rx_place env fs" "shm_ok env shm" "length b = unat (fs_rx_len fs)"
  shows "rx_buf fs (rx_splice fs shm b) = b" "shm_ok env (rx_splice fs shm b)"
proof -
  have "unat (rx_base fs) + unat (fs_rx_len fs) \<le> length (shm (fs_vm_id fs))"
    using rx_placeD [OF assms(1)] assms(2) by (simp add: shm_ok_def)
  with assms(3) show "rx_buf fs (rx_splice fs shm b) = b"
    by (simp add: rx_buf_def rx_splice_def take_drop_splice)
  show "shm_ok env (rx_splice fs shm b)"
    unfolding rx_splice_def using rx_placeD [OF assms(1)] assms(3) by (intro shm_ok_splice [OF assms(2)]) simp
qed

lemma unat_add_u64:
  assumes "unat (a::u64) + unat (b::u32) \<le> unat (c::u64)"
  shows "unat (a + ucast b) = unat a + unat b"
  using assms unat_lt_u64 [of c] by (subst unat_add_no_wrap) (simp_all del: unat_lt_u64)

lemma flow_rx_write_ok:
  assumes pl: "rx_place env fs" and shm: "shm_ok env shm" and pos: "pos < fs_rx_len fs"
    and len: "unat len \<le> unat (fs_rx_len fs)" "unat len \<le> length src"
  shows "flow_rx_write env shm fs pos len src =
    Some (rx_splice fs shm (circ_splice (rx_buf fs shm) (unat pos) (take (unat len) src)))"
proof -
  note D = rx_placeD [OF pl]
  let ?L = "unat (fs_rx_len fs)" and ?B = "unat (rx_base fs)" and ?m = "shm (fs_vm_id fs)" and ?b = "rx_buf fs shm"
  have P: "unat pos < ?L" using pos by (simp add: word_less_nat_alt)
  have l16: "unat len < 65536" by simp
  have add: "unat (pos + ucast len) = unat pos + unat len"
    using P D(3) l16 by (subst unat_add_no_wrap) (simp_all del: unat_lt_u16)
  have m: "?B + ?L \<le> length ?m" "length ?m = unat (env_vm_shm_len env)" using shm D by (simp_all add: shm_ok_def)
  have b: "length ?b = ?L" using length_rx_buf [OF pl shm] .
  have B: "unat (rx_base fs + ucast pos) = ?B + unat pos" using P D(2) by (intro unat_add_u64 [where c = "env_vm_shm_len env"]) linarith
  have L: "unat (ucast len :: u64) = unat len" by simp
  show ?thesis
  proof (cases "pos + ucast len \<le> fs_rx_len fs")
    case True
    then have fits: "unat pos + unat len \<le> ?L" by (simp add: word_le_nat_alt add)
    have "flow_rx_write env shm fs pos len src = dma_write env shm (rx_base fs + ucast pos) (ucast len) src (fs_vm_id fs)"
      using True by (simp add: flow_rx_write_def Let_def)
    also have "\<dots> = Some (shm(fs_vm_id fs := mem_splice ?m (?B + unat pos) (take (unat len) src)))"
      using dma_write_in [OF shm D(1), of "rx_base fs + ucast pos" "ucast len" src] B L fits D(2) len by simp
    also have "mem_splice ?m (?B + unat pos) (take (unat len) src) =
        mem_splice ?m ?B (circ_splice ?b (unat pos) (take (unat len) src))"
      using m fits P len b mem_splice_within [of ?B ?L ?m "unat pos" "take (unat len) src"]
      by (simp add: circ_splice_flat flip: rx_buf_def)
    finally show ?thesis by (simp add: rx_splice_def fun_upd_def)
  next
    case False
    let ?part = "fs_rx_len fs - pos" and ?s1 = "take (?L - unat pos) src"
    let ?s2 = "take (unat len - (?L - unat pos)) (drop (?L - unat pos) src)"
    have over: "?L < unat pos + unat len" using False by (simp add: word_le_nat_alt add)
    have part: "unat ?part = ?L - unat pos" using P by (intro unat_sub_le) simp
    have p64: "unat (ucast ?part :: u64) = ?L - unat pos" using part by simp
    have "unat (ucast len - ?part :: u32) = unat (ucast len :: u32) - unat ?part"
      using over P part by (intro unat_sub_le) (simp add: word_le_nat_alt)
    then have r64: "unat (ucast (ucast len - ?part :: u32) :: u64) = unat len - (?L - unat pos)" using part by simp
    let ?shm1 = "shm(fs_vm_id fs := mem_splice ?m (?B + unat pos) ?s1)"
    have w1: "dma_write env shm (rx_base fs + ucast pos) (ucast ?part) src (fs_vm_id fs) = Some ?shm1"
      using dma_write_in [OF shm D(1), of "rx_base fs + ucast pos" "ucast ?part" src] B p64 P D(2) len over by simp
    have ok1: "shm_ok env ?shm1" using P D(2) len over by (intro shm_ok_splice [OF shm]) simp
    have w2: "dma_write env ?shm1 (rx_base fs) (ucast (ucast len - ?part)) (drop (unat ?part) src) (fs_vm_id fs) =
        Some (?shm1(fs_vm_id fs := mem_splice (mem_splice ?m (?B + unat pos) ?s1) ?B ?s2))"
      using dma_write_in [OF ok1 D(1), of "rx_base fs" "ucast (ucast len - ?part)" "drop (unat ?part) src"]
        r64 part P D(2) len over by simp
    have "mem_splice ?m (?B + unat pos) ?s1 = mem_splice ?m ?B (mem_splice ?b (unat pos) ?s1)"
      using m P len over b mem_splice_within [of ?B ?L ?m "unat pos" ?s1] by (simp flip: rx_buf_def)
    moreover have "mem_splice (mem_splice ?m ?B (mem_splice ?b (unat pos) ?s1)) ?B ?s2 =
        mem_splice ?m ?B (mem_splice (mem_splice ?b (unat pos) ?s1) 0 ?s2)"
    proof -
      let ?c = "mem_splice ?b (unat pos) ?s1"
      have c: "length ?c = ?L" using b P len over by (simp add: mem_simps)
      have "mem_splice (mem_splice ?m ?B ?c) ?B ?s2 =
          mem_splice (mem_splice ?m ?B ?c) ?B (mem_splice (take ?L (drop ?B (mem_splice ?m ?B ?c))) 0 ?s2)"
        using mem_splice_within [of ?B ?L "mem_splice ?m ?B ?c" 0 ?s2] m c len P by (simp add: mem_simps)
      then show ?thesis
        using m c len P by (simp add: take_drop_splice mem_splice_twice mem_simps)
    qed
    moreover have "circ_splice ?b (unat pos) (take (unat len) src) = mem_splice (mem_splice ?b (unat pos) ?s1) 0 ?s2"
      using circ_splice_wrap [of "unat pos" ?b "take (unat len) src"] P b len over
      by (simp add: take_drop min_absorb1 min_absorb2)
    ultimately show ?thesis
      using False w1 w2 by (simp add: flow_rx_write_def Let_def rx_splice_def)
  qed
qed

text \<open>
  \<open>rx_at fs shm d\<close> is the byte \<open>d\<close> positions after the next position; \<open>rx_put fs shm d data\<close> writes there.
\<close>

definition rx_at :: "flextcp_pl_flowst \<Rightarrow> (u16 \<Rightarrow> bytes) \<Rightarrow> nat \<Rightarrow> u8" where
  "rx_at fs shm d = rx_buf fs shm ! ((unat (fs_rx_next_pos fs) + d) mod unat (fs_rx_len fs))"

definition rx_put :: "flextcp_pl_flowst \<Rightarrow> (u16 \<Rightarrow> bytes) \<Rightarrow> nat \<Rightarrow> bytes \<Rightarrow> (u16 \<Rightarrow> bytes)" where
  "rx_put fs shm d data =
     rx_splice fs shm (circ_splice (rx_buf fs shm) ((unat (fs_rx_next_pos fs) + d) mod unat (fs_rx_len fs)) data)"

lemma shm_ok_put:
  assumes "rx_place env fs" "shm_ok env shm"
  shows "shm_ok env (rx_put fs shm d data)"
  unfolding rx_put_def using assms by (intro rx_buf_splice) (simp_all add: length_rx_buf)

lemma ring_offset:
  fixes p l d i :: nat
  assumes "0 < l" "d < l" "i < l"
  shows "\<exists>k < l. ((p + d) mod l + k) mod l = (p + i) mod l \<and> (if d \<le> i then k = i - d else k = i + l - d)"
proof (intro exI [where x = "if d \<le> i then i - d else i + l - d"] conjI)
  show "((p + d) mod l + (if d \<le> i then i - d else i + l - d)) mod l = (p + i) mod l"
  proof (cases "d \<le> i")
    case True
    have "((p + d) mod l + (i - d)) mod l = (p + d + (i - d)) mod l" by (rule mod_add_left_eq)
    also have "p + d + (i - d) = p + i" using True by simp
    finally show ?thesis using True by (simp only: if_True)
  next
    case False
    have "((p + d) mod l + (i + l - d)) mod l = (p + d + (i + l - d)) mod l" by (rule mod_add_left_eq)
    also have "p + d + (i + l - d) = p + i + l" using False assms by simp
    finally show ?thesis using False by (simp only: if_False mod_add_self2)
  qed
qed (use assms in auto)

lemma rx_at_put:
  assumes "rx_place env fs" "shm_ok env shm" "0 < unat (fs_rx_len fs)" "d + length data \<le> unat (fs_rx_len fs)"
    "i < unat (fs_rx_len fs)" "d < unat (fs_rx_len fs)"
  shows "rx_at fs (rx_put fs shm d data) i = (if d \<le> i \<and> i < d + length data then data ! (i - d) else rx_at fs shm i)"
proof -
  let ?L = "unat (fs_rx_len fs)" and ?P = "unat (fs_rx_next_pos fs)" and ?b = "rx_buf fs shm"
  have b: "length ?b = ?L" using length_rx_buf assms(1,2) .
  have nb: "rx_buf fs (rx_put fs shm d data) = circ_splice ?b ((?P + d) mod ?L) data"
    unfolding rx_put_def by (rule rx_buf_splice(1) [OF assms(1,2)]) (simp add: b)
  obtain k where k: "k < ?L" "((?P + d) mod ?L + k) mod ?L = (?P + i) mod ?L"
      "if d \<le> i then k = i - d else k = i + ?L - d"
    using ring_offset [of ?L d i ?P] assms by auto
  have "circ_splice ?b ((?P + d) mod ?L) data ! ((?P + i) mod ?L) =
      (if k < length data then data ! k else ?b ! ((?P + i) mod ?L))"
    using nth_circ_splice_at [of "(?P + d) mod ?L" ?b k data] b k(1,2) assms(3) by simp
  moreover have "k < length data \<longleftrightarrow> d \<le> i \<and> i < d + length data" using k(3) assms(4,5,6) by (auto split: if_splits)
  ultimately show ?thesis using k(3) by (auto simp: rx_at_def nb)
qed

lemma flow_rx_seq_write_ok:
  assumes "rx_place env fs" "shm_ok env shm" "rx_ok fs"
    and "unat (seq - fs_rx_next_seq fs) + unat len \<le> unat (fs_rx_len fs)" "unat len \<le> length src" "0 < unat len"
  shows "flow_rx_seq_write env shm fs seq len src =
    Some (rx_put fs shm (unat (seq - fs_rx_next_seq fs)) (take (unat len) src))"
proof -
  let ?d = "seq - fs_rx_next_seq fs" and ?p = "fs_rx_next_pos fs"
  let ?pos = "if ?p + ?d \<ge> fs_rx_len fs then ?p + ?d - fs_rx_len fs else ?p + ?d"
  have pos: "unat ?pos = (unat ?p + unat ?d) mod unat (fs_rx_len fs)"
    using assms rx_okD [OF assms(3)] rx_placeD [OF assms(1)] by (intro wrapped_pos) auto
  have lt: "?pos < fs_rx_len fs"
    using rx_okD(1) [OF assms(3)] by (simp only: word_less_nat_alt pos mod_less_divisor)
  have "flow_rx_seq_write env shm fs seq len src = flow_rx_write env shm fs ?pos len src"
    using lt by (simp add: flow_rx_seq_write_def Let_def)
  also have "\<dots> = Some (rx_splice fs shm (circ_splice (rx_buf fs shm) (unat ?pos) (take (unat len) src)))"
    using assms by (intro flow_rx_write_ok [OF assms(1,2) lt]) auto
  finally show ?thesis by (simp only: rx_put_def pos)
qed

lemma flow_rx_write_next:
  assumes "rx_place env fs" "shm_ok env shm" "rx_ok fs" "unat len \<le> unat (fs_rx_len fs)" "unat len \<le> length src"
  shows "flow_rx_write env shm fs (fs_rx_next_pos fs) len src = Some (rx_put fs shm 0 (take (unat len) src))"
  using flow_rx_write_ok [OF assms(1,2) _ assms(4,5), of "fs_rx_next_pos fs"] rx_okD(1) [OF assms(3)]
  by (simp add: rx_put_def word_less_nat_alt)

section \<open>Stages of the reception\<close>

text \<open>
  \<open>Q x b\<close> says that \<open>b\<close> may be byte \<open>x\<close> of the peer's stream, and \<open>k\<close> counts the bytes received in
  order so far. \<open>rx_data\<close>: the out-of-order interval holds bytes of the stream.
\<close>

definition rx_data :: "(nat \<Rightarrow> u8 \<Rightarrow> bool) \<Rightarrow> nat \<Rightarrow> flextcp_pl_flowst \<Rightarrow> (u16 \<Rightarrow> bytes) \<Rightarrow> bool" where
  "rx_data Q k fs shm \<longleftrightarrow>
     (\<forall>i < unat (fs_rx_ooo_len fs). Q (k + rx_ooo_off fs + i) (rx_at fs shm (rx_ooo_off fs + i)))"

text \<open>\<open>rx_same\<close>: the receive part of the flow state is the same.\<close>

definition rx_same :: "flextcp_pl_flowst \<Rightarrow> flextcp_pl_flowst \<Rightarrow> bool" where
  "rx_same fs fs' \<longleftrightarrow> fs_rx_base_sp fs' = fs_rx_base_sp fs \<and> fs_rx_len fs' = fs_rx_len fs \<and>
     fs_vm_id fs' = fs_vm_id fs \<and> fs_rx_avail fs' = fs_rx_avail fs \<and> fs_rx_next_pos fs' = fs_rx_next_pos fs \<and>
     fs_rx_next_seq fs' = fs_rx_next_seq fs \<and> fs_rx_ooo_start fs' = fs_rx_ooo_start fs \<and>
     fs_rx_ooo_len fs' = fs_rx_ooo_len fs"

lemma rx_same_refl [simp]: "rx_same fs fs" by (simp add: rx_same_def)

lemma rx_same_cong:
  assumes "rx_same fs fs'"
  shows "rx_ok fs' = rx_ok fs" "rx_place env fs' = rx_place env fs" "rx_at fs' = rx_at fs" "rx_data Q k fs' = rx_data Q k fs"
    "rx_put fs' = rx_put fs" "tcp_trim_rxbuf fs' = tcp_trim_rxbuf fs" "in_rx_window fs' = in_rx_window fs"
    "trim_wraps fs' = trim_wraps fs"
  using assms
  by (auto simp: rx_same_def rx_ok_def rx_place_def rx_at_def rx_buf_def rx_data_def rx_ooo_off_def rx_put_def rx_splice_def
      tcp_trim_rxbuf_def in_rx_window_def trim_wraps_def fun_eq_iff)

lemma reset_retransmit_same: "rx_same fs (flow_reset_retransmit fs)"
  by (simp add: rx_same_def flow_reset_retransmit_def Let_def)

lemma ack_stats_same: "rx_same fs (ack_stats h n fs)"
  by (simp add: rx_same_def ack_stats_def Let_def)

lemma ack_sent_same: "rx_same fs (ack_sent n fs)"
  by (simp add: rx_same_def ack_sent_def Let_def)

lemma rx_same_trans: "rx_same a b \<Longrightarrow> rx_same b c \<Longrightarrow> rx_same a c"
  by (simp add: rx_same_def)

lemma rx_same_upd [simp]:
  "rx_same a (b\<lparr>fs_tx_sent := x\<rparr>) = rx_same a b" "rx_same a (b\<lparr>fs_rx_dupack_cnt := y\<rparr>) = rx_same a b"
  "rx_same a (b\<lparr>fs_cnt_rx_acks := z\<rparr>) = rx_same a b" "rx_same a (b\<lparr>fs_cnt_rx_ack_bytes := u\<rparr>) = rx_same a b"
  "rx_same a (b\<lparr>fs_cnt_rx_ecn_bytes := v\<rparr>) = rx_same a b" "rx_same a (b\<lparr>fs_tx_next_ts := w\<rparr>) = rx_same a b"
  "rx_same a (b\<lparr>fs_rtt_est := t\<rparr>) = rx_same a b" "rx_same a (b\<lparr>fs_rx_remote_avail := s\<rparr>) = rx_same a b"
  "rx_same a (b\<lparr>fs_tx_avail := x\<rparr>) = rx_same a b"
  by (simp_all add: rx_same_def)

text \<open>The acknowledgement part of a packet does not touch the receive part.\<close>

lemma rx_ack_same:
  assumes "rx_ack h orig_payload r = (r', u)"
  shows "rx_same (rv_fs r) (rv_fs r')" "rv_shm r' = rv_shm r" "rv_payload_bytes r' = rv_payload_bytes r"
    "rv_payload_off r' = rv_payload_off r" "rv_seq r' = rv_seq r" "rv_rx_bump r' = rv_rx_bump r"
    "rv_fin_bump r' = rv_fin_bump r" "rv_trigger_ack r' = rv_trigger_ack r"
proof -
  have same: "rx_same fs (acked h m x fs)" for m x fs
  proof -
    have "rx_same fs (acks_counted fs)" by simp
    then have "rx_same fs (ack_sent m (ack_stats h m (acks_counted fs)))"
      using ack_stats_same ack_sent_same rx_same_trans by blast
    then show ?thesis by simp
  qed
  show "rx_same (rv_fs r) (rv_fs r')"
    using assms
  proof (cases rule: rx_ack_cases)
    case (dupack x)
    then show ?thesis using rx_same_trans [OF same reset_retransmit_same] by simp
  qed (use same in simp_all)
  show "rv_shm r' = rv_shm r" "rv_payload_bytes r' = rv_payload_bytes r"
    "rv_payload_off r' = rv_payload_off r" "rv_seq r' = rv_seq r" "rv_rx_bump r' = rv_rx_bump r"
    "rv_fin_bump r' = rv_fin_bump r" "rv_trigger_ack r' = rv_trigger_ack r"
    using assms by (cases rule: rx_ack_cases; simp)+
qed

lemma rx_rtt_same:
  "rx_same (rv_fs r) (rv_fs (rx_rtt h opt ts r))" "rv_shm (rx_rtt h opt ts r) = rv_shm r"
  "rv_payload_bytes (rx_rtt h opt ts r) = rv_payload_bytes r" "rv_payload_off (rx_rtt h opt ts r) = rv_payload_off r"
  "rv_seq (rx_rtt h opt ts r) = rv_seq r" "rv_rx_bump (rx_rtt h opt ts r) = rv_rx_bump r"
  "rv_tx_bump (rx_rtt h opt ts r) = rv_tx_bump r"
  "rv_fin_bump (rx_rtt h opt ts r) = rv_fin_bump r" "rv_trigger_ack (rx_rtt h opt ts r) = rv_trigger_ack r"
  by (simp_all add: rx_rtt_def Let_def)

text \<open>
  \<open>pkt_carries\<close>: the \<open>n\<close> payload bytes of the packet are in memory, and those in the receive window
  are bytes of the stream. \<open>rx_seg\<close>: what is left after trimming lies in the window.
\<close>

definition pkt_carries :: "(nat \<Rightarrow> u8 \<Rightarrow> bool) \<Rightarrow> nat \<Rightarrow> flextcp_pl_flowst \<Rightarrow> u32 \<Rightarrow> u32 \<Rightarrow> bytes \<Rightarrow> u32 \<Rightarrow> bool" where
  "pkt_carries Q k fs seq n pm off \<longleftrightarrow> unat off + unat n \<le> length pm \<and> unat off + unat n < 4294967296 \<and>
     (\<forall>i < unat n. in_rx_window fs (seq + of_nat i) \<longrightarrow>
        Q (k + unat (seq + of_nat i - fs_rx_next_seq fs)) (pm ! (unat off + i)))"

definition rx_seg :: "(nat \<Rightarrow> u8 \<Rightarrow> bool) \<Rightarrow> nat \<Rightarrow> bytes \<Rightarrow> rx_vars \<Rightarrow> bool" where
  "rx_seg Q k pm r \<longleftrightarrow> unat (rv_payload_bytes r) < 65536 \<and>
     (let n = unat (rv_payload_bytes r); d = unat (rv_seq r - fs_rx_next_seq (rv_fs r)); off = unat (rv_payload_off r) in
      0 < n \<longrightarrow> d + n \<le> unat (fs_rx_avail (rv_fs r)) \<and> off + n \<le> length pm \<and> (\<forall>i < n. Q (k + d + i) (pm ! (off + i))))"

lemma rx_trim_seg:
  assumes ok: "fs_rx_avail (rv_fs r) \<le> 0x80000000" and n: "unat (rv_payload_bytes r) < 65536"
    and nw: "\<not> trim_wraps (rv_fs r) (rv_seq r) (ucast (rv_payload_bytes r))"
    and c: "pkt_carries Q k (rv_fs r) (rv_seq r) (rv_payload_bytes r) pm (rv_payload_off r)"
    and t: "rx_trim r = (r', False)"
  shows "rx_seg Q k pm r'" "rv_fs r' = rv_fs r" "rv_shm r' = rv_shm r" "rv_rx_bump r' = rv_rx_bump r"
    "rv_fin_bump r' = rv_fin_bump r"
proof -
  let ?fs = "rv_fs r" and ?n = "rv_payload_bytes r" and ?off = "rv_payload_off r" and ?seq = "rv_seq r"
  obtain a b where ab: "tcp_trim_rxbuf ?fs ?seq (ucast ?n) = Some (a, b)"
    and r': "r' = r\<lparr>rv_payload_bytes := ?n - (ucast a + ucast b), rv_payload_off := ?off + ucast a, rv_seq := ?seq + ucast a\<rparr>"
    using t by (auto simp: rx_trim_def split: option.splits)
  have un: "unat (ucast ?n :: u16) = unat ?n" using n by (simp add: unat_ucast_narrow)
  have le: "unat a + unat b \<le> unat ?n"
    and win: "\<And>i. i < unat ?n - (unat a + unat b) \<Longrightarrow>
      unat (?seq + ucast a - fs_rx_next_seq ?fs) + i < unat (fs_rx_avail ?fs)"
    using trim_kept [OF ok nw ab] unfolding un by auto
  have sum: "unat (ucast a + ucast b :: u32) = unat a + unat b"
    using unat_lt_u16 [of a] unat_lt_u16 [of b] by (subst unat_add_no_wrap) (simp_all del: unat_lt_u16)
  have m: "unat (?n - (ucast a + ucast b)) = unat ?n - (unat a + unat b)" using le sum by (subst unat_sub_le) simp_all
  have C: "unat ?off + unat ?n \<le> length pm" "unat ?off + unat ?n < 4294967296"
    "\<And>i. i < unat ?n \<Longrightarrow> in_rx_window ?fs (?seq + of_nat i) \<Longrightarrow> Q (k + unat (?seq + of_nat i - fs_rx_next_seq ?fs)) (pm ! (unat ?off + i))"
    using c by (simp_all add: pkt_carries_def)
  have o: "unat (?off + ucast a) = unat ?off + unat a"
    using C(2) le by (subst unat_add_no_wrap) simp_all
  let ?d = "unat (?seq + ucast a - fs_rx_next_seq ?fs)"
  have Q: "Q (k + ?d + i) (pm ! (unat ?off + unat a + i))" if i: "i < unat ?n - (unat a + unat b)" for i
  proof -
    have e: "?seq + ucast a - fs_rx_next_seq ?fs + of_nat i = ?seq + of_nat (unat a + i) - fs_rx_next_seq ?fs" by simp
    have "unat (fs_rx_avail ?fs) \<le> 2147483648" using ok by (simp add: word_le_nat_alt)
    then have u: "unat (?seq + of_nat (unat a + i) - fs_rx_next_seq ?fs) = ?d + i"
      unfolding e [symmetric] using win [OF i] by (intro unat_add_small) linarith
    have "in_rx_window ?fs (?seq + of_nat (unat a + i))" using win [OF i] by (simp only: in_rx_window_def word_less_nat_alt u)
    then show ?thesis using C(3) [of "unat a + i"] i u by (simp add: add.assoc)
  qed
  have "?d + (unat ?n - (unat a + unat b)) \<le> unat (fs_rx_avail ?fs)" if "0 < unat ?n - (unat a + unat b)"
    using win [of "unat ?n - (unat a + unat b) - 1"] that by linarith
  then show "rx_seg Q k pm r'" using Q C(1) le n by (simp add: rx_seg_def r' m o Let_def) linarith
qed (use t in \<open>auto simp: rx_trim_def split: option.splits\<close>)

lemma rx_advance_ok:
  assumes "rx_place env fs" "rx_ok fs" "unat len \<le> unat (fs_rx_avail fs)"
  obtains p where "rx_advance fs len = Some (fs\<lparr>fs_rx_avail := fs_rx_avail fs - len, fs_rx_next_pos := p,
      fs_rx_next_seq := fs_rx_next_seq fs + len\<rparr>)"
    "unat p = (unat (fs_rx_next_pos fs) + unat len) mod unat (fs_rx_len fs)" "p < fs_rx_len fs"
proof -
  let ?p = "if fs_rx_next_pos fs + len \<ge> fs_rx_len fs then fs_rx_next_pos fs + len - fs_rx_len fs else fs_rx_next_pos fs + len"
  have p: "unat ?p = (unat (fs_rx_next_pos fs) + unat len) mod unat (fs_rx_len fs)"
    using rx_okD [OF assms(2)] rx_placeD [OF assms(1)] assms(3) by (intro wrapped_pos) auto
  have lt: "?p < fs_rx_len fs" using rx_okD(1) [OF assms(2)] by (simp only: word_less_nat_alt p mod_less_divisor)
  have "rx_advance fs len = Some (fs\<lparr>fs_rx_avail := fs_rx_avail fs - len, fs_rx_next_pos := ?p,
      fs_rx_next_seq := fs_rx_next_seq fs + len\<rparr>)"
    using lt by (auto simp: rx_advance_def Let_def)
  from this p lt show ?thesis by (rule that)
qed

lemma rx_at_advance:
  assumes "unat p = (unat (fs_rx_next_pos fs) + n) mod unat (fs_rx_len fs)"
  shows "rx_at (fs\<lparr>fs_rx_avail := a, fs_rx_next_pos := p, fs_rx_next_seq := q\<rparr>) shm i = rx_at fs shm (n + i)"
  using assms by (simp add: rx_at_def rx_buf_def mod_add_left_eq add.assoc)

end
