(* ===== verification/Flow_Reassembly.thy ===== *)
theory Flow_Reassembly
  imports Flow_Rx
begin

text \<open>
  Reassembly: in-order data is added to the receive buffer, data behind a gap is kept in the
  out-of-order interval and joined later. The stages \<open>rx_ooo\<close>, \<open>rx_payload\<close> and \<open>rx_merge\<close> and their
  composition \<open>flow_rx\<close> keep the receive state well formed and deliver only bytes of the stream.
\<close>

unbundle bit_operations_syntax

section \<open>Joining the out-of-order interval\<close>

text \<open>
  \<open>rx_moved fs b p s l\<close>: the receive position moved over \<open>b\<close> bytes to \<open>p\<close>, with a new out-of-order
  interval. \<open>rx_mid\<close>: the state after in-order data was added and before the out-of-order interval is
  looked at: the interval may now begin before the window.
\<close>

definition rx_moved :: "flextcp_pl_flowst \<Rightarrow> u32 \<Rightarrow> u32 \<Rightarrow> u32 \<Rightarrow> u32 \<Rightarrow> flextcp_pl_flowst" where
  "rx_moved fs b p s l = fs\<lparr>fs_rx_avail := fs_rx_avail fs - b, fs_rx_next_pos := p,
     fs_rx_next_seq := fs_rx_next_seq fs + b, fs_rx_ooo_start := s, fs_rx_ooo_len := l\<rparr>"

abbreviation rx_pos_after :: "flextcp_pl_flowst \<Rightarrow> u32 \<Rightarrow> nat" where
  "rx_pos_after fs b \<equiv> (unat (fs_rx_next_pos fs) + unat b) mod unat (fs_rx_len fs)"

definition rx_behind :: "(nat \<Rightarrow> u8 \<Rightarrow> bool) \<Rightarrow> nat \<Rightarrow> flextcp_pl_flowst \<Rightarrow> (u16 \<Rightarrow> bytes) \<Rightarrow> nat \<Rightarrow> bool" where
  "rx_behind Q k fs shm x \<longleftrightarrow> 0 < x \<and> x \<le> 65535 \<and> unat (fs_rx_next_seq fs - fs_rx_ooo_start fs) = x \<and>
     unat (fs_rx_ooo_len fs) \<le> x + unat (fs_rx_avail fs) \<and>
     (\<forall>i. i + x < unat (fs_rx_ooo_len fs) \<longrightarrow> Q (k + i) (rx_at fs shm i))"

definition rx_mid :: "(nat \<Rightarrow> u8 \<Rightarrow> bool) \<Rightarrow> nat \<Rightarrow> flextcp_pl_flowst \<Rightarrow> (u16 \<Rightarrow> bytes) \<Rightarrow> bool" where
  "rx_mid Q k fs shm \<longleftrightarrow> rx_ok (fs\<lparr>fs_rx_ooo_len := 0\<rparr>) \<and>
     (rx_ok fs \<and> rx_data Q k fs shm \<or> fs_rx_ooo_len fs \<noteq> 0 \<and> (\<exists>x. rx_behind Q k fs shm x))"

lemma rx_moved_simps [simp]:
  "fs_rx_base_sp (rx_moved fs b p s l) = fs_rx_base_sp fs" "fs_rx_len (rx_moved fs b p s l) = fs_rx_len fs"
  "fs_vm_id (rx_moved fs b p s l) = fs_vm_id fs" "fs_rx_avail (rx_moved fs b p s l) = fs_rx_avail fs - b"
  "fs_rx_next_pos (rx_moved fs b p s l) = p" "fs_rx_next_seq (rx_moved fs b p s l) = fs_rx_next_seq fs + b"
  "fs_rx_ooo_start (rx_moved fs b p s l) = s" "fs_rx_ooo_len (rx_moved fs b p s l) = l"
  by (simp_all add: rx_moved_def)

lemma rx_ok_moved0:
  assumes "rx_ok (fs\<lparr>fs_rx_ooo_len := 0\<rparr>)" "unat b \<le> unat (fs_rx_avail fs)" "p < fs_rx_len fs"
  shows "rx_ok (rx_moved fs b p s 0)"
  using assms by (auto simp: rx_ok_def word_le_nat_alt unat_sub_le)

lemma rx_data_moved0 [simp]: "rx_data Q k (rx_moved fs b p s 0) shm"
  by (simp add: rx_data_def)

text \<open>The out-of-order bytes \<open>l\<close> that now follow the window's begin are added.\<close>

lemma rx_merge_take:
  assumes pl: "rx_place env fs" and ok: "rx_ok (fs\<lparr>fs_rx_ooo_len := 0\<rparr>)" and l: "unat l \<le> unat (fs_rx_avail fs)"
  obtains p where "rx_advance (fs\<lparr>fs_rx_ooo_start := s, fs_rx_ooo_len := l\<rparr>) l = Some (rx_moved fs l p s l)"
    "unat p = rx_pos_after fs l" "p < fs_rx_len fs"
proof -
  let ?p = "if fs_rx_next_pos fs + l \<ge> fs_rx_len fs then fs_rx_next_pos fs + l - fs_rx_len fs else fs_rx_next_pos fs + l"
  have P: "unat (fs_rx_next_pos fs) < unat (fs_rx_len fs)" "unat (fs_rx_avail fs) \<le> unat (fs_rx_len fs)"
    using ok by (auto simp: rx_ok_def word_less_nat_alt word_le_nat_alt)
  have p: "unat ?p = rx_pos_after fs l" using P rx_placeD [OF pl] l by (intro wrapped_pos) auto
  have lt: "?p < fs_rx_len fs" unfolding word_less_nat_alt p using P(1) by (intro mod_less_divisor) linarith
  have "rx_advance (fs\<lparr>fs_rx_ooo_start := s, fs_rx_ooo_len := l\<rparr>) l = Some (rx_moved fs l ?p s l)"
    using lt by (cases "fs_rx_next_pos fs + l \<ge> fs_rx_len fs") (simp_all add: rx_advance_def Let_def rx_moved_def)
  from this p lt show ?thesis by (rule that)
qed

definition rx_merged :: "(nat \<Rightarrow> u8 \<Rightarrow> bool) \<Rightarrow> nat \<Rightarrow> (u16 \<Rightarrow> bytes) \<Rightarrow> rx_vars \<Rightarrow> rx_vars \<Rightarrow> bool" where
  "rx_merged Q k shm r r' \<longleftrightarrow> (\<exists>b p s l. r' = r\<lparr>rv_fs := rx_moved (rv_fs r) b p s l, rv_rx_bump := rv_rx_bump r + b\<rparr> \<and>
     unat b \<le> unat (fs_rx_avail (rv_fs r)) \<and> unat p = rx_pos_after (rv_fs r) b \<and>
     rx_ok (rx_moved (rv_fs r) b p s l) \<and> (\<forall>i < unat b. Q (k + i) (rx_at (rv_fs r) shm i)) \<and>
     rx_data Q (k + unat b) (rx_moved (rv_fs r) b p s l) shm)"

lemma merged_stay:
  assumes "rx_ok (rv_fs r)" "rx_data Q k (rv_fs r) shm"
  shows "rx_merged Q k shm r r"
proof -
  have "rx_moved (rv_fs r) 0 (fs_rx_next_pos (rv_fs r)) (fs_rx_ooo_start (rv_fs r)) (fs_rx_ooo_len (rv_fs r)) = rv_fs r"
    by (simp add: rx_moved_def)
  then show ?thesis using assms rx_okD(1) [OF assms(1)] unfolding rx_merged_def
    by (intro exI [where x = 0] exI [where x = "fs_rx_next_pos (rv_fs r)"] exI [where x = "fs_rx_ooo_start (rv_fs r)"]
        exI [where x = "fs_rx_ooo_len (rv_fs r)"]) simp
qed

lemma merged_drop:
  assumes "rx_ok ((rv_fs r)\<lparr>fs_rx_ooo_len := 0\<rparr>)"
  shows "rx_merged Q k shm r (r\<lparr>rv_fs := (rv_fs r)\<lparr>fs_rx_ooo_start := s, fs_rx_ooo_len := 0\<rparr>\<rparr>)"
proof -
  have e: "rx_moved (rv_fs r) 0 (fs_rx_next_pos (rv_fs r)) s 0 = (rv_fs r)\<lparr>fs_rx_ooo_start := s, fs_rx_ooo_len := 0\<rparr>"
    by (simp add: rx_moved_def)
  have "unat (fs_rx_next_pos (rv_fs r)) < unat (fs_rx_len (rv_fs r))" "rx_ok (rx_moved (rv_fs r) 0 (fs_rx_next_pos (rv_fs r)) s 0)"
    using assms by (auto simp: rx_ok_def word_less_nat_alt)
  then show ?thesis unfolding rx_merged_def e [symmetric]
    by (intro exI [where x = 0] exI [where x = "fs_rx_next_pos (rv_fs r)"] exI [where x = s] exI [where x = 0]) simp
qed

lemma merged_take:
  assumes pl: "rx_place env (rv_fs r)" and ok: "rx_ok ((rv_fs r)\<lparr>fs_rx_ooo_len := 0\<rparr>)"
    and l: "unat l \<le> unat (fs_rx_avail (rv_fs r))" and Q: "\<forall>i < unat l. Q (k + i) (rx_at (rv_fs r) shm i)"
  shows "\<exists>r'. do { fs \<leftarrow> rx_advance ((rv_fs r)\<lparr>fs_rx_ooo_start := s, fs_rx_ooo_len := l\<rparr>) l;
      Some (r\<lparr>rv_fs := fs\<lparr>fs_rx_ooo_len := 0\<rparr>, rv_rx_bump := rv_rx_bump r + l\<rparr>) } = Some r' \<and> rx_merged Q k shm r r'"
proof -
  obtain p where p: "rx_advance ((rv_fs r)\<lparr>fs_rx_ooo_start := s, fs_rx_ooo_len := l\<rparr>) l = Some (rx_moved (rv_fs r) l p s l)"
      "unat p = rx_pos_after (rv_fs r) l" "p < fs_rx_len (rv_fs r)"
    by (rule rx_merge_take [OF pl ok l])
  have e: "(rx_moved (rv_fs r) l p s l)\<lparr>fs_rx_ooo_len := 0\<rparr> = rx_moved (rv_fs r) l p s 0" by (simp add: rx_moved_def)
  have "rx_merged Q k shm r (r\<lparr>rv_fs := rx_moved (rv_fs r) l p s 0, rv_rx_bump := rv_rx_bump r + l\<rparr>)"
    unfolding rx_merged_def using l Q p(2) rx_ok_moved0 [OF ok l p(3)]
    by (intro exI [where x = l] exI [where x = p] exI [where x = s] exI [where x = 0]) simp
  then show ?thesis by (simp add: p(1) e)
qed

lemma rx_mid_avail:
  assumes "rx_place env fs" "rx_ok (fs\<lparr>fs_rx_ooo_len := 0\<rparr>)"
  shows "fs_rx_avail fs \<le> 0x80000000"
  using assms(2) rx_placeD(3) [OF assms(1)] by (auto simp: rx_ok_def word_le_nat_alt)

lemma unat_narrow_le: "unat (ucast (x :: u32) :: u16) \<le> unat x"
  by (simp add: unsigned_ucast_eq take_bit_nat_less_eq_self)

lemma merge_ahead:
  assumes pl: "rx_place env (rv_fs r)" and ok: "rx_ok (rv_fs r)" and data: "rx_data Q k (rv_fs r) shm"
    and nz: "fs_rx_ooo_len (rv_fs r) \<noteq> 0"
  shows "\<exists>r'. rx_merge r = Some r' \<and> rx_merged Q k shm r r'"
proof -
  let ?fs = "rv_fs r" and ?l = "fs_rx_ooo_len (rv_fs r)"
  have ok0: "rx_ok (?fs\<lparr>fs_rx_ooo_len := 0\<rparr>)" using ok by (simp add: rx_ok_def)
  have in_win: "rx_ooo_off ?fs + unat ?l \<le> unat (fs_rx_avail ?fs)" by (rule rx_okD(3) [OF ok nz])
  have t: "tcp_trim_rxbuf ?fs (fs_rx_ooo_start ?fs) (ucast ?l) = Some (0, 0)"
    using in_win nz unat_narrow_le [of ?l]
    by (intro trim_rxbuf_inside [OF rx_mid_avail [OF pl ok0], where M = "unat ?l"]) (simp_all add: rx_ooo_off_def unat_gt_0)
  show ?thesis
  proof (cases "fs_rx_ooo_start ?fs = fs_rx_next_seq ?fs")
    case True
    then have "rx_ooo_off ?fs = 0" by (simp add: rx_ooo_off_def)
    then have "\<forall>i < unat ?l. Q (k + i) (rx_at ?fs shm i)" "unat ?l \<le> unat (fs_rx_avail ?fs)"
      using data in_win by (simp_all add: rx_data_def)
    from merged_take [OF pl ok0 this(2,1), of "fs_rx_ooo_start ?fs"] show ?thesis
      using t True nz by (simp add: rx_merge_def Let_def word_gt_0)
  next
    case False
    then show ?thesis using t nz merged_stay [OF ok data] by (simp add: rx_merge_def Let_def)
  qed
qed

lemma merge_behind:
  assumes pl: "rx_place env (rv_fs r)" and ok0: "rx_ok ((rv_fs r)\<lparr>fs_rx_ooo_len := 0\<rparr>)"
    and nz: "fs_rx_ooo_len (rv_fs r) \<noteq> 0" and beh: "rx_behind Q k (rv_fs r) shm x"
  shows "\<exists>r'. rx_merge r = Some r' \<and> rx_merged Q k shm r r'"
proof -
  let ?fs = "rv_fs r" and ?l = "fs_rx_ooo_len (rv_fs r)" and ?N = "ucast (fs_rx_ooo_len (rv_fs r)) :: u16"
  note B = beh [unfolded rx_behind_def]
  have t: "tcp_trim_rxbuf ?fs (fs_rx_ooo_start ?fs) ?N = (if unat ?N < x then None else Some (of_nat x, 0))"
    using B unat_narrow_le [of ?l] by (intro trim_rxbuf_behind [OF rx_mid_avail [OF pl ok0]]) auto
  have x16: "ucast (of_nat x :: u16) = (of_nat x :: u32)" using B by (intro ucast_of_nat_small) simp_all
  have s: "fs_rx_ooo_start ?fs + of_nat x = fs_rx_next_seq ?fs" using B by auto
  show ?thesis
  proof (cases "unat ?N < x")
    case True
    then have "rx_merge r = Some (r\<lparr>rv_fs := ?fs\<lparr>fs_rx_ooo_start := fs_rx_ooo_start ?fs, fs_rx_ooo_len := 0\<rparr>\<rparr>)"
      using t nz by (simp add: rx_merge_def)
    then show ?thesis using merged_drop [OF ok0] by blast
  next
    case False
    let ?m = "?l - of_nat x"
    have x: "unat (of_nat x :: u32) = x" using B by (simp add: unsigned_of_nat take_bit_nat_eq_self)
    have m: "unat ?m = unat ?l - x" using False unat_narrow_le [of ?l] x by (subst unat_sub_le) simp_all
    have step: "rx_merge r = (if ?m > 0 then do { fs \<leftarrow> rx_advance (?fs\<lparr>fs_rx_ooo_start := fs_rx_next_seq ?fs, fs_rx_ooo_len := ?m\<rparr>) ?m;
        Some (r\<lparr>rv_fs := fs\<lparr>fs_rx_ooo_len := 0\<rparr>, rv_rx_bump := rv_rx_bump r + ?m\<rparr>) }
      else Some (r\<lparr>rv_fs := ?fs\<lparr>fs_rx_ooo_start := fs_rx_next_seq ?fs, fs_rx_ooo_len := ?m\<rparr>\<rparr>))"
      using False t nz x16 s by (simp add: rx_merge_def Let_def)
    show ?thesis
    proof (cases "?m > 0")
      case True
      have "unat ?m \<le> unat (fs_rx_avail ?fs)" "\<forall>i < unat ?m. Q (k + i) (rx_at ?fs shm i)" using B m by auto
      from merged_take [OF pl ok0 this] show ?thesis unfolding step if_P [OF True] .
    next
      case False
      then have "?m = 0" by (simp add: word_gt_0)
      then show ?thesis unfolding step if_not_P [OF False] using merged_drop [OF ok0, of Q k shm "fs_rx_next_seq ?fs"] by simp
    qed
  qed
qed

lemma rx_merge_ok:
  assumes pl: "rx_place env (rv_fs r)" and mid: "rx_mid Q k (rv_fs r) shm"
  shows "\<exists>r'. rx_merge r = Some r' \<and> rx_merged Q k shm r r'"
proof (cases "fs_rx_ooo_len (rv_fs r) = 0")
  case True
  then have "rx_merge r = Some r" "rx_ok (rv_fs r)" "rx_data Q k (rv_fs r) shm"
    using mid by (simp_all add: rx_merge_def rx_mid_def rx_ok_def rx_data_def)
  then show ?thesis using merged_stay by blast
next
  case False
  then show ?thesis using mid merge_ahead [OF pl] merge_behind [OF pl] by (auto simp: rx_mid_def)
qed

section \<open>Out-of-order segments\<close>

text \<open>
  \<open>rx_step Q k fs shm r\<close>: what the stages reached from the state \<open>fs\<close> with memory \<open>shm\<close>. The next
  position moved over the reported bytes, these are bytes of the stream from \<open>k\<close> on, and memory was
  written only in the free part of the receive buffer.
\<close>

definition rx_frame :: "flextcp_pl_flowst \<Rightarrow> (u16 \<Rightarrow> bytes) \<Rightarrow> (u16 \<Rightarrow> bytes) \<Rightarrow> bool" where
  "rx_frame fs shm shm' \<longleftrightarrow> shm' = shm \<or>
     (\<exists>d data. d + length data \<le> unat (fs_rx_avail fs) \<and> d < unat (fs_rx_len fs) \<and> shm' = rx_put fs shm d data)"

definition rx_step :: "(nat \<Rightarrow> u8 \<Rightarrow> bool) \<Rightarrow> nat \<Rightarrow> flextcp_pl_flowst \<Rightarrow> (u16 \<Rightarrow> bytes) \<Rightarrow> rx_vars \<Rightarrow> bool" where
  "rx_step Q k fs shm r \<longleftrightarrow> rx_ok (rv_fs r) \<and> fs_rx_base_sp (rv_fs r) = fs_rx_base_sp fs \<and>
     fs_rx_len (rv_fs r) = fs_rx_len fs \<and> fs_vm_id (rv_fs r) = fs_vm_id fs \<and>
     unat (rv_rx_bump r) \<le> unat (fs_rx_avail fs) \<and> fs_rx_avail (rv_fs r) = fs_rx_avail fs - rv_rx_bump r \<and>
     unat (fs_rx_next_pos (rv_fs r)) = rx_pos_after fs (rv_rx_bump r) \<and>
     fs_rx_next_seq (rv_fs r) = fs_rx_next_seq fs + rv_rx_bump r \<and>
     (\<forall>i < unat (rv_rx_bump r). Q (k + i) (rx_at fs (rv_shm r) i)) \<and>
     rx_data Q (k + unat (rv_rx_bump r)) (rv_fs r) (rv_shm r) \<and> rx_frame fs shm (rv_shm r)"

lemma rx_segD:
  assumes "rx_seg Q k pm r" "0 < unat (rv_payload_bytes r)"
  shows "unat (rv_seq r - fs_rx_next_seq (rv_fs r)) + unat (rv_payload_bytes r) \<le> unat (fs_rx_avail (rv_fs r))"
    "unat (rv_payload_off r) + unat (rv_payload_bytes r) \<le> length pm"
    "i < unat (rv_payload_bytes r) \<Longrightarrow>
       Q (k + unat (rv_seq r - fs_rx_next_seq (rv_fs r)) + i) (pm ! (unat (rv_payload_off r) + i))"
    "unat (ucast (rv_payload_bytes r) :: u16) = unat (rv_payload_bytes r)"
  using assms by (auto simp: rx_seg_def Let_def unat_ucast_narrow)

lemma rx_data_at:
  assumes "rx_data Q k fs shm" "rx_ooo_off fs \<le> e" "e < rx_ooo_off fs + unat (fs_rx_ooo_len fs)"
  shows "Q (k + e) (rx_at fs shm e)"
proof -
  have "e - rx_ooo_off fs < unat (fs_rx_ooo_len fs)" "rx_ooo_off fs + (e - rx_ooo_off fs) = e" using assms(2,3) by linarith+
  with assms(1) show ?thesis unfolding rx_data_def by (metis add.assoc)
qed

lemma ooo_write:
  assumes pl: "rx_place env (rv_fs r)" and shm: "shm_ok env (rv_shm r)" and ok: "rx_ok (rv_fs r)"
    and data: "rx_data Q k (rv_fs r) (rv_shm r)" and seg: "rx_seg Q k pm r" and n: "0 < unat (rv_payload_bytes r)"
    and fs2: "fs2 = (rv_fs r)\<lparr>fs_rx_ooo_start := a, fs_rx_ooo_len := b\<rparr>" and ok2: "rx_ok fs2"
    and cover: "\<And>e. rx_ooo_off fs2 \<le> e \<Longrightarrow> e < rx_ooo_off fs2 + unat b \<Longrightarrow>
      unat (rv_seq r - fs_rx_next_seq (rv_fs r)) \<le> e \<and> e < unat (rv_seq r - fs_rx_next_seq (rv_fs r)) + unat (rv_payload_bytes r) \<or>
      rx_ooo_off (rv_fs r) \<le> e \<and> e < rx_ooo_off (rv_fs r) + unat (fs_rx_ooo_len (rv_fs r))"
    and bump: "rv_rx_bump r = 0"
  shows "\<exists>r'. rx_seq_write env pm r fs2 = Some (r', True) \<and> rx_step Q k (rv_fs r) (rv_shm r) r' \<and> rv_fin_bump r' = rv_fin_bump r"
proof -
  let ?fs = "rv_fs r" and ?d = "unat (rv_seq r - fs_rx_next_seq (rv_fs r))" and ?n = "unat (rv_payload_bytes r)"
  let ?src = "take ?n (drop (unat (rv_payload_off r)) pm)" and ?shm = "rv_shm r"
  note S = rx_segD [OF seg n] and A = rx_okD [OF ok]
  have same: "fs_rx_next_seq fs2 = fs_rx_next_seq ?fs" "fs_rx_len fs2 = fs_rx_len ?fs" "rx_place env fs2 = rx_place env ?fs"
    "rx_put fs2 = rx_put ?fs" "rx_at fs2 = rx_at ?fs"
    by (simp_all add: fs2 rx_place_def rx_put_def rx_splice_def rx_at_def rx_buf_def fun_eq_iff)
  let ?shm' = "rx_put ?fs ?shm ?d ?src"
  have w: "flow_rx_seq_write env ?shm fs2 (rv_seq r) (ucast (rv_payload_bytes r)) (drop (unat (rv_payload_off r)) pm) = Some ?shm'"
    using flow_rx_seq_write_ok [OF _ shm ok2, of "rv_seq r" "ucast (rv_payload_bytes r)" "drop (unat (rv_payload_off r)) pm"]
      pl S(1,2,4) A(2) n unfolding same by simp
  have len: "length ?src = ?n" using S(2) by simp
  have at: "rx_at ?fs ?shm' e = (if ?d \<le> e \<and> e < ?d + ?n then ?src ! (e - ?d) else rx_at ?fs ?shm e)"
    if "e < unat (fs_rx_avail ?fs)" for e
    using rx_at_put [OF pl shm, of ?d ?src e] S(1) A(1,2) that n unfolding len by auto
  have "rx_data Q k fs2 ?shm'"
    unfolding rx_data_def
  proof (intro allI impI)
    fix i assume "i < unat (fs_rx_ooo_len fs2)"
    then have i: "i < unat b" by (simp add: fs2)
    let ?e = "rx_ooo_off fs2 + i"
    have "b \<noteq> 0" using i by auto
    then have e: "?e < unat (fs_rx_avail ?fs)" using rx_okD(3) [OF ok2] i by (simp add: fs2)
    show "Q (k + rx_ooo_off fs2 + i) (rx_at fs2 ?shm' (rx_ooo_off fs2 + i))"
    proof (cases "?d \<le> ?e \<and> ?e < ?d + ?n")
      case True
      then have lt: "?e - ?d < ?n" and le: "?d \<le> ?e" by linarith+
      have "rx_at ?fs ?shm' ?e = pm ! (unat (rv_payload_off r) + (?e - ?d))"
        using at [OF e] True lt S(2) by simp
      moreover have "k + ?d + (?e - ?d) = k + ?e" using le by simp
      ultimately show ?thesis using S(3) [OF lt] unfolding same by (simp only: add.assoc)
    next
      case False
      then have "rx_ooo_off ?fs \<le> ?e" "?e < rx_ooo_off ?fs + unat (fs_rx_ooo_len ?fs)" using cover [of ?e] i by auto
      then show ?thesis using rx_data_at [OF data] at [OF e] False unfolding same by (simp only: add.assoc if_False)
    qed
  qed
  moreover have "rx_frame ?fs ?shm ?shm'"
    using S(1) A(2) n len unfolding rx_frame_def by (intro disjI2 exI [where x = ?d] exI [where x = ?src]) simp
  ultimately show ?thesis
    using w ok2 bump A(1) by (simp add: rx_seq_write_def rx_step_def fs2)
qed

lemma unat_seq_add:
  fixes a b c :: u32
  assumes "unat (a - c) + unat b < 4294967296"
  shows "unat (a + b - c) = unat (a - c) + unat b"
proof -
  have "a + b - c = (a - c) + b" by simp
  moreover have "unat ((a - c) + b) = unat (a - c) + unat b" using assms by (subst unat_add_no_wrap) simp_all
  ultimately show ?thesis by (simp only:)
qed

lemma rx_ooo_ok:
  assumes pl: "rx_place env (rv_fs r)" and shm: "shm_ok env (rv_shm r)" and ok: "rx_ok (rv_fs r)"
    and data: "rx_data Q k (rv_fs r) (rv_shm r)" and seg: "rx_seg Q k pm r" and bump: "rv_rx_bump r = 0"
  shows "\<exists>r' u. rx_ooo env pm r = Some (r', u) \<and> (if u
    then rx_step Q k (rv_fs r) (rv_shm r) r' \<and> rv_fin_bump r' = rv_fin_bump r
    else r' = r \<and> rv_seq r = fs_rx_next_seq (rv_fs r))"
proof -
  let ?fs = "rv_fs r" and ?n = "rv_payload_bytes r" and ?l = "fs_rx_ooo_len (rv_fs r)" and ?ra = "r\<lparr>rv_trigger_ack := True\<rparr>"
  let ?d = "unat (rv_seq r - fs_rx_next_seq ?fs)"
  have stay: "rx_step Q k ?fs (rv_shm r) ?ra"
    using ok data bump rx_okD(1) [OF ok] by (simp add: rx_step_def rx_frame_def)
  have seg': "rx_seg Q k pm ?ra" using seg by (simp add: rx_seg_def)
  have wr: "\<exists>r' u. rx_ooo env pm r = Some (r', u) \<and> (if u
      then rx_step Q k ?fs (rv_shm r) r' \<and> rv_fin_bump r' = rv_fin_bump r else r' = r \<and> rv_seq r = fs_rx_next_seq ?fs)"
    if "rx_ooo env pm r = rx_seq_write env pm ?ra fs2" "0 < unat ?n" "fs2 = ?fs\<lparr>fs_rx_ooo_start := a, fs_rx_ooo_len := b\<rparr>" "rx_ok fs2"
      "\<And>e. rx_ooo_off fs2 \<le> e \<Longrightarrow> e < rx_ooo_off fs2 + unat b \<Longrightarrow> ?d \<le> e \<and> e < ?d + unat ?n \<or>
        rx_ooo_off ?fs \<le> e \<and> e < rx_ooo_off ?fs + unat ?l" for fs2 a b
  proof -
    note hyp = that
    have ra: "rv_fs ?ra = ?fs" "rv_shm ?ra = rv_shm r" "rv_payload_bytes ?ra = ?n" "rv_seq ?ra = rv_seq r"
      "rv_rx_bump ?ra = rv_rx_bump r" "rv_fin_bump ?ra = rv_fin_bump r" by simp_all
    obtain r' where "rx_seq_write env pm ?ra fs2 = Some (r', True)" "rx_step Q k ?fs (rv_shm r) r'" "rv_fin_bump r' = rv_fin_bump r"
      using ooo_write [where r = ?ra and a = a and b = b, unfolded ra, OF pl shm ok data seg' hyp(2,3,4) _ bump] hyp(5) by blast
    then show ?thesis unfolding hyp(1) by (intro exI [where x = r'] exI [where x = True]) simp
  qed
  have av: "unat (fs_rx_avail ?fs) \<le> 2147483648" using rx_okD(2) [OF ok] rx_placeD(3) [OF pl] by linarith
  consider (inorder) "rv_seq r = fs_rx_next_seq ?fs" | (nothing) "rv_seq r \<noteq> fs_rx_next_seq ?fs" "?n = 0"
    | (fresh) "rv_seq r \<noteq> fs_rx_next_seq ?fs" "?n \<noteq> 0" "?l = 0"
    | (front) "rv_seq r \<noteq> fs_rx_next_seq ?fs" "?n \<noteq> 0" "?l \<noteq> 0" "rv_seq r + ?n = fs_rx_ooo_start ?fs"
    | (rear) "rv_seq r \<noteq> fs_rx_next_seq ?fs" "?n \<noteq> 0" "?l \<noteq> 0" "rv_seq r + ?n \<noteq> fs_rx_ooo_start ?fs"
        "fs_rx_ooo_start ?fs + ?l = rv_seq r"
    | (none) "rv_seq r \<noteq> fs_rx_next_seq ?fs" "?n \<noteq> 0" "?l \<noteq> 0" "rv_seq r + ?n \<noteq> fs_rx_ooo_start ?fs"
        "fs_rx_ooo_start ?fs + ?l \<noteq> rv_seq r"
    by blast
  then show ?thesis
  proof cases
    case fresh
    then have n: "0 < unat ?n" by (simp add: unat_gt_0)
    note S = rx_segD(1) [OF seg n]
    let ?fs2 = "?fs\<lparr>fs_rx_ooo_start := rv_seq r, fs_rx_ooo_len := ?n\<rparr>"
    have off: "rx_ooo_off ?fs2 = ?d" by (simp add: rx_ooo_off_def)
    have "rx_ok ?fs2" using ok S off by (simp add: rx_ok_def)
    then show ?thesis
      by (intro wr [OF _ n refl]) (use fresh in \<open>simp add: rx_ooo_def Let_def\<close>, assumption, use off in linarith)
  next
    case front
    then have n: "0 < unat ?n" by (simp add: unat_gt_0)
    note S = rx_segD(1) [OF seg n] and I = rx_okD(3) [OF ok front(3)]
    let ?fs2 = "?fs\<lparr>fs_rx_ooo_start := rv_seq r, fs_rx_ooo_len := ?l + ?n\<rparr>"
    have off: "rx_ooo_off ?fs2 = ?d" by (simp add: rx_ooo_off_def)
    have old: "rx_ooo_off ?fs = ?d + unat ?n" unfolding rx_ooo_off_def front(4) [symmetric] using S av by (intro unat_seq_add) linarith
    have sum: "unat (?l + ?n) = unat ?l + unat ?n" using I old av by (subst unat_add_no_wrap) simp_all
    have "rx_ok ?fs2" using ok I old sum off by (simp add: rx_ok_def)
    then show ?thesis
      by (intro wr [OF _ n refl]) (use front in \<open>simp add: rx_ooo_def Let_def\<close>, assumption, use off old sum in linarith)
  next
    case rear
    then have n: "0 < unat ?n" by (simp add: unat_gt_0)
    note S = rx_segD(1) [OF seg n] and I = rx_okD(3) [OF ok rear(3)]
    let ?fs2 = "?fs\<lparr>fs_rx_ooo_start := fs_rx_ooo_start ?fs, fs_rx_ooo_len := ?l + ?n\<rparr>"
    have off: "rx_ooo_off ?fs2 = rx_ooo_off ?fs" by (simp add: rx_ooo_off_def)
    have d: "?d = rx_ooo_off ?fs + unat ?l" unfolding rx_ooo_off_def rear(5) [symmetric] using I av
      by (intro unat_seq_add) (simp add: rx_ooo_off_def)
    have sum: "unat (?l + ?n) = unat ?l + unat ?n" using S d av by (subst unat_add_no_wrap) simp_all
    have "rx_ok ?fs2" using ok S d sum off by (simp add: rx_ok_def)
    then show ?thesis
      by (intro wr [OF _ n refl, of "?l + ?n" "fs_rx_ooo_start ?fs"]) (use rear in \<open>simp add: rx_ooo_def Let_def\<close>, assumption, use off d sum in linarith)
  qed (use stay in \<open>auto simp: rx_ooo_def Let_def\<close>)
qed

section \<open>In-order segments\<close>

lemma rx_at_moved:
  assumes "unat p = (unat (fs_rx_next_pos fs) + n) mod unat (fs_rx_len fs)"
  shows "rx_at (rx_moved fs b p s l) shm i = rx_at fs shm (n + i)"
  using assms by (simp add: rx_at_def rx_buf_def rx_moved_def mod_add_left_eq add.assoc)

text \<open>Adding \<open>n\<close> bytes in order leaves the out-of-order interval ahead of the window's begin or behind it.\<close>

lemma rx_mid_after:
  assumes pl: "rx_place env fs" and ok: "rx_ok fs" and data: "rx_data Q k fs shm" and n: "unat n \<le> unat (fs_rx_avail fs)"
    and n16: "unat n < 65536"
    and p: "unat p = rx_pos_after fs n" "p < fs_rx_len fs"
    and keep: "\<And>e. unat n \<le> e \<Longrightarrow> e < unat (fs_rx_avail fs) \<Longrightarrow> rx_at fs shm' e = rx_at fs shm e"
  shows "rx_mid Q (k + unat n) (rx_moved fs n p (fs_rx_ooo_start fs) (fs_rx_ooo_len fs)) shm'" (is "rx_mid Q _ ?fs1 shm'")
proof (cases "fs_rx_ooo_len fs = 0")
  case True
  have "rx_ok (fs\<lparr>fs_rx_ooo_len := 0\<rparr>)" using ok by (simp add: rx_ok_def)
  from rx_ok_moved0 [OF this n p(2), of "fs_rx_ooo_start fs"] True show ?thesis
    by (simp add: rx_mid_def rx_ok_def rx_data_def)
next
  case False
  let ?o = "rx_ooo_off fs" and ?l = "unat (fs_rx_ooo_len fs)" and ?A = "unat (fs_rx_avail fs)"
  have I: "?o + ?l \<le> ?A" using rx_okD(3) [OF ok False] .
  have A1: "unat (fs_rx_avail ?fs1) = ?A - unat n" using n by (simp add: unat_sub_le)
  have lt: "p < fs_rx_len fs" "fs_rx_avail fs - n \<le> fs_rx_len fs"
    using p(2) rx_okD(2) [OF ok] n by (simp_all add: word_le_nat_alt unat_sub_le)
  have ok0: "rx_ok (?fs1\<lparr>fs_rx_ooo_len := 0\<rparr>)" using lt by (simp add: rx_ok_def)
  have at: "Q (k + unat n + i) (rx_at ?fs1 shm' i)" if "?o \<le> unat n + i" "unat n + i < ?o + ?l" for i
  proof -
    have "rx_at ?fs1 shm' i = rx_at fs shm (unat n + i)"
      unfolding rx_at_moved [OF p(1)] using that I by (intro keep) linarith+
    then show ?thesis using rx_data_at [OF data that] by (simp only: add.assoc)
  qed
  have s: "fs_rx_ooo_start fs - (fs_rx_next_seq fs + n) = (fs_rx_ooo_start fs - fs_rx_next_seq fs) - n"
    "fs_rx_next_seq fs + n - fs_rx_ooo_start fs = n - (fs_rx_ooo_start fs - fs_rx_next_seq fs)" by simp_all
  show ?thesis
  proof (cases "unat n \<le> ?o")
    case True
    then have o1: "rx_ooo_off ?fs1 = ?o - unat n"
      by (simp add: rx_ooo_off_def s unat_sub_le)
    have "rx_ok ?fs1" using lt False I True A1 o1 by (simp add: rx_ok_def)
    moreover have "rx_data Q (k + unat n) ?fs1 shm'"
      unfolding rx_data_def o1
    proof (intro allI impI)
      fix i assume "i < unat (fs_rx_ooo_len ?fs1)"
      then show "Q (k + unat n + (?o - unat n) + i) (rx_at ?fs1 shm' (?o - unat n + i))"
        using at [of "?o - unat n + i"] True by (simp add: add.assoc)
    qed
    ultimately show ?thesis using ok0 by (simp add: rx_mid_def)
  next
    case behind: False
    have "unat (fs_rx_next_seq fs + n - fs_rx_ooo_start fs) = unat n - ?o"
      using behind by (simp only: s rx_ooo_off_def) (simp add: unat_sub_le)
    then have "rx_behind Q (k + unat n) ?fs1 shm' (unat n - ?o)"
      using behind n16 I A1 n at by (simp add: rx_behind_def) linarith
    then show ?thesis using ok0 False by (auto simp: rx_mid_def)
  qed
qed

lemma rx_payload_ok:
  assumes pl: "rx_place env (rv_fs r)" and shm: "shm_ok env (rv_shm r)" and ok: "rx_ok (rv_fs r)"
    and data: "rx_data Q k (rv_fs r) (rv_shm r)" and seg: "rx_seg Q k pm r" and bump: "rv_rx_bump r = 0"
    and seq: "rv_seq r = fs_rx_next_seq (rv_fs r)"
  shows "\<exists>r'. rx_payload env pm r = Some r' \<and> rx_step Q k (rv_fs r) (rv_shm r) r' \<and> rv_fin_bump r' = rv_fin_bump r \<and>
    (rv_payload_bytes r = 0 \<longrightarrow> r' = r)"
proof (cases "rv_payload_bytes r = 0")
  case True
  then show ?thesis
    using ok data bump rx_okD(1) [OF ok] by (simp add: rx_payload_def rx_step_def rx_frame_def)
next
  case False
  let ?fs = "rv_fs r" and ?n = "rv_payload_bytes r" and ?src = "take (unat (rv_payload_bytes r)) (drop (unat (rv_payload_off r)) pm)"
  have n: "0 < unat ?n" using False by (simp add: unat_gt_0)
  note S = rx_segD [OF seg n, unfolded seq, simplified] and A = rx_okD [OF ok]
  have len: "length ?src = unat ?n" using S(2) by simp
  let ?shm = "rx_put ?fs (rv_shm r) 0 ?src"
  have w: "flow_rx_write env (rv_shm r) ?fs (fs_rx_next_pos ?fs) (ucast ?n) (drop (unat (rv_payload_off r)) pm) = Some ?shm"
    using flow_rx_write_next [OF pl shm ok, of "ucast ?n" "drop (unat (rv_payload_off r)) pm"] S A by simp
  have at: "rx_at ?fs ?shm e = (if e < unat ?n then ?src ! e else rx_at ?fs (rv_shm r) e)" if "e < unat (fs_rx_avail ?fs)" for e
    using rx_at_put [OF pl shm, of 0 ?src e] S(1) A(1,2) that unfolding len by auto
  obtain p where p: "rx_advance ?fs ?n = Some (?fs\<lparr>fs_rx_avail := fs_rx_avail ?fs - ?n, fs_rx_next_pos := p,
      fs_rx_next_seq := fs_rx_next_seq ?fs + ?n\<rparr>)" "unat p = rx_pos_after ?fs ?n" "p < fs_rx_len ?fs"
    by (rule rx_advance_ok [OF pl ok S(1)])
  define fs1 where "fs1 = rx_moved ?fs ?n p (fs_rx_ooo_start ?fs) (fs_rx_ooo_len ?fs)"
  have adv: "rx_advance ?fs ?n = Some fs1" unfolding p(1) by (simp add: fs1_def rx_moved_def)
  define r1 where "r1 = r\<lparr>rv_fs := fs1, rv_shm := ?shm, rv_rx_bump := ?n, rv_trigger_ack := True\<rparr>"
  have n16: "unat ?n < 65536" using seg by (simp add: rx_seg_def)
  have mid: "rx_mid Q (k + unat ?n) (rv_fs r1) ?shm"
    using rx_mid_after [OF pl ok data S(1) n16 p(2,3), of ?shm] at by (simp add: r1_def fs1_def)
  have pl1: "rx_place env (rv_fs r1)" using pl by (simp add: r1_def fs1_def rx_place_def)
  obtain r' where r': "rx_merge r1 = Some r'" "rx_merged Q (k + unat ?n) ?shm r1 r'" using rx_merge_ok [OF pl1 mid] by blast
  have step: "rx_payload env pm r = Some r'" using w adv r'(1) False by (simp add: rx_payload_def Let_def r1_def word_gt_0)
  obtain b q s l where m: "r' = r1\<lparr>rv_fs := rx_moved fs1 b q s l, rv_rx_bump := ?n + b\<rparr>"
      "unat b \<le> unat (fs_rx_avail fs1)" "unat q = rx_pos_after fs1 b" "rx_ok (rx_moved fs1 b q s l)"
      "\<forall>i < unat b. Q (k + unat ?n + i) (rx_at fs1 ?shm i)" "rx_data Q (k + unat ?n + unat b) (rx_moved fs1 b q s l) ?shm"
    using r'(2) by (auto simp: rx_merged_def r1_def)
  have "unat (fs_rx_avail fs1) = unat (fs_rx_avail ?fs) - unat ?n" using S(1) by (simp add: fs1_def unat_sub_le)
  then have sum: "unat ?n + unat b \<le> unat (fs_rx_avail ?fs)" using m(2) S(1) by linarith
  then have nb: "unat (?n + b) = unat ?n + unat b"
    using unat_lt_u32 [of "fs_rx_avail ?fs"] by (subst unat_add_no_wrap) (simp_all del: unat_lt_u32)
  have pos: "unat q = rx_pos_after ?fs (?n + b)" using m(3) p(2) nb by (simp add: fs1_def mod_add_left_eq add.assoc)
  have bytes: "Q (k + i) (rx_at ?fs ?shm i)" if "i < unat ?n + unat b" for i
  proof (cases "i < unat ?n")
    case True
    then show ?thesis using at [of i] S(2,3) that sum by simp
  next
    case False
    then show ?thesis using m(5) [rule_format, of "i - unat ?n"] that
        rx_at_moved [OF p(2), of ?n "fs_rx_ooo_start ?fs" "fs_rx_ooo_len ?fs" ?shm "i - unat ?n"]
      by (simp add: fs1_def)
  qed
  have fr: "rx_frame ?fs (rv_shm r) ?shm" unfolding rx_frame_def using S(1) A(1) len
    by (intro disjI2 exI [where x = 0] exI [where x = ?src]) simp
  have "rx_step Q k ?fs (rv_shm r) r'"
    using m(1,4,6) sum nb pos bytes fr by (simp add: rx_step_def r1_def fs1_def add.assoc)
  then show ?thesis using step m(1) False by (simp add: r1_def)
qed

section \<open>The whole reception\<close>

definition rxfin :: "flextcp_pl_flowst \<Rightarrow> bool" where
  "rxfin fs \<longleftrightarrow> fs_rx_base_sp fs AND FLEXNIC_PL_FLOWST_RXFIN \<noteq> 0"

lemma and_32: "(x::u64) AND 32 = (if bit x 5 then 32 else 0)"
proof (rule bit_word_eqI)
  fix n assume "n < LENGTH(64)"
  have e: "(32::u64) = push_bit 5 1" by simp
  show "bit (x AND 32) n = bit (if bit x 5 then 32 else 0 :: u64) n"
    unfolding e by (auto simp: bit_simps bit_1_iff simp del: push_bit_of_1)
qed

lemma rxfin_flag: "has_flag (fs_rx_base_sp fs) FLEXNIC_PL_FLOWST_RXFIN = rxfin fs"
  by (simp add: has_flag_def rxfin_def flowst_flags and_32)

lemma rxfin_set: "(x OR FLEXNIC_PL_FLOWST_RXFIN) AND FLEXNIC_PL_FLOWST_RXFIN \<noteq> (0::u64)"
proof -
  have "bit (x OR 32) 5" using bit_push_bit_iff [of 5 "1::u64" 5] by (simp add: bit_or_iff)
  then show ?thesis by (simp add: flowst_flags and_32)
qed

lemma rx_mask_fin: "(x OR FLEXNIC_PL_FLOWST_RXFIN) AND FLEXNIC_PL_FLOWST_RX_MASK = x AND FLEXNIC_PL_FLOWST_RX_MASK"
proof -
  have m: "(63::u64) = mask 6" by (simp add: mask_numeral)
  have f: "(32::u64) = push_bit 5 1" by simp
  show ?thesis unfolding flowst_flags m f
    by (rule bit_word_eqI) (auto simp: bit_simps bit_1_iff simp del: push_bit_of_1)
qed

text \<open>
  \<open>rx_done\<close> is the outcome of a packet: as in \<open>rx_step\<close>, and a FIN takes one sequence number. No data is
  delivered after a FIN.
\<close>

definition rx_done :: "(nat \<Rightarrow> u8 \<Rightarrow> bool) \<Rightarrow> nat \<Rightarrow> flextcp_pl_flowst \<Rightarrow> (u16 \<Rightarrow> bytes) \<Rightarrow> rx_vars \<Rightarrow> bool" where
  "rx_done Q k fs shm r \<longleftrightarrow> rx_ok (rv_fs r) \<and> rx_base (rv_fs r) = rx_base fs \<and>
     fs_rx_len (rv_fs r) = fs_rx_len fs \<and> fs_vm_id (rv_fs r) = fs_vm_id fs \<and>
     unat (rv_rx_bump r) \<le> unat (fs_rx_avail fs) \<and> fs_rx_avail (rv_fs r) = fs_rx_avail fs - rv_rx_bump r \<and>
     unat (fs_rx_next_pos (rv_fs r)) = rx_pos_after fs (rv_rx_bump r) \<and>
     fs_rx_next_seq (rv_fs r) = fs_rx_next_seq fs + rv_rx_bump r + (if rv_fin_bump r then 1 else 0) \<and>
     (\<forall>i < unat (rv_rx_bump r). Q (k + i) (rx_at fs (rv_shm r) i)) \<and>
     rx_data Q (k + unat (rv_rx_bump r)) (rv_fs r) (rv_shm r) \<and> rx_frame fs shm (rv_shm r) \<and>
     (rxfin fs \<longrightarrow> rv_rx_bump r = 0 \<and> \<not> rv_fin_bump r) \<and> (rxfin (rv_fs r) \<longleftrightarrow> rxfin fs \<or> rv_fin_bump r)"

lemma rx_step_done:
  assumes "rx_step Q k fs shm r" "\<not> rv_fin_bump r" "rxfin fs \<Longrightarrow> rv_rx_bump r = 0"
  shows "rx_done Q k fs shm r"
  using assms by (simp add: rx_step_def rx_done_def rxfin_def)

lemma rx_fin_done:
  assumes st: "rx_step Q k fs shm r" and nf: "\<not> rv_fin_bump r" and z: "rxfin fs \<Longrightarrow> rv_rx_bump r = 0"
  shows "rx_done Q k fs shm (rx_fin h n r)"
proof (cases "has_tcp (TCPH_FLAGS h) TAS_TCP_FIN \<and> fs_rx_base_sp (rv_fs r) AND FLEXNIC_PL_FLOWST_RXFIN = 0 \<and>
    fs_rx_next_seq (rv_fs r) = f_beui32 (tcp_seqno h) + n \<and> fs_rx_ooo_len (rv_fs r) = 0")
  case True
  have "\<not> rxfin fs" using True st by (simp add: rx_step_def rxfin_def)
  then show ?thesis using True st rxfin_set [of "fs_rx_base_sp fs"]
    by (auto simp: rx_fin_def Let_def rx_step_def rx_done_def rx_ok_def rx_data_def rx_mask_fin rxfin_def)
next
  case False
  then have "rx_fin h n r = r" unfolding rx_fin_def Let_def by (rule if_not_P)
  then show ?thesis using rx_step_done [OF st nf z] by simp
qed

lemma rx_step_cong:
  assumes "rx_same fs fs'"
  shows "rx_step Q k fs' = rx_step Q k fs" "rxfin fs' = rxfin fs"
  using assms rx_same_cong [OF assms]
  by (simp_all add: rx_step_def rx_frame_def rxfin_def fun_eq_iff) (simp_all add: rx_same_def)

lemma rx_step_stay:
  assumes "rx_ok (rv_fs r)" "rx_data Q k (rv_fs r) (rv_shm r)" "rv_rx_bump r = 0"
  shows "rx_step Q k (rv_fs r) (rv_shm r) r"
  using assms rx_okD(1) [OF assms(1)] by (simp add: rx_step_def rx_frame_def)

lemma rx_ooo_bumps:
  assumes "rx_ooo env pm r = Some (r', u)"
  shows "rv_rx_bump r' = rv_rx_bump r" "rv_fin_bump r' = rv_fin_bump r" "rv_tx_bump r' = rv_tx_bump r"
  using assms by (auto simp: rx_ooo_def Let_def rx_seq_write_def split: if_splits)

lemma flow_rx_rest:
  assumes pl: "rx_place env (rv_fs r)" and shm: "shm_ok env (rv_shm r)" and ok: "rx_ok (rv_fs r)"
    and data: "rx_data Q k (rv_fs r) (rv_shm r)" and seg: "rx_seg Q k pm r" and bump: "rv_rx_bump r = 0" "\<not> rv_fin_bump r"
    and seq: "rv_seq r = fs_rx_next_seq (rv_fs r)"
  shows "\<exists>r'. (if rx_after_fin r then Some r else do { r \<leftarrow> rx_payload env pm r; Some (rx_fin h n r) }) = Some r' \<and>
    rx_done Q k (rv_fs r) (rv_shm r) r'"
proof (cases "rx_after_fin r")
  case True
  then show ?thesis using rx_step_done [OF rx_step_stay [OF ok data bump(1)] bump(2)] bump(1) by simp
next
  case False
  obtain r' where r': "rx_payload env pm r = Some r'" "rx_step Q k (rv_fs r) (rv_shm r) r'" "rv_fin_bump r' = rv_fin_bump r"
      "rv_payload_bytes r = 0 \<longrightarrow> r' = r"
    using rx_payload_ok [OF pl shm ok data seg bump(1) seq] by blast
  have "rxfin (rv_fs r) \<Longrightarrow> rv_rx_bump r' = 0"
    using False r'(4) bump(1) by (simp add: rx_after_fin_def rxfin_flag word_gt_0)
  then have "rx_done Q k (rv_fs r) (rv_shm r) (rx_fin h n r')" using rx_fin_done r'(2,3) bump(2) by simp
  with False r'(1) show ?thesis by simp
qed

lemma rx_done_same:
  assumes "rx_same fs fs'"
  shows "rx_done Q k fs' = rx_done Q k fs"
proof -
  have "rx_at fs' = rx_at fs" "rx_frame fs' = rx_frame fs" "rxfin fs' = rxfin fs"
    using assms rx_same_cong [OF assms] rx_step_cong [OF assms] by (simp_all add: rx_frame_def fun_eq_iff rx_same_def)
  then show ?thesis using assms by (simp add: rx_done_def fun_eq_iff rx_same_def)
qed

definition rx_tail :: "fp_env \<Rightarrow> tcp_hdr \<Rightarrow> bytes \<Rightarrow> tcp_timestamp_opt \<Rightarrow> u32 \<Rightarrow> u32 \<Rightarrow> rx_vars \<Rightarrow> rx_vars option" where
  "rx_tail env h pm opt ts n r = do {
     (r, unlock) \<leftarrow> rx_ooo env pm r;
     if unlock then Some r
     else let r = rx_rtt h opt ts r in
       if rx_after_fin r then Some r else do { r \<leftarrow> rx_payload env pm r; Some (rx_fin h n r) } }"

lemma flow_rx_eq:
  "flow_rx env h pm (Some opt) ts n r =
     (let (r, unlock) = rx_ack h n r in
      if unlock then Some r else let (r, unlock) = rx_trim r in if unlock then Some r else rx_tail env h pm opt ts n r)"
  unfolding flow_rx_def rx_tail_def Let_def case_prod_beta bind.bind_lunit ..

lemma rx_tail_ok:
  assumes pl: "rx_place env (rv_fs r)" and shm: "shm_ok env (rv_shm r)" and ok: "rx_ok (rv_fs r)"
    and data: "rx_data Q k (rv_fs r) (rv_shm r)" and seg: "rx_seg Q k pm r" and bump: "rv_rx_bump r = 0" "\<not> rv_fin_bump r"
  shows "\<exists>r'. rx_tail env h pm opt ts n r = Some r' \<and> rx_done Q k (rv_fs r) (rv_shm r) r'"
proof -
  obtain r1 u where o: "rx_ooo env pm r = Some (r1, u)" "if u
      then rx_step Q k (rv_fs r) (rv_shm r) r1 \<and> rv_fin_bump r1 = rv_fin_bump r else r1 = r \<and> rv_seq r = fs_rx_next_seq (rv_fs r)"
    using rx_ooo_ok [OF pl shm ok data seg bump(1)] by blast
  show ?thesis
  proof (cases u)
    case True
    then have "rx_done Q k (rv_fs r) (rv_shm r) r1"
      using o(2) bump rx_ooo_bumps [OF o(1)] by (intro rx_step_done) simp_all
    then show ?thesis using o(1) True by (simp add: rx_tail_def)
  next
    case False
    let ?r = "rx_rtt h opt ts r"
    note R = rx_rtt_same [where r = r and h = h and opt = opt and ts = ts]
    note C = rx_same_cong [OF R(1)]
    have "\<exists>r'. (if rx_after_fin ?r then Some ?r else do { r \<leftarrow> rx_payload env pm ?r; Some (rx_fin h n r) }) = Some r' \<and>
        rx_done Q k (rv_fs ?r) (rv_shm ?r) r'"
    proof (rule flow_rx_rest)
      show "rx_seg Q k pm ?r" using seg R by (simp add: rx_seg_def rx_same_def)
      show "rv_seq ?r = fs_rx_next_seq (rv_fs ?r)" using o(2) False R by (simp add: rx_same_def)
    qed (simp_all add: C R pl shm ok data bump)
    then show ?thesis using o False unfolding R(2) rx_done_same [OF R(1)] by (simp add: rx_tail_def Let_def)
  qed
qed

lemma flow_rx_ok:
  assumes pl: "rx_place env fs" and shm: "shm_ok env shm" and ok: "rx_ok fs" and data: "rx_data Q k fs shm"
    and n: "unat n < 65536" and nw: "\<not> trim_wraps fs (f_beui32 (tcp_seqno h)) (ucast n)"
    and c: "pkt_carries Q k fs (f_beui32 (tcp_seqno h)) n pm off"
  shows "\<exists>r. flow_rx env h pm (Some opt) ts n (rx_start h n off fs shm) = Some r \<and> rx_done Q k fs shm r"
proof -
  obtain r u where a: "rx_ack h n (rx_start h n off fs shm) = (r, u)" by force
  note S = rx_ack_same [OF a]
  have same: "rx_same fs (rv_fs r)" using S(1) by (simp add: rx_start_def)
  note C = rx_same_cong [OF same]
  have r: "rv_shm r = shm" "rv_payload_bytes r = n" "rv_payload_off r = off" "rv_seq r = f_beui32 (tcp_seqno h)"
    "rv_rx_bump r = 0" "\<not> rv_fin_bump r" using S by (simp_all add: rx_start_def)
  have stay: "rx_done Q k fs shm r'" if "rv_fs r' = rv_fs r" "rv_shm r' = shm" "rv_rx_bump r' = 0" "\<not> rv_fin_bump r'" for r'
  proof -
    have "rx_done Q k (rv_fs r') (rv_shm r') r'"
      using that ok data C by (intro rx_step_done rx_step_stay) simp_all
    then show ?thesis using that rx_done_same [OF same] by simp
  qed
  obtain r2 u2 where t: "rx_trim r = (r2, u2)" by force
  consider "u" | "\<not> u" "u2" | "\<not> u" "\<not> u2" by blast
  then show ?thesis
  proof cases
    case 1
    then show ?thesis using a stay [of r] r by (simp add: flow_rx_eq)
  next
    case 2
    then have "r2 = r\<lparr>rv_trigger_ack := True\<rparr>" using t by (auto simp: rx_trim_def split: option.splits)
    then show ?thesis using a t 2 stay [of r2] r by (simp add: flow_rx_eq)
  next
    case 3
    have av: "fs_rx_avail (rv_fs r) \<le> 0x80000000"
      using same rx_okD(2) [OF ok] rx_placeD(3) [OF pl] by (simp add: word_le_nat_alt rx_same_def)
    have c1: "pkt_carries Q k (rv_fs r) (rv_seq r) (rv_payload_bytes r) pm (rv_payload_off r)"
      using c same C r by (simp add: pkt_carries_def rx_same_def)
    have n1: "unat (rv_payload_bytes r) < 65536" and t1: "rx_trim r = (r2, False)" using n r t 3 by simp_all
    have nw1: "\<not> trim_wraps (rv_fs r) (rv_seq r) (ucast (rv_payload_bytes r))" using nw r C(8) by simp
    note T = rx_trim_seg [OF av n1 nw1 c1 t1]
    have "\<exists>r'. rx_tail env h pm opt ts n r2 = Some r' \<and> rx_done Q k (rv_fs r2) (rv_shm r2) r'"
      by (rule rx_tail_ok) (simp_all add: T C r pl shm ok data)
    then show ?thesis using a t 3 T r rx_done_same [OF same] by (simp add: flow_rx_eq)
  qed
qed

end
