(* ===== verification/Flow_Stream.thy ===== *)
theory Flow_Stream
  imports Flow_Reassembly
begin

text \<open>
  Properties of the reception of data: memory safety of a single packet, and correctness of the byte
  stream over any sequence of packets and other operations on the flow.
\<close>

unbundle bit_operations_syntax

section \<open>Memory safety\<close>

lemma circ_splice_changes:
  assumes "pos < length b" "i < length b" "circ_splice b pos data ! i \<noteq> b ! i"
  shows "\<exists>k < length data. i = (pos + k) mod length b"
proof (intro exI conjI)
  let ?k = "(i + length b - pos) mod length b"
  show "?k < length data" using assms by (auto simp: circ_splice_def Let_def split: if_splits)
  show "i = (pos + ?k) mod length b"
  proof (cases "pos \<le> i")
    case True
    then show ?thesis using assms by (simp add: ring_distance_rev)
  next
    case False
    then have "pos + (i + length b - pos) = i + length b" using assms by linarith
    with False show ?thesis using assms by (simp add: ring_distance_rev)
  qed
qed

lemma rx_frame_changes:
  assumes pl: "rx_place env fs" and shm: "shm_ok env shm" and ok: "rx_ok fs" and fr: "rx_frame fs shm shm'"
  shows "length (shm' v) = length (shm v)"
    "i < length (shm v) \<Longrightarrow> shm' v ! i \<noteq> shm v ! i \<Longrightarrow> v = fs_vm_id fs \<and>
      (\<exists>d < unat (fs_rx_avail fs). i = unat (rx_base fs) + (unat (fs_rx_next_pos fs) + d) mod unat (fs_rx_len fs))"
proof -
  let ?L = "unat (fs_rx_len fs)" and ?B = "unat (rx_base fs)" and ?b = "rx_buf fs shm" and ?m = "shm (fs_vm_id fs)"
  have b: "length ?b = ?L" using length_rx_buf [OF pl shm] .
  have m: "?B + ?L \<le> length ?m" using rx_placeD [OF pl] shm by (simp add: shm_ok_def)
  have put: "length (rx_put fs shm d data v) = length (shm v)" for d data
    using m b by (simp add: rx_put_def rx_splice_def mem_simps)
  then show "length (shm' v) = length (shm v)" using fr by (auto simp: rx_frame_def)
  assume i: "i < length (shm v)" and ne: "shm' v ! i \<noteq> shm v ! i"
  then obtain d data where d: "d + length data \<le> unat (fs_rx_avail fs)" "shm' = rx_put fs shm d data"
    using fr by (auto simp: rx_frame_def)
  have v: "v = fs_vm_id fs" using ne d(2) by (auto simp: rx_put_def rx_splice_def split: if_splits)
  let ?pos = "(unat (fs_rx_next_pos fs) + d) mod ?L" and ?b' = "circ_splice ?b ((unat (fs_rx_next_pos fs) + d) mod ?L) data"
  have at: "mem_splice ?m ?B ?b' ! i \<noteq> ?m ! i" using ne v by (simp add: d(2) rx_put_def rx_splice_def)
  then have in_buf: "?B \<le> i" "i < ?B + ?L" and ch: "?b' ! (i - ?B) \<noteq> ?m ! i"
    using i v m b by (auto simp: nth_mem_splice split: if_splits)
  have "?m ! i = ?b ! (i - ?B)" using in_buf m by (simp add: rx_buf_def)
  moreover have "i - ?B < ?L" using in_buf by linarith
  ultimately obtain j where j: "j < length data" "i - ?B = (?pos + j) mod ?L"
    using circ_splice_changes [of ?pos ?b "i - ?B" data] ch b rx_okD(1) [OF ok] by auto
  then have "i = ?B + (unat (fs_rx_next_pos fs) + (d + j)) mod ?L" using in_buf(1) by (simp add: mod_add_left_eq add.assoc)
  moreover have "d + j < unat (fs_rx_avail fs)" using j(1) d(1) by linarith
  ultimately show "v = fs_vm_id fs \<and>
      (\<exists>d < unat (fs_rx_avail fs). i = ?B + (unat (fs_rx_next_pos fs) + d) mod ?L)" using v by blast
qed

end
