(* ===== verification/Flow_Tx.thy ===== *)
theory Flow_Tx
  imports Fast_Flows
begin

text \<open>
  The transmit part of the flow state. An abstract sender has the sequence number and the buffer
  position of the oldest unacknowledged byte, the number of bytes from there on, and how many of them
  were sent; the operations of \<open>Fast_Flows\<close> on the concrete counters implement it.
\<close>

unbundle bit_operations_syntax

section \<open>The abstract sender\<close>

record sender =
  sn_una :: u32
  sn_pos :: nat
  sn_total :: nat
  sn_sent :: nat

definition sn_send :: "nat \<Rightarrow> sender \<Rightarrow> sender" where
  "sn_send n s = s\<lparr>sn_sent := sn_sent s + n\<rparr>"

definition sn_rewind :: "sender \<Rightarrow> sender" where
  "sn_rewind s = s\<lparr>sn_sent := 0\<rparr>"

definition sn_ack :: "nat \<Rightarrow> nat \<Rightarrow> sender \<Rightarrow> sender" where
  "sn_ack len n s = s\<lparr>sn_una := sn_una s + of_nat n, sn_pos := (sn_pos s + n) mod len,
     sn_total := sn_total s - n, sn_sent := sn_sent s - n\<rparr>"

definition sn_append :: "nat \<Rightarrow> sender \<Rightarrow> sender" where
  "sn_append n s = s\<lparr>sn_total := sn_total s + n\<rparr>"

section \<open>Abstraction and invariant\<close>

definition tx_ok :: "flextcp_pl_flowst \<Rightarrow> bool" where
  "tx_ok fs \<longleftrightarrow> fs_tx_len fs \<le> 0x80000000 \<and> fs_tx_next_pos fs < fs_tx_len fs \<and>
     unat (fs_tx_avail fs) + unat (fs_tx_sent fs) \<le> unat (fs_tx_len fs)"

definition tx_abs :: "flextcp_pl_flowst \<Rightarrow> sender" where
  "tx_abs fs = \<lparr>sn_una = fs_tx_next_seq fs - fs_tx_sent fs,
     sn_pos = (unat (fs_tx_next_pos fs) + unat (fs_tx_len fs) - unat (fs_tx_sent fs)) mod unat (fs_tx_len fs),
     sn_total = unat (fs_tx_avail fs) + unat (fs_tx_sent fs), sn_sent = unat (fs_tx_sent fs)\<rparr>"

lemma tx_okD:
  assumes "tx_ok fs"
  shows "unat (fs_tx_len fs) \<le> 2147483648" "unat (fs_tx_next_pos fs) < unat (fs_tx_len fs)"
    "unat (fs_tx_avail fs) + unat (fs_tx_sent fs) \<le> unat (fs_tx_len fs)"
  using assms by (auto simp: tx_ok_def word_less_nat_alt word_le_nat_alt)

lemma mod_back:
  fixes p l s d :: nat
  assumes "s + d \<le> l" "p < l"
  shows "((p + d) mod l + l - (s + d)) mod l = (p + l - s) mod l"
proof (cases "p + d < l")
  case True
  then show ?thesis using assms by simp
next
  case False
  then have "(p + d) mod l = p + d - l" using assms by (subst mod_if) auto
  then have "(p + d) mod l + l - (s + d) = p - s + (p + d - l + l - (s + d) - (p - s))" using False assms by auto
  then have e: "(p + d) mod l + l - (s + d) = p - s" using False assms \<open>(p + d) mod l = p + d - l\<close> by auto
  have "s \<le> p" using False assms by linarith
  then have "p + l - s = p - s + l" by simp
  then show ?thesis using e by (simp del: add_diff_assoc2)
qed

section \<open>Sending, retransmission, acknowledgement\<close>

lemma advance_fields:
  assumes "tx_ok fs" "unat n \<le> unat (fs_tx_avail fs)"
  obtains p where "qman_advance fs n = fs\<lparr>fs_tx_next_seq := fs_tx_next_seq fs + n, fs_tx_next_pos := p,
      fs_tx_sent := fs_tx_sent fs + n, fs_tx_avail := fs_tx_avail fs - n\<rparr>"
    "unat p = (unat (fs_tx_next_pos fs) + unat n) mod unat (fs_tx_len fs)" "p < fs_tx_len fs"
    "unat (fs_tx_sent fs + n) = unat (fs_tx_sent fs) + unat n" "unat (fs_tx_avail fs - n) = unat (fs_tx_avail fs) - unat n"
proof -
  note D = tx_okD [OF assms(1)]
  let ?p = "if fs_tx_next_pos fs + n \<ge> fs_tx_len fs then fs_tx_next_pos fs + n - fs_tx_len fs else fs_tx_next_pos fs + n"
  have p: "unat ?p = (unat (fs_tx_next_pos fs) + unat n) mod unat (fs_tx_len fs)"
    using D assms(2) by (intro wrapped_pos) linarith+
  have lt: "?p < fs_tx_len fs" unfolding word_less_nat_alt p using D(2) by (intro mod_less_divisor) linarith
  have eq: "qman_advance fs n = fs\<lparr>fs_tx_next_seq := fs_tx_next_seq fs + n, fs_tx_next_pos := ?p,
      fs_tx_sent := fs_tx_sent fs + n, fs_tx_avail := fs_tx_avail fs - n\<rparr>"
    by (cases "fs_tx_next_pos fs + n \<ge> fs_tx_len fs") (simp_all add: qman_advance_def Let_def)
  have "unat (fs_tx_sent fs + n) = unat (fs_tx_sent fs) + unat n"
    using D assms(2) by (subst unat_add_no_wrap) simp_all
  moreover have "unat (fs_tx_avail fs - n) = unat (fs_tx_avail fs) - unat n" using assms(2) by (rule unat_sub_le)
  ultimately show ?thesis using that [OF eq p lt] by blast
qed

lemma tx_advance:
  assumes "tx_ok fs" "unat n \<le> unat (fs_tx_avail fs)"
  shows "tx_ok (qman_advance fs n)" "tx_abs (qman_advance fs n) = sn_send (unat n) (tx_abs fs)"
proof -
  note D = tx_okD [OF assms(1)]
  obtain p where p: "qman_advance fs n = fs\<lparr>fs_tx_next_seq := fs_tx_next_seq fs + n, fs_tx_next_pos := p,
      fs_tx_sent := fs_tx_sent fs + n, fs_tx_avail := fs_tx_avail fs - n\<rparr>"
    "unat p = (unat (fs_tx_next_pos fs) + unat n) mod unat (fs_tx_len fs)" "p < fs_tx_len fs"
    "unat (fs_tx_sent fs + n) = unat (fs_tx_sent fs) + unat n" "unat (fs_tx_avail fs - n) = unat (fs_tx_avail fs) - unat n"
    by (rule advance_fields [OF assms])
  show "tx_ok (qman_advance fs n)" using assms(1) D p assms(2) by (simp add: tx_ok_def)
  have "((unat (fs_tx_next_pos fs) + unat n) mod unat (fs_tx_len fs) + unat (fs_tx_len fs) -
      (unat (fs_tx_sent fs) + unat n)) mod unat (fs_tx_len fs) =
    (unat (fs_tx_next_pos fs) + unat (fs_tx_len fs) - unat (fs_tx_sent fs)) mod unat (fs_tx_len fs)"
    using D assms(2) by (intro mod_back) linarith+
  then show "tx_abs (qman_advance fs n) = sn_send (unat n) (tx_abs fs)"
    using p assms(2) by (simp add: tx_abs_def sn_send_def)
qed

lemma tx_rewind:
  assumes "tx_ok fs"
  shows "tx_ok (flow_reset_retransmit fs)" "tx_abs (flow_reset_retransmit fs) = sn_rewind (tx_abs fs)"
proof -
  note D = tx_okD [OF assms]
  let ?p = "if fs_tx_next_pos fs \<ge> fs_tx_sent fs then fs_tx_next_pos fs - fs_tx_sent fs
    else fs_tx_len fs - (fs_tx_sent fs - fs_tx_next_pos fs)"
  let ?P = "unat (fs_tx_next_pos fs)" and ?S = "unat (fs_tx_sent fs)" and ?L = "unat (fs_tx_len fs)"
  have f: "fs_tx_len (flow_reset_retransmit fs) = fs_tx_len fs" "fs_tx_sent (flow_reset_retransmit fs) = 0"
    "fs_tx_avail (flow_reset_retransmit fs) = fs_tx_avail fs + fs_tx_sent fs"
    "fs_tx_next_seq (flow_reset_retransmit fs) = fs_tx_next_seq fs - fs_tx_sent fs"
    "fs_tx_next_pos (flow_reset_retransmit fs) = ?p"
    by (simp_all add: flow_reset_retransmit_def Let_def)
  have p: "unat ?p = (?P + ?L - ?S) mod ?L"
  proof (cases "fs_tx_next_pos fs \<ge> fs_tx_sent fs")
    case True
    then have le: "?S \<le> ?P" by (simp add: word_le_nat_alt)
    then have "?P + ?L - ?S = ?P - ?S + ?L" by simp
    moreover have "?P - ?S < ?L" using D by linarith
    moreover have "unat ?p = ?P - ?S" using True le by (simp add: unat_sub_le)
    ultimately show ?thesis by (simp del: add_diff_assoc2)
  next
    case False
    then have lt: "?P < ?S" by (simp add: word_le_nat_alt)
    have u: "unat (fs_tx_sent fs - fs_tx_next_pos fs) = ?S - ?P" using lt by (intro unat_sub_le) simp
    have "unat (fs_tx_len fs - (fs_tx_sent fs - fs_tx_next_pos fs)) = ?L - unat (fs_tx_sent fs - fs_tx_next_pos fs)"
      using D lt u by (intro unat_sub_le) linarith
    then have "unat ?p = ?L - (?S - ?P)" using False u by simp
    moreover have "?P + ?L - ?S = ?L - (?S - ?P)" "?L - (?S - ?P) < ?L" using lt D by linarith+
    ultimately show ?thesis by simp
  qed
  have sum: "unat (fs_tx_avail fs + fs_tx_sent fs) = unat (fs_tx_avail fs) + ?S"
    using D by (subst unat_add_no_wrap) simp_all
  have lt: "unat ?p < ?L" unfolding p using D(2) by (intro mod_less_divisor) linarith
  then show "tx_ok (flow_reset_retransmit fs)"
    using assms D sum unfolding tx_ok_def f word_less_nat_alt word_le_nat_alt by simp
  show "tx_abs (flow_reset_retransmit fs) = sn_rewind (tx_abs fs)"
    unfolding tx_abs_def sn_rewind_def f p sum using D(2) by simp
qed

lemma mod_shift:
  fixes p l s n :: nat
  assumes "s \<le> l" "n \<le> s"
  shows "(p + l - (s - n)) mod l = ((p + l - s) mod l + n) mod l"
proof -
  have "p + l - (s - n) = p + l - s + n" using assms by linarith
  then show ?thesis by (simp add: mod_add_left_eq)
qed

lemma ack_sent_eq:
  "ack_sent n fs = (if n \<le> fs_tx_sent fs then fs\<lparr>fs_tx_sent := fs_tx_sent fs - n\<rparr>
      else (qman_advance fs (n - fs_tx_sent fs))\<lparr>fs_tx_sent := 0\<rparr>)"
  by (simp add: ack_sent_def qman_advance_def Let_def)

lemma tx_acked:
  assumes ok: "tx_ok fs" and n: "unat n \<le> sn_total (tx_abs fs)"
  shows "tx_ok (ack_sent n fs)" "tx_abs (ack_sent n fs) = sn_ack (unat (fs_tx_len fs)) (unat n) (tx_abs fs)"
proof -
  define fs' where "fs' = ack_sent n fs"
  note fs' = fs'_def [unfolded ack_sent_eq]
  note D = tx_okD [OF ok]
  let ?S = "unat (fs_tx_sent fs)" and ?A = "unat (fs_tx_avail fs)" and ?L = "unat (fs_tx_len fs)" and ?P = "unat (fs_tx_next_pos fs)"
  have un: "of_nat (unat n) = n" by simp
  have "tx_ok fs' \<and> tx_abs fs' = sn_ack ?L (unat n) (tx_abs fs)"
  proof (cases "n \<le> fs_tx_sent fs")
    case True
    then have le: "unat n \<le> ?S" by (simp add: word_le_nat_alt)
    have s: "unat (fs_tx_sent fs - n) = ?S - unat n" using le by (rule unat_sub_le)
    have "?S \<le> ?L" using D by linarith
    then show ?thesis using True ok D le s fs' mod_shift [of ?S ?L "unat n" ?P]
      by (simp add: tx_ok_def tx_abs_def sn_ack_def)
  next
    case False
    then have lt: "?S < unat n" by (simp add: word_le_nat_alt)
    have d: "unat (n - fs_tx_sent fs) = unat n - ?S" using lt by (intro unat_sub_le) simp
    have le: "unat (n - fs_tx_sent fs) \<le> ?A" using n d by (simp add: tx_abs_def)
    obtain p where p: "qman_advance fs (n - fs_tx_sent fs) = fs\<lparr>fs_tx_next_seq := fs_tx_next_seq fs + (n - fs_tx_sent fs),
        fs_tx_next_pos := p, fs_tx_sent := fs_tx_sent fs + (n - fs_tx_sent fs), fs_tx_avail := fs_tx_avail fs - (n - fs_tx_sent fs)\<rparr>"
      "unat p = (?P + unat (n - fs_tx_sent fs)) mod ?L" "p < fs_tx_len fs"
      "unat (fs_tx_avail fs - (n - fs_tx_sent fs)) = ?A - unat (n - fs_tx_sent fs)"
      by (rule advance_fields [OF ok le])
    have "((?P + ?L - ?S) mod ?L + unat n) mod ?L = (?P + ?L - ?S + unat n) mod ?L" by (simp add: mod_add_left_eq)
    also have "?P + ?L - ?S + unat n = ?P + (unat n - ?S) + ?L" using lt D by linarith
    finally have pos: "unat p = ((?P + ?L - ?S) mod ?L + unat n) mod ?L" using p(2) d by simp
    have "unat p < ?L" using p(3) by (simp add: word_less_nat_alt)
    then show ?thesis using False ok D p d pos le fs' lt
      by (simp add: tx_ok_def tx_abs_def sn_ack_def)
  qed
  then show "tx_ok (ack_sent n fs)" "tx_abs (ack_sent n fs) = sn_ack ?L (unat n) (tx_abs fs)" by (simp_all add: fs'_def)
qed

text \<open>\<open>tx_same\<close>: the transmit part of the flow state is the same.\<close>

definition tx_same :: "flextcp_pl_flowst \<Rightarrow> flextcp_pl_flowst \<Rightarrow> bool" where
  "tx_same fs fs' \<longleftrightarrow> fs_tx_len fs' = fs_tx_len fs \<and> fs_tx_next_pos fs' = fs_tx_next_pos fs \<and>
     fs_tx_avail fs' = fs_tx_avail fs \<and> fs_tx_sent fs' = fs_tx_sent fs \<and> fs_tx_next_seq fs' = fs_tx_next_seq fs \<and>
     fs_tx_base fs' = fs_tx_base fs"

lemma tx_same_cong:
  assumes "tx_same fs fs'"
  shows "tx_ok fs' = tx_ok fs" "tx_abs fs' = tx_abs fs"
  using assms by (simp_all add: tx_same_def tx_ok_def tx_abs_def)

text \<open>An acknowledgement is a step of the abstract sender, followed by a rewind at the third duplicate.\<close>

lemma valid_rxack_total:
  assumes "tx_ok fs" "tcp_valid_rxack fs ack = Some n"
  shows "unat n \<le> sn_total (tx_abs fs)" "n = ack - sn_una (tx_abs fs)"
proof -
  have "unat (fs_tx_sent fs + fs_tx_avail fs) = unat (fs_tx_sent fs) + unat (fs_tx_avail fs)"
    using tx_okD [OF assms(1)] by (subst unat_add_no_wrap) simp_all
  then show "unat n \<le> sn_total (tx_abs fs)" "n = ack - sn_una (tx_abs fs)"
    using assms(2) by (auto simp: valid_rxack_window Let_def tx_abs_def word_le_nat_alt split: if_splits)
qed

definition ack_step :: "u32 \<Rightarrow> bool \<Rightarrow> u32 \<Rightarrow> sender \<Rightarrow> sender" where
  "ack_step len rewind n s = (if rewind then sn_rewind else id) (sn_ack (unat len) (unat n) s)"

lemma sn_ack_0 [simp]: "sn_pos s < len \<Longrightarrow> sn_ack len 0 s = s"
  by (simp add: sn_ack_def)

lemma sn_pos_less: "tx_ok fs \<Longrightarrow> sn_pos (tx_abs fs) < unat (fs_tx_len fs)"
  using tx_okD(2) [of fs] by (simp add: tx_abs_def)

lemma rx_ack_tx:
  assumes ok: "tx_ok (rv_fs r)" and b: "rv_tx_bump r = 0" and a: "rx_ack h n r = (r', u)"
  shows "tx_ok (rv_fs r')" "unat (rv_tx_bump r') \<le> sn_total (tx_abs (rv_fs r))" "fs_tx_len (rv_fs r') = fs_tx_len (rv_fs r)"
    "tx_abs (rv_fs r') = ack_step (fs_tx_len (rv_fs r)) u (rv_tx_bump r') (tx_abs (rv_fs r))"
proof -
  let ?fs = "rv_fs r"
  have pos: "sn_pos (tx_abs ?fs) < unat (fs_tx_len ?fs)" by (rule sn_pos_less [OF ok])
  have cnt: "tx_same ?fs (acks_counted ?fs)" by (simp add: tx_same_def)
  have lr: "fs_tx_len (flow_reset_retransmit fs) = fs_tx_len fs" for fs by (simp add: flow_reset_retransmit_def Let_def)
  have A: "tx_ok (acked h m x ?fs)" "tx_abs (acked h m x ?fs) = sn_ack (unat (fs_tx_len ?fs)) (unat m) (tx_abs ?fs)"
      "fs_tx_len (acked h m x ?fs) = fs_tx_len ?fs" "unat m \<le> sn_total (tx_abs ?fs)"
    if v: "tcp_valid_rxack (acks_counted ?fs) (f_beui32 (tcp_ackno h)) = Some m" for m x
  proof -
    let ?s = "ack_stats h m (acks_counted ?fs)"
    have same: "tx_same ?fs ?s" by (simp add: tx_same_def ack_stats_def Let_def)
    note C = tx_same_cong [OF same]
    show m: "unat m \<le> sn_total (tx_abs ?fs)" using valid_rxack_total(1) [OF _ v] ok tx_same_cong [OF cnt] by simp
    have T: "tx_ok (ack_sent m ?s)" "tx_abs (ack_sent m ?s) = sn_ack (unat (fs_tx_len ?fs)) (unat m) (tx_abs ?fs)"
      using tx_acked [of ?s m] ok m C same by (simp_all add: tx_same_def)
    have d: "tx_same (ack_sent m ?s) (acked h m x ?fs)" by (simp add: tx_same_def)
    show "tx_ok (acked h m x ?fs)" "tx_abs (acked h m x ?fs) = sn_ack (unat (fs_tx_len ?fs)) (unat m) (tx_abs ?fs)"
      using T tx_same_cong [OF d] by simp_all
    show "fs_tx_len (acked h m x ?fs) = fs_tx_len ?fs" using same by (simp add: ack_sent_def Let_def tx_same_def)
  qed
  from a have "tx_ok (rv_fs r') \<and> unat (rv_tx_bump r') \<le> sn_total (tx_abs ?fs) \<and> fs_tx_len (rv_fs r') = fs_tx_len ?fs \<and>
    tx_abs (rv_fs r') = ack_step (fs_tx_len ?fs) u (rv_tx_bump r') (tx_abs ?fs)"
  proof (cases rule: rx_ack_cases)
    case ignored
    then show ?thesis using ok b pos by (simp add: ack_step_def)
  next
    case invalid
    then show ?thesis using ok b pos tx_same_cong [OF cnt] by (simp add: ack_step_def)
  next
    case (valid m x)
    then show ?thesis using A(1-3) [OF valid(1), of x] A(4) [OF valid(1)] by (simp add: ack_step_def)
  next
    case (dupack x)
    note X = A(1-3) [OF dupack(1), of x] A(4) [OF dupack(1)]
    show ?thesis using dupack(2,3) X tx_rewind [OF X(1)] lr [of "acked h 0 x ?fs"] by (simp add: ack_step_def)
  qed
  then show "tx_ok (rv_fs r')" "unat (rv_tx_bump r') \<le> sn_total (tx_abs (rv_fs r))" "fs_tx_len (rv_fs r') = fs_tx_len (rv_fs r)"
    "tx_abs (rv_fs r') = ack_step (fs_tx_len (rv_fs r)) u (rv_tx_bump r') (tx_abs (rv_fs r))" by blast+
qed

lemma rx_ack_base: "rx_ack h n r = (r', u) \<Longrightarrow> fs_tx_base (rv_fs r') = fs_tx_base (rv_fs r)"
  by (erule rx_ack_cases) (simp_all add: ack_sent_def ack_stats_def flow_reset_retransmit_def Let_def)

end
