(* ===== verification/Flow_Packet.thy ===== *)
theory Flow_Packet
  imports Flow_Stream Flow_Tx Qman_Vm
begin

text \<open>
  The packet handlers as a whole: under the conditions that header checks, the queue manager and the
  batch limits establish, \<open>fast_flows_packet\<close> and \<open>fast_flows_packet_gre\<close> return, keep the flow state
  well formed and write only to the free part of the flow's receive buffer.
\<close>

unbundle bit_operations_syntax

section \<open>Transmit part of a reception\<close>

lemma tx_same_trans: "tx_same a b \<Longrightarrow> tx_same b c \<Longrightarrow> tx_same a c"
  by (simp add: tx_same_def)

lemma rx_trim_tx: "rx_trim r = (r', u) \<Longrightarrow> rv_fs r' = rv_fs r \<and> rv_tx_bump r' = rv_tx_bump r"
  by (auto simp: rx_trim_def split: option.splits)

lemma rx_ooo_tx: "rx_ooo env pm r = Some (r', u) \<Longrightarrow> tx_same (rv_fs r) (rv_fs r') \<and> rv_tx_bump r' = rv_tx_bump r"
  by (auto simp: rx_ooo_def Let_def rx_seq_write_def tx_same_def split: if_splits)

lemma rx_advance_tx:
  assumes "rx_advance fs n = Some fs'"
  shows "tx_same fs fs'"
proof -
  have "fs' = (if fs_rx_next_pos fs + n \<ge> fs_rx_len fs
      then fs\<lparr>fs_rx_avail := fs_rx_avail fs - n, fs_rx_next_pos := fs_rx_next_pos fs + n - fs_rx_len fs\<rparr>
      else fs\<lparr>fs_rx_avail := fs_rx_avail fs - n, fs_rx_next_pos := fs_rx_next_pos fs + n\<rparr>)\<lparr>fs_rx_next_seq := fs_rx_next_seq fs + n\<rparr>"
    using assms by (cases "fs_rx_next_pos fs + n \<ge> fs_rx_len fs") (auto simp: rx_advance_def Let_def)
  then show ?thesis by (simp add: tx_same_def)
qed

lemma rx_merge_tx:
  assumes "rx_merge r = Some r'"
  shows "tx_same (rv_fs r) (rv_fs r') \<and> rv_tx_bump r' = rv_tx_bump r"
proof (cases "fs_rx_ooo_len (rv_fs r) = 0")
  case True
  then show ?thesis using assms by (simp add: rx_merge_def tx_same_def)
next
  case nz: False
  show ?thesis
  proof (cases "tcp_trim_rxbuf (rv_fs r) (fs_rx_ooo_start (rv_fs r)) (ucast (fs_rx_ooo_len (rv_fs r)))")
    case None
    then have "r' = r\<lparr>rv_fs := (rv_fs r)\<lparr>fs_rx_ooo_len := 0\<rparr>\<rparr>" using assms nz by (simp add: rx_merge_def Let_def)
    then show ?thesis by (simp add: tx_same_def)
  next
    case (Some ab)
    obtain a b where ab: "ab = (a, b)" by (cases ab)
    define fs where "fs = (rv_fs r)\<lparr>fs_rx_ooo_start := fs_rx_ooo_start (rv_fs r) + ucast a,
      fs_rx_ooo_len := fs_rx_ooo_len (rv_fs r) - (ucast a + ucast b)\<rparr>"
    have same: "tx_same (rv_fs r) fs" by (simp add: fs_def tx_same_def)
    have m: "rx_merge r = (if fs_rx_ooo_len fs > 0 \<and> fs_rx_ooo_start fs = fs_rx_next_seq fs then do {
        fs' \<leftarrow> rx_advance fs (fs_rx_ooo_len fs);
        Some (r\<lparr>rv_fs := fs'\<lparr>fs_rx_ooo_len := 0\<rparr>, rv_rx_bump := rv_rx_bump r + fs_rx_ooo_len fs\<rparr>) }
      else Some (r\<lparr>rv_fs := fs\<rparr>))"
      unfolding rx_merge_def Let_def fs_def [symmetric] using nz by (simp only: Some ab if_False option.case prod.case fs_def [symmetric])
    consider (stay) "r' = r\<lparr>rv_fs := fs\<rparr>"
      | (move) fs' where "rx_advance fs (fs_rx_ooo_len fs) = Some fs'"
          "r' = r\<lparr>rv_fs := fs'\<lparr>fs_rx_ooo_len := 0\<rparr>, rv_rx_bump := rv_rx_bump r + fs_rx_ooo_len fs\<rparr>"
      using assms [unfolded m] by (auto split: if_splits)
    then show ?thesis
    proof cases
      case stay
      then show ?thesis using same by simp
    next
      case move
      then show ?thesis using tx_same_trans [OF same rx_advance_tx [OF move(1)]] by (simp add: tx_same_def)
    qed
  qed
qed

lemma rx_payload_tx:
  assumes "rx_payload env pm r = Some r'"
  shows "tx_same (rv_fs r) (rv_fs r') \<and> rv_tx_bump r' = rv_tx_bump r"
proof (cases "rv_payload_bytes r > 0")
  case True
  then obtain shm fs where s: "rx_advance (rv_fs r) (rv_payload_bytes r) = Some fs"
      "rx_merge (r\<lparr>rv_fs := fs, rv_shm := shm, rv_rx_bump := rv_payload_bytes r, rv_trigger_ack := True\<rparr>) = Some r'"
    using assms by (auto simp: rx_payload_def Let_def)
  show ?thesis using rx_merge_tx [OF s(2)] tx_same_trans [OF rx_advance_tx [OF s(1)]] by simp
next
  case False
  then show ?thesis using assms by (simp add: rx_payload_def tx_same_def)
qed

lemma rx_rtt_tx: "tx_same (rv_fs r) (rv_fs (rx_rtt h opt ts r))"
  by (simp add: rx_rtt_def Let_def tx_same_def)

lemma rx_fin_tx: "tx_same (rv_fs r) (rv_fs (rx_fin h n r))" "rv_tx_bump (rx_fin h n r) = rv_tx_bump r"
  by (simp_all add: rx_fin_def Let_def tx_same_def)

lemma rx_tail_tx:
  assumes "rx_tail env h pm opt ts n r = Some r'"
  shows "tx_same (rv_fs r) (rv_fs r') \<and> rv_tx_bump r' = rv_tx_bump r"
proof -
  obtain r1 u where o: "rx_ooo env pm r = Some (r1, u)"
    and rest: "(if u then Some r1 else let r = rx_rtt h opt ts r1 in if rx_after_fin r then Some r
      else do { r \<leftarrow> rx_payload env pm r; Some (rx_fin h n r) }) = Some r'"
    using assms by (auto simp: rx_tail_def)
  note O = rx_ooo_tx [OF o]
  let ?r = "rx_rtt h opt ts r1"
  have R: "tx_same (rv_fs r) (rv_fs ?r)" "rv_tx_bump ?r = rv_tx_bump r"
    using O tx_same_trans [OF _ rx_rtt_tx] rx_rtt_same(7) [of h opt ts r1] by auto
  consider "u" "r' = r1" | "r' = ?r" | r2 where "rx_payload env pm ?r = Some r2" "r' = rx_fin h n r2"
    using rest by (auto simp: Let_def split: if_splits)
  then show ?thesis
  proof cases
    case (3 r2)
    note P = rx_payload_tx [OF 3(1)]
    have "tx_same (rv_fs r) (rv_fs r2)" using P tx_same_trans [OF R(1)] by blast
    then show ?thesis using tx_same_trans [OF _ rx_fin_tx(1)] 3(2) P R(2) rx_fin_tx(2) by simp
  qed (use O R in simp_all)
qed

lemma flow_rx_tx:
  assumes ok: "tx_ok (rv_fs r)" and b: "rv_tx_bump r = 0" and f: "flow_rx env h pm (Some opt) ts n r = Some r'"
  shows "tx_ok (rv_fs r')" "unat (rv_tx_bump r') \<le> sn_total (tx_abs (rv_fs r))" "fs_tx_len (rv_fs r') = fs_tx_len (rv_fs r)"
    "fs_tx_base (rv_fs r') = fs_tx_base (rv_fs r)" "\<exists>u. tx_abs (rv_fs r') = ack_step (fs_tx_len (rv_fs r)) u (rv_tx_bump r') (tx_abs (rv_fs r))"
proof -
  obtain r1 u1 where a: "rx_ack h n r = (r1, u1)" by force
  note A = rx_ack_tx [OF ok b a]
  obtain r2 u2 where t: "rx_trim r1 = (r2, u2)" by force
  note T = rx_trim_tx [OF t]
  have "tx_same (rv_fs r1) (rv_fs r') \<and> rv_tx_bump r' = rv_tx_bump r1"
  proof (cases "u1 \<or> u2")
    case True
    then have "r' = r1 \<or> r' = r2" using f a t by (cases u1) (simp_all add: flow_rx_eq)
    then show ?thesis using T by (auto simp: tx_same_def)
  next
    case False
    then have "rx_tail env h pm opt ts n r2 = Some r'" using f a t by (simp add: flow_rx_eq)
    from rx_tail_tx [OF this] T show ?thesis by simp
  qed
  then have S: "tx_same (rv_fs r1) (rv_fs r')" "rv_tx_bump r' = rv_tx_bump r1" by simp_all
  note C = tx_same_cong [OF S(1)]
  show "tx_ok (rv_fs r')" "unat (rv_tx_bump r') \<le> sn_total (tx_abs (rv_fs r))" using A(1,2) C(1) S(2) by simp_all
  show "fs_tx_len (rv_fs r') = fs_tx_len (rv_fs r)" using A(3) S(1) by (simp add: tx_same_def)
  show "fs_tx_base (rv_fs r') = fs_tx_base (rv_fs r)" using rx_ack_base [OF a] S(1) by (simp add: tx_same_def)
  show "\<exists>u. tx_abs (rv_fs r') = ack_step (fs_tx_len (rv_fs r)) u (rv_tx_bump r') (tx_abs (rv_fs r))"
    using A(4) C(2) S(2) by auto
qed

section \<open>Flow state\<close>

definition flow_ok :: "fp_env \<Rightarrow> flextcp_pl_flowst \<Rightarrow> bool" where
  "flow_ok env fs \<longleftrightarrow> rx_place env fs \<and> rx_ok fs \<and> tx_ok fs \<and> dc_vm_ok (fs_vm_id fs)"

text \<open>A flag in the low bits of the receive buffer's address does not change the address.\<close>

lemma rx_mask_or:
  assumes "f AND FLEXNIC_PL_FLOWST_RX_MASK = 0"
  shows "(x OR f) AND FLEXNIC_PL_FLOWST_RX_MASK = x AND FLEXNIC_PL_FLOWST_RX_MASK"
  using assms by (simp add: bit.conj_disj_distrib2)

lemma flag_masks:
  "FLEXNIC_PL_FLOWST_SLOWPATH AND FLEXNIC_PL_FLOWST_RX_MASK = 0"
  "FLEXNIC_PL_FLOWST_TXFIN AND FLEXNIC_PL_FLOWST_RX_MASK = 0"
  "FLEXNIC_PL_FLOWST_ECN AND FLEXNIC_PL_FLOWST_RX_MASK = 0"
  by (simp_all add: flowst_flags)

lemma flow_ok_flag:
  assumes "flow_ok env fs" "f AND FLEXNIC_PL_FLOWST_RX_MASK = 0"
  shows "flow_ok env (fs\<lparr>fs_rx_base_sp := fs_rx_base_sp fs OR f\<rparr>)"
  using assms rx_mask_or [OF assms(2)]
  by (simp add: flow_ok_def rx_place_def rx_ok_def rx_ooo_off_def tx_ok_def)

lemma rx_done_flow_ok:
  assumes "flow_ok env fs" "rx_done Q k fs shm r" "tx_ok (rv_fs r)"
  shows "flow_ok env (rv_fs r)"
  using assms by (simp add: flow_ok_def rx_done_def rx_place_def)

lemma txavail_le: "tcp_txavail fs None \<le> fs_tx_avail fs"
  by (simp add: tcp_txavail_def Let_def)

section \<open>The queue manager\<close>

lemma QMAN_SET_ALL_flags: "QMAN_SET_ALL AND QMAN_SET_AVAIL \<noteq> 0"
  by (simp add: QMAN_SET_ALL_def qman_flags)

text \<open>There is room in the counter of the VM for all bytes of one more flow.\<close>

definition qman_room :: "dataplane_context \<Rightarrow> u16 \<Rightarrow> u32 \<Rightarrow> bool" where
  "qman_room ctx vm n \<longleftrightarrow> flow_total (vm_flows (dc_vqman ctx) (ucast vm)) + unat n < 4294967296"

lemma flow_qman_update_ok:
  assumes "vm_inv (dc_vqman ctx) vs" "dc_vm_ok vm" "fq_ok i" "qman_room ctx vm n" "avail \<le> n"
  shows "\<exists>t vs'. flow_qman_update ctx (ucast vm) i rate avail chunk = Some (ctx\<lparr>dc_qman := t\<rparr>) \<and> vm_inv (qt_vqman t) vs'"
proof -
  have "set_fits (vm_flows (qt_vqman (dc_qman ctx)) (ucast vm)) i avail QMAN_SET_ALL"
    using assms(4,5) QMAN_SET_ALL_flags by (simp add: set_fits_def qman_room_def dc_vqman_def word_le_nat_alt)
  moreover have "unat (ucast vm :: u32) < FLEXNIC_PL_VMST_NUM" using assms(2) by (simp add: dc_vm_ok_def)
  ultimately obtain t vs' where "tas_qman_set (dc_qman ctx) (ucast vm) i rate avail chunk QMAN_SET_ALL = Some (0, t)" "vm_inv (qt_vqman t) vs'"
    using tas_qman_set_ok [OF assms(1) [unfolded dc_vqman_def] _ assms(3)] by blast
  then show ?thesis by (auto simp: flow_qman_update_def)
qed

section \<open>Acknowledgement packets\<close>

lemma signals_ece_Some: "dc_vm_ok (fs_vm_id fs) \<Longrightarrow> \<exists>b. signals_ece env ctx fs = Some b"
  by (auto simp: signals_ece_def flow_should_signal_ece_def Let_def)

lemma network_buf_write_ok:
  assumes "off + length src \<le> length (nb_buf nb)"
  shows "network_buf_write nb off src = Some (nb\<lparr>nb_buf := mem_splice (nb_buf nb) off src\<rparr>)"
  using assms by (simp add: network_buf_write_def mem_simps)

lemma ack_opts_ok:
  assumes "pos + 10 \<le> length (nb_buf nb)"
  shows "\<exists>b. ack_opts nb pos myts echots = Some (nb\<lparr>nb_buf := b\<rparr>) \<and> length b = length (nb_buf nb)"
proof -
  let ?b = "mem_splice (nb_buf nb) (pos + 2) (be32_store (t_beui32 myts))"
  have l: "length ?b = length (nb_buf nb)" using assms by (simp add: mem_simps)
  have "ack_opts nb pos myts echots = Some (nb\<lparr>nb_buf := mem_splice ?b (pos + 6) (be32_store (t_beui32 echots))\<rparr>)"
    using assms l by (simp add: ack_opts_def network_buf_write_ok)
  moreover have "length (mem_splice ?b (pos + 6) (be32_store (t_beui32 echots))) = length (nb_buf nb)"
    using assms l by (simp add: mem_simps)
  ultimately show ?thesis by blast
qed

lemma tcp_checksums_keep:
  assumes "tcp_checksums env nb p rest s d n = (p', nb')"
  shows "nb_buf nb' = nb_buf nb" "nb_off nb' = nb_off nb" "nb_id nb' = nb_id nb" "p_eth p' = p_eth p"
    "p_ip p' = (p_ip p)\<lparr>ip_chksum := ip_chksum (p_ip p')\<rparr>" "p_tcp p' = (p_tcp p)\<lparr>tcp_chksum := tcp_chksum (p_tcp p')\<rparr>"
  using assms by (auto simp: tcp_checksums_def Let_def tx_xsum_enable_def network_buf_tcpxsums_def split: if_splits)

lemma gre_checksums_keep:
  assumes "gre_checksums env nb p rest n = (p', nb')"
  shows "nb_buf nb' = nb_buf nb" "nb_off nb' = nb_off nb" "nb_id nb' = nb_id nb" "g_eth p' = g_eth p" "g_gre p' = g_gre p"
    "g_in_ip p' = (g_in_ip p)\<lparr>ip_chksum := ip_chksum (g_in_ip p')\<rparr>"
    "g_out_ip p' = (g_out_ip p)\<lparr>ip_chksum := ip_chksum (g_out_ip p')\<rparr>"
    "g_tcp p' = (g_tcp p)\<lparr>tcp_chksum := tcp_chksum (g_tcp p')\<rparr>"
  using assms by (auto simp: gre_checksums_def Let_def tx_gre_xsum_enable_def network_buf_grexsums_def split: if_splits)

lemma load_spliced:
  assumes "base + 54 \<le> length b"
  shows "pkt_tcp_load (mem_splice b base (pkt_tcp_store p)) base = Some p"
  using pkt_tcp_load_store [of "take base b" p] assms by (simp add: mem_splice_def)

lemma load_spliced_gre:
  assumes "base + 82 \<le> length b"
  shows "pkt_gre_load (mem_splice b base (pkt_gre_store p)) base = Some p"
  using pkt_gre_load_store [of "take base b" p] assms by (simp add: mem_splice_def)

text \<open>\<open>acks_tcp h h' ..\<close>: the header \<open>h'\<close> acknowledges a packet with header \<open>h\<close>.\<close>

definition acks_tcp :: "tcp_hdr \<Rightarrow> tcp_hdr \<Rightarrow> u32 \<Rightarrow> u32 \<Rightarrow> u32 \<Rightarrow> bool" where
  "acks_tcp h h' seq ack wnd \<longleftrightarrow> tcp_src h' = tcp_dest h \<and> tcp_dest h' = tcp_src h \<and> f_beui32 (tcp_seqno h') = seq \<and>
     f_beui32 (tcp_ackno h') = ack \<and> f_beui16 (tcp_wnd h') = ucast (min 0xFFFF wnd) \<and>
     TCPH_FLAGS h' AND NOT TAS_TCP_ECE = TAS_TCP_ACK"

lemma ack_tcp_acks:
  assumes "h' = (ack_tcp seq ack wnd (ack_ecn ip e) h)\<lparr>tcp_chksum := x\<rparr>"
  shows "acks_tcp h h' seq ack wnd"
proof -
  have fl: "TCPH_FLAGS (f\<lparr>tcp_chksum := y\<rparr>) = TCPH_FLAGS f" for f y by (simp add: TCPH_FLAGS_def)
  have "TCPH_FLAGS (ack_tcp seq ack wnd (ack_ecn ip e) h) AND NOT TAS_TCP_ECE = TAS_TCP_ACK"
    unfolding ack_tcp_def TCPH_FLAGS_set
    by (cases "IPH_ECN ip = TAS_IP_ECN_CE"; cases e) (simp_all add: ack_ecn_def pkt_consts)
  then show ?thesis unfolding assms acks_tcp_def fl by (simp add: ack_tcp_def TCPH_HDRLEN_FLAGS_SET_def)
qed

lemma flow_tx_ack_ok:
  assumes vm: "dc_vm_ok (fs_vm_id fs)" and room: "unat (nb_off nb) + 54 + unat ts_off + 10 \<le> length (nb_buf nb)"
    and tx: "length (dc_tx ctx) < TXBUF_SIZE" and p: "pkt_tcp_load (nb_buf nb) (unat (nb_off nb)) = Some p"
  shows "\<exists>nb' p'. flow_tx_ack env ctx fs seq ack wnd echots myts nb ts_off = Some (ctx\<lparr>dc_tx := dc_tx ctx @ [nb']\<rparr>) \<and>
    nb_id nb' = nb_id nb \<and> pkt_tcp_load (nb_buf nb') (unat (nb_off nb')) = Some p' \<and>
    eth_dest (p_eth p') = eth_src (p_eth p) \<and> ip_src (p_ip p') = ip_dest (p_ip p) \<and> ip_dest (p_ip p') = ip_src (p_ip p) \<and>
    acks_tcp (p_tcp p) (p_tcp p') seq ack wnd"
proof -
  let ?base = "unat (nb_off nb)"
  obtain e where e: "signals_ece env ctx fs = Some e" using signals_ece_Some [OF vm] by blast
  have sz: "unat sizeof_pkt_tcp = 54" by (simp add: sizeof_defs)
  obtain b where b: "ack_opts nb (?base + 54 + unat ts_off) myts echots = Some (nb\<lparr>nb_buf := b\<rparr>)" "length b = length (nb_buf nb)"
    using ack_opts_ok [of "?base + 54 + unat ts_off" nb] room by auto
  define hl :: u16 where "hl = ucast sizeof_pkt_tcp + (TCPH_HDRLEN (p_tcp p) - 5) * 4"
  define q where "q = \<lparr>p_eth = ack_eth (p_eth p), p_ip = ack_ip (hl - 14) (p_ip p),
    p_tcp = ack_tcp seq ack wnd (ack_ecn (p_ip p) e) (p_tcp p)\<rparr>"
  obtain p' nb1 where c: "tcp_checksums env (nb\<lparr>nb_buf := b\<rparr>) q (drop (?base + 54) b) (ip_src (p_ip q)) (ip_dest (p_ip q)) (hl - 34) = (p', nb1)"
    by force
  note K = tcp_checksums_keep [OF c]
  define nb' where "nb' = network_buf_setlen (network_buf_setoff (nb1\<lparr>nb_buf := mem_splice b ?base (pkt_tcp_store p')\<rparr>) (nb_off nb)) hl"
  have w: "network_buf_write nb1 ?base (pkt_tcp_store p') = Some (nb1\<lparr>nb_buf := mem_splice b ?base (pkt_tcp_store p')\<rparr>)"
    using K(1) room b(2) by (simp add: network_buf_write_ok)
  have "flow_tx_ack env ctx fs seq ack wnd echots myts nb ts_off = Some (ctx\<lparr>dc_tx := dc_tx ctx @ [nb']\<rparr>)"
    unfolding flow_tx_ack_def Let_def p e sz bind.bind_lunit hl_def [symmetric] b(1) q_def [symmetric]
    using tx K(2) by (simp add: c w tx_send_def nb'_def)
  moreover have "pkt_tcp_load (nb_buf nb') (unat (nb_off nb')) = Some p'"
    using load_spliced [of ?base b p'] room b(2) by (simp add: nb'_def network_buf_setlen_def network_buf_setoff_def)
  moreover have "acks_tcp (p_tcp p) (p_tcp p') seq ack wnd"
    using K(6) by (intro ack_tcp_acks) (simp add: q_def)
  moreover have "ip_src (p_ip p') = ip_dest (p_ip p)" "ip_dest (p_ip p') = ip_src (p_ip p)"
    using arg_cong [OF K(5), of ip_src] arg_cong [OF K(5), of ip_dest] by (simp_all add: q_def ack_ip_def IPH_ECN_SET_def)
  ultimately show ?thesis using K(3,4)
    by (intro exI [where x = nb'] exI [where x = p'])
      (simp add: nb'_def network_buf_setlen_def network_buf_setoff_def q_def ack_eth_def)
qed

lemma flow_tx_ack_gre_ok:
  assumes vm: "dc_vm_ok (fs_vm_id fs)" and room: "unat (nb_off nb) + 82 + unat ts_off + 10 \<le> length (nb_buf nb)"
    and tx: "length (dc_tx ctx) < TXBUF_SIZE" and p: "pkt_gre_load (nb_buf nb) (unat (nb_off nb)) = Some p"
  shows "\<exists>nb' p'. flow_tx_ack_gre env ctx fs seq ack wnd echots myts nb ts_off = Some (ctx\<lparr>dc_tx := dc_tx ctx @ [nb']\<rparr>) \<and>
    nb_id nb' = nb_id nb \<and> pkt_gre_load (nb_buf nb') (unat (nb_off nb')) = Some p' \<and>
    eth_dest (g_eth p') = eth_src (g_eth p) \<and> gre_key (g_gre p') = gre_key (g_gre p) \<and>
    ip_dest (g_out_ip p') = ip_src (g_out_ip p) \<and> ip_dest (g_in_ip p') = ip_src (g_in_ip p) \<and>
    acks_tcp (g_tcp p) (g_tcp p') seq ack wnd"
proof -
  let ?base = "unat (nb_off nb)"
  obtain e where e: "signals_ece env ctx fs = Some e" using signals_ece_Some [OF vm] by blast
  have sz: "unat sizeof_pkt_gre = 82" by (simp add: sizeof_defs)
  obtain b where b: "ack_opts nb (?base + 82 + unat ts_off) myts echots = Some (nb\<lparr>nb_buf := b\<rparr>)" "length b = length (nb_buf nb)"
    using ack_opts_ok [of "?base + 82 + unat ts_off" nb] room by auto
  define hl :: u16 where "hl = ucast sizeof_pkt_gre + (TCPH_HDRLEN (g_tcp p) - 5) * 4"
  define q where "q = \<lparr>g_eth = ack_eth (g_eth p), g_out_ip = ack_ip (hl - 14) (g_out_ip p), g_gre = g_gre p,
    g_in_ip = ack_ip (hl - 42) (g_in_ip p), g_tcp = ack_tcp seq ack wnd (ack_ecn (g_in_ip p) e) (g_tcp p)\<rparr>"
  obtain p' nb1 where c: "gre_checksums env (nb\<lparr>nb_buf := b\<rparr>) q (drop (?base + 82) b) (hl - 62) = (p', nb1)"
    by force
  note K = gre_checksums_keep [OF c]
  define nb' where "nb' = network_buf_setlen (network_buf_setoff (nb1\<lparr>nb_buf := mem_splice b ?base (pkt_gre_store p')\<rparr>) (nb_off nb)) hl"
  have w: "network_buf_write nb1 ?base (pkt_gre_store p') = Some (nb1\<lparr>nb_buf := mem_splice b ?base (pkt_gre_store p')\<rparr>)"
    using K(1) room b(2) by (simp add: network_buf_write_ok)
  have "flow_tx_ack_gre env ctx fs seq ack wnd echots myts nb ts_off = Some (ctx\<lparr>dc_tx := dc_tx ctx @ [nb']\<rparr>)"
    unfolding flow_tx_ack_gre_def Let_def p e sz bind.bind_lunit hl_def [symmetric] b(1) q_def [symmetric]
    using tx K(2) by (simp add: c w tx_send_def nb'_def)
  moreover have "pkt_gre_load (nb_buf nb') (unat (nb_off nb')) = Some p'"
    using load_spliced_gre [of ?base b p'] room b(2) by (simp add: nb'_def network_buf_setlen_def network_buf_setoff_def)
  moreover have "acks_tcp (g_tcp p) (g_tcp p') seq ack wnd"
    using K(8) by (intro ack_tcp_acks) (simp add: q_def)
  moreover have "ip_dest (g_out_ip p') = ip_src (g_out_ip p)" "ip_dest (g_in_ip p') = ip_src (g_in_ip p)"
    using arg_cong [OF K(6), of ip_dest] arg_cong [OF K(7), of ip_dest] by (simp_all add: q_def ack_ip_def IPH_ECN_SET_def)
  ultimately show ?thesis using K(3,4,5)
    by (intro exI [where x = nb'] exI [where x = p'])
      (simp add: nb'_def network_buf_setlen_def network_buf_setoff_def q_def ack_eth_def)
qed

section \<open>A packet\<close>

text \<open>
  \<open>pkt_fits\<close>: the lengths in the headers agree with the memory \<open>pm\<close> that holds the packet. \<open>core_ready\<close>: the
  core has room for one notification and one packet, and the queue manager is consistent.
\<close>

definition extra_hlen :: "tcp_hdr \<Rightarrow> nat" where
  "extra_hlen h = (unat (TCPH_HDRLEN h) - 5) * 4"

definition pkt_fits :: "nat \<Rightarrow> u16 \<Rightarrow> tcp_hdr \<Rightarrow> bytes \<Rightarrow> u16 \<Rightarrow> bool" where
  "pkt_fits hdr iplen h pm ts_off \<longleftrightarrow> 5 \<le> unat (TCPH_HDRLEN h) \<and> 40 + extra_hlen h \<le> unat iplen \<and>
     hdr + unat iplen \<le> length pm + 40 \<and> hdr + unat ts_off + 10 \<le> length pm"

definition payload_len :: "u16 \<Rightarrow> tcp_hdr \<Rightarrow> nat" where
  "payload_len iplen h = unat iplen - (40 + extra_hlen h)"

definition core_ready :: "dataplane_context \<Rightarrow> flextcp_pl_flowst \<Rightarrow> bool" where
  "core_ready ctx fs \<longleftrightarrow> length (dc_arx ctx) < BATCH_SIZE \<and> length (dc_tx ctx) < TXBUF_SIZE \<and>
     (\<exists>vs. vm_inv (dc_vqman ctx) vs) \<and> qman_room ctx (fs_vm_id fs) (fs_tx_len fs)"

lemma hdrlen_bound: "unat (TCPH_HDRLEN h) < 16"
proof -
  have "unat (TCPH_HDRLEN h) = unat (ntohs (tcp_hdrlen_rsvd_flags h)) div 4096"
    by (simp add: TCPH_HDRLEN_def unat_drop_bit_eq drop_bit_eq_div unat_div)
  also have "\<dots> < 16" using unat_lt_u16 [of "ntohs (tcp_hdrlen_rsvd_flags h)"] by (simp add: div_less_iff_less_mult del: unat_lt_u16)
  finally show ?thesis .
qed

lemma payload_words:
  assumes fit: "5 \<le> unat (TCPH_HDRLEN h)" "40 + extra_hlen h \<le> unat (iplen :: u16)" and hdr: "unat (sizeof_p :: u64) \<le> 82"
  defines "x \<equiv> (TCPH_HDRLEN h - 5) * 4"
  shows "unat (ucast (sizeof_p + ucast x) :: u32) = unat sizeof_p + extra_hlen h"
    "unat (ucast (ucast iplen - (sizeof_ip_hdr + sizeof_tcp_hdr + ucast x)) :: u32) = payload_len iplen h"
proof -
  have "unat (TCPH_HDRLEN h - 5) = unat (TCPH_HDRLEN h) - 5" using fit(1) by (simp add: unat_sub_le)
  then have x: "unat x = extra_hlen h" unfolding x_def extra_hlen_def unat_word_ariths(2) using hdrlen_bound [of h] by simp
  have small: "extra_hlen h < 64" using hdrlen_bound [of h] by (simp add: extra_hlen_def)
  have s: "unat (sizeof_p + ucast x) = unat sizeof_p + extra_hlen h"
    using x small hdr by (subst unat_add_no_wrap) (simp_all)
  then show "unat (ucast (sizeof_p + ucast x) :: u32) = unat sizeof_p + extra_hlen h" using small hdr by (simp add: unsigned_ucast_eq take_bit_eq_mod)
  have l: "unat (sizeof_ip_hdr + sizeof_tcp_hdr + ucast x :: u64) = 40 + extra_hlen h"
    using x small by (subst unat_add_no_wrap) (simp_all add: sizeof_defs)
  have "unat (ucast iplen - (sizeof_ip_hdr + sizeof_tcp_hdr + ucast x) :: u64) = payload_len iplen h"
    using l fit(2) by (subst unat_sub_le) (simp_all add: payload_len_def)
  then show "unat (ucast (ucast iplen - (sizeof_ip_hdr + sizeof_tcp_hdr + ucast x)) :: u32) = payload_len iplen h"
    using unat_lt_u16 [of iplen] by (simp add: unsigned_ucast_eq take_bit_eq_mod payload_len_def del: unat_lt_u16)
qed

text \<open>
  The effect of a packet on the shared state: nothing, the mark that hands the flow to the slow path, or
  a reception.
\<close>

definition packet_step :: "(nat \<Rightarrow> u8 \<Rightarrow> bool) \<Rightarrow> nat \<Rightarrow> u32 \<Rightarrow> fp_mem \<Rightarrow> fp_mem \<Rightarrow> bool" where
  "packet_step Q k fid fp fp' \<longleftrightarrow> fp' = fp \<or> fp' = rx_slowpath fp fid (fp_flowst fp fid) False \<or>
     (\<exists>r. rx_done Q k (fp_flowst fp fid) (fp_shm fp) r \<and> tx_ok (rv_fs r) \<and>
        fs_tx_len (rv_fs r) = fs_tx_len (fp_flowst fp fid) \<and> fs_tx_base (rv_fs r) = fs_tx_base (fp_flowst fp fid) \<and>
        fp' = (fs_put fp fid (rv_fs r))\<lparr>fp_shm := rv_shm r\<rparr>)"

lemma rx_notify_ok:
  assumes "length (dc_arx ctx) < BATCH_SIZE"
  shows "\<exists>a. rx_notify ctx pos r = Some (ctx\<lparr>dc_arx := a\<rparr>)"
proof (cases "rv_rx_bump r \<noteq> 0 \<or> rv_tx_bump r \<noteq> 0 \<or> rv_fin_bump r")
  case True
  then show ?thesis using assms by (auto simp: rx_notify_def arx_cache_add_def)
next
  case False
  then show ?thesis by (auto simp: rx_notify_def intro: exI [where x = "dc_arx ctx"])
qed

lemma rx_rearm_ok:
  assumes "\<exists>vs. vm_inv (dc_vqman ctx) vs" "dc_vm_ok (fs_vm_id fs)" "qman_room ctx (fs_vm_id fs) (fs_tx_len fs)" "tx_ok fs"
  shows "\<exists>t. rx_rearm ctx i old fs = Some (ctx\<lparr>dc_qman := t\<rparr>) \<and> (\<exists>vs. vm_inv (qt_vqman t) vs)"
proof (cases "tcp_txavail fs None > old")
  case True
  have "tcp_txavail fs None \<le> fs_tx_len fs" using txavail_le [of fs] tx_okD(3) [OF assms(4)] by (simp add: word_le_nat_alt)
  moreover have "fq_ok (ucast i)" using unat_lt_u16 [of i] by (simp add: FLEXNIC_NUM_QMFLOWQUEUES_def del: unat_lt_u16)
  ultimately show ?thesis using True assms(1) flow_qman_update_ok [OF _ assms(2) _ assms(3)] by (fastforce simp: rx_rearm_def)
next
  case False
  then show ?thesis using assms(1) by (auto simp: rx_rearm_def dc_vqman_def intro: exI [where x = "dc_qman ctx"])
qed

lemma packet_step_ok:
  assumes ok: "flow_ok env (fp_flowst fp fid)" and shm: "shm_ok env (fp_shm fp)" and st: "packet_step Q k fid fp fp'"
  shows "flow_ok env (fp_flowst fp' fid)" "shm_ok env (fp_shm fp')" "j \<noteq> fid \<Longrightarrow> fp_flowst fp' j = fp_flowst fp j"
    "rx_frame (fp_flowst fp fid) (fp_shm fp) (fp_shm fp')"
proof -
  have "rx_done Q k fs shm r \<Longrightarrow> rx_frame fs shm (rv_shm r)" for fs shm r by (simp add: rx_done_def)
  moreover have "rx_frame fs shm shm" for fs shm by (simp add: rx_frame_def)
  ultimately show fr: "rx_frame (fp_flowst fp fid) (fp_shm fp) (fp_shm fp')"
    using st by (auto simp: packet_step_def rx_slowpath_def fs_put_def)
  have pl: "rx_place env (fp_flowst fp fid)" "rx_ok (fp_flowst fp fid)" using ok by (simp_all add: flow_ok_def)
  show "shm_ok env (fp_shm fp')" using rx_frame_changes(1) [OF pl(1) shm pl(2) fr] shm by (simp add: shm_ok_def)
  show "flow_ok env (fp_flowst fp' fid)"
    using st flow_ok_flag [OF ok flag_masks(1)] rx_done_flow_ok [OF ok] ok
    by (auto simp: packet_step_def rx_slowpath_def fs_put_def)
  show "j \<noteq> fid \<Longrightarrow> fp_flowst fp' j = fp_flowst fp j" using st by (auto simp: packet_step_def rx_slowpath_def fs_put_def)
qed

lemma ts_opt_load_ok: "off + 10 \<le> length pm \<Longrightarrow> \<exists>t. ts_opt_load pm off = Some t"
  by (simp add: ts_opt_load_def sizeof_defs mem_simps)

lemma rx_packet_ok:
  fixes h iplen
  defines "n \<equiv> of_nat (payload_len iplen h) :: u32"
  assumes fid: "fs_ok fid" and ok: "flow_ok env (fp_flowst fp fid)" and shm: "shm_ok env (fp_shm fp)"
    and ready: "core_ready ctx (fp_flowst fp fid)"
    and fits: "pkt_fits (unat sizeof_p) iplen h pm ts_off" "unat sizeof_p \<le> 82"
    and nw: "\<not> trim_wraps (fp_flowst fp fid) (f_beui32 (tcp_seqno h)) (ucast n)"
    and data: "rx_data Q k (fp_flowst fp fid) (fp_shm fp)"
    and c: "pkt_carries Q k (fp_flowst fp fid) (f_beui32 (tcp_seqno h)) n pm (of_nat (unat sizeof_p + extra_hlen h))"
    and ack: "\<And>ctx' fs. dc_tx ctx' = dc_tx ctx \<Longrightarrow> fs_vm_id fs = fs_vm_id (fp_flowst fp fid) \<Longrightarrow>
      \<exists>nb. send_ack ctx' fs ts_off = Some (ctx'\<lparr>dc_tx := dc_tx ctx @ [nb]\<rparr>)"
  shows "\<exists>ret fp' ctx'. rx_packet env fp ctx fid sizeof_p iplen h pm (Some ts_off) sb ts send_ack = Some (ret, fp', ctx') \<and>
    packet_step Q k fid fp fp' \<and> (\<exists>vs. vm_inv (dc_vqman ctx') vs)"
proof -
  let ?fs = "fp_flowst fp fid" and ?x = "(TCPH_HDRLEN h - 5) * 4"
  have f5: "5 \<le> unat (TCPH_HDRLEN h)" "40 + extra_hlen h \<le> unat iplen" using fits(1) by (simp_all add: pkt_fits_def)
  note W = payload_words [OF f5 fits(2)]
  have off: "ucast (sizeof_p + ucast ?x) = (of_nat (unat sizeof_p + extra_hlen h) :: u32)" using W(1) by (metis of_nat_unat ucast_id)
  have pb: "ucast (ucast iplen - (sizeof_ip_hdr + sizeof_tcp_hdr + ucast ?x)) = n" unfolding n_def using W(2) by (metis of_nat_unat ucast_id)
  have n: "unat n < 65536" using W(2) unat_lt_u16 [of iplen] unfolding pb by (simp add: payload_len_def del: unat_lt_u16)
  obtain t where t: "ts_opt_load pm (unat sizeof_p + unat ts_off) = Some t"
    using ts_opt_load_ok [of "unat sizeof_p + unat ts_off" pm] fits(1) by (auto simp: pkt_fits_def)
  have F: "rx_place env ?fs" "rx_ok ?fs" "tx_ok ?fs" "dc_vm_ok (fs_vm_id ?fs)" using ok by (simp_all add: flow_ok_def)
  let ?r0 = "rx_start h n (of_nat (unat sizeof_p + extra_hlen h)) ?fs (fp_shm fp)"
  obtain r where r: "flow_rx env h pm (Some t) ts n ?r0 = Some r" and dn: "rx_done Q k ?fs (fp_shm fp) r"
    using flow_rx_ok [OF F(1) shm F(2) data n nw c] by blast
  have T: "tx_ok (rv_fs r)" "fs_tx_len (rv_fs r) = fs_tx_len ?fs" "fs_tx_base (rv_fs r) = fs_tx_base ?fs"
    using flow_rx_tx [OF _ _ r] F(3) by (simp_all add: rx_start_def)
  have vm: "fs_vm_id (rv_fs r) = fs_vm_id ?fs" using dn by (simp add: rx_done_def)
  define ctx1 where "ctx1 = (if sb then dc_charge ctx (ucast (fs_vm_id ?fs)) (uint n) else ctx)"
  have same: "dc_tx ctx1 = dc_tx ctx" "dc_arx ctx1 = dc_arx ctx" "dc_vqman ctx1 = dc_vqman ctx"
    by (simp_all add: dc_charge_def dc_vqman_def ctx1_def)
  have inv: "\<exists>vs. vm_inv (dc_vqman ctx1) vs" using ready same(3) by (simp add: core_ready_def)
  obtain a where a: "rx_notify ctx1 (fs_rx_next_pos ?fs) r = Some (ctx1\<lparr>dc_arx := a\<rparr>)"
    using rx_notify_ok [of ctx1] ready same(2) by (auto simp: core_ready_def)
  obtain q where q: "rx_rearm (ctx1\<lparr>dc_arx := a\<rparr>) (ucast fid) (tcp_txavail ?fs None) (rv_fs r) = Some (ctx1\<lparr>dc_arx := a, dc_qman := q\<rparr>)"
      and qi: "\<exists>vs. vm_inv (qt_vqman q) vs"
  proof -
    have "\<exists>vs. vm_inv (dc_vqman (ctx1\<lparr>dc_arx := a\<rparr>)) vs" "dc_vm_ok (fs_vm_id (rv_fs r))"
      "qman_room (ctx1\<lparr>dc_arx := a\<rparr>) (fs_vm_id (rv_fs r)) (fs_tx_len (rv_fs r))"
      using inv F(4) ready same(3) vm T by (simp_all add: core_ready_def qman_room_def dc_vqman_def)
    from rx_rearm_ok [OF this T(1), of "ucast fid" "tcp_txavail ?fs None"] that show thesis by auto
  qed
  let ?ctx2 = "ctx1\<lparr>dc_arx := a, dc_qman := q\<rparr>"
  obtain nb where nb: "send_ack ?ctx2 (rv_fs r) ts_off = Some (?ctx2\<lparr>dc_tx := dc_tx ctx @ [nb]\<rparr>)"
    using ack [of ?ctx2 "rv_fs r"] same(1) vm by auto
  let ?fp = "(fs_put fp fid (rv_fs r))\<lparr>fp_shm := rv_shm r\<rparr>"
  have step: "packet_step Q k fid fp ?fp" unfolding packet_step_def using dn T by blast
  have i2: "\<exists>vs. vm_inv (dc_vqman ?ctx2) vs" "\<exists>vs. vm_inv (dc_vqman (?ctx2\<lparr>dc_tx := dc_tx ctx @ [nb]\<rparr>)) vs"
    using qi by (simp_all add: dc_vqman_def)
  have get: "fs_get fp fid = Some ?fs" using fid by (simp add: fs_get_def)
  have as: "c_assert (sb \<longrightarrow> dc_vm_ok (fs_vm_id ?fs)) = Some ()" using F(4) by simp
  note unf = rx_packet_def Let_def get off pb as bind.bind_lunit ctx1_def [symmetric]
  consider "sb \<and> dc_budgets ctx1 (ucast (fs_vm_id ?fs)) \<le> 0"
    | "\<not> (sb \<and> dc_budgets ctx1 (ucast (fs_vm_id ?fs)) \<le> 0)" "fs_rx_base_sp ?fs AND FLEXNIC_PL_FLOWST_SLOWPATH \<noteq> 0 \<or> slowpath_flags h"
    | "\<not> (sb \<and> dc_budgets ctx1 (ucast (fs_vm_id ?fs)) \<le> 0)" "\<not> (fs_rx_base_sp ?fs AND FLEXNIC_PL_FLOWST_SLOWPATH \<noteq> 0)" "\<not> slowpath_flags h"
    by blast
  then show ?thesis
  proof cases
    case 1
    then show ?thesis unfolding unf using inv by (simp only: if_True if_P) (simp add: packet_step_def)
  next
    case 2
    have "packet_step Q k fid fp (rx_slowpath fp fid ?fs b)" for b by (simp add: packet_step_def rx_slowpath_def)
    then show ?thesis unfolding unf if_not_P [OF 2(1)] using inv 2(2) by auto
  next
    case 3
    show ?thesis
      unfolding unf if_not_P [OF 3(1)] if_not_P [OF 3(2)] if_not_P [OF 3(3)] t r a q
      using step i2 nb by (cases "rv_trigger_ack r") simp_all
  qed
qed

section \<open>The packet handlers\<close>

text \<open>What holds when a handler is called for a packet of flow \<open>fid\<close> whose headers have \<open>hdr\<close> bytes without TCP options.\<close>

definition packet_ready ::
  "fp_env \<Rightarrow> fp_mem \<Rightarrow> dataplane_context \<Rightarrow> u32 \<Rightarrow> nat \<Rightarrow> u16 \<Rightarrow> tcp_hdr \<Rightarrow> bytes \<Rightarrow> u16 \<Rightarrow> bool" where
  "packet_ready env fp ctx fid hdr iplen h pm ts_off \<longleftrightarrow> fs_ok fid \<and> flow_ok env (fp_flowst fp fid) \<and>
     shm_ok env (fp_shm fp) \<and> core_ready ctx (fp_flowst fp fid) \<and> pkt_fits hdr iplen h pm ts_off \<and>
     \<not> trim_wraps (fp_flowst fp fid) (f_beui32 (tcp_seqno h)) (of_nat (payload_len iplen h))"

text \<open>The payload is the part of the stream that the sequence number names.\<close>

definition packet_carries :: "(nat \<Rightarrow> u8 \<Rightarrow> bool) \<Rightarrow> nat \<Rightarrow> flextcp_pl_flowst \<Rightarrow> nat \<Rightarrow> u16 \<Rightarrow> tcp_hdr \<Rightarrow> bytes \<Rightarrow> bool" where
  "packet_carries Q k fs hdr iplen h pm \<longleftrightarrow>
     (\<forall>i < payload_len iplen h. let seq = f_beui32 (tcp_seqno h) + of_nat i in
        in_rx_window fs seq \<longrightarrow> Q (k + unat (seq - fs_rx_next_seq fs)) (pm ! (hdr + extra_hlen h + i)))"

lemma payload_len_lt: "payload_len iplen h < 65536"
  using unat_lt_u16 [of iplen] by (simp add: payload_len_def del: unat_lt_u16)

lemma packet_readyD:
  assumes "packet_ready env fp ctx fid hdr iplen h pm ts_off"
  shows "fs_ok fid" "flow_ok env (fp_flowst fp fid)" "shm_ok env (fp_shm fp)" "core_ready ctx (fp_flowst fp fid)"
    "pkt_fits hdr iplen h pm ts_off" "dc_vm_ok (fs_vm_id (fp_flowst fp fid))" "length (dc_tx ctx) < TXBUF_SIZE"
  using assms by (simp_all add: packet_ready_def flow_ok_def core_ready_def)

lemma packet_carries_pkt:
  assumes "packet_carries Q k fs hdr iplen h pm" "pkt_fits hdr iplen h pm ts_off" "hdr \<le> 82"
  shows "pkt_carries Q k fs (f_beui32 (tcp_seqno h)) (of_nat (payload_len iplen h)) pm (of_nat (hdr + extra_hlen h))"
proof -
  have n: "unat (of_nat (payload_len iplen h) :: u32) = payload_len iplen h"
    using payload_len_lt [of iplen h] by (simp add: unsigned_of_nat take_bit_eq_mod)
  have x: "extra_hlen h < 64" using hdrlen_bound [of h] by (simp add: extra_hlen_def)
  then have o: "unat (of_nat (hdr + extra_hlen h) :: u32) = hdr + extra_hlen h"
    using assms(3) by (simp del: of_nat_add add: unsigned_of_nat take_bit_eq_mod)
  have "hdr + extra_hlen h + payload_len iplen h \<le> length pm" using assms(2) by (auto simp: pkt_fits_def payload_len_def)
  then show ?thesis unfolding pkt_carries_def n o
    using assms(1,3) x payload_len_lt [of iplen h] by (simp add: packet_carries_def Let_def)
qed

lemma handler_ok:
  assumes rd: "packet_ready env fp ctx fid hdr iplen h pm ts_off" and hdr: "unat sizeof_p = hdr" "hdr \<le> 82"
    and data: "rx_data Q k (fp_flowst fp fid) (fp_shm fp)" and c: "packet_carries Q k (fp_flowst fp fid) hdr iplen h pm"
    and ack: "\<And>ctx' fs. dc_tx ctx' = dc_tx ctx \<Longrightarrow> fs_vm_id fs = fs_vm_id (fp_flowst fp fid) \<Longrightarrow>
      \<exists>nb. send_ack ctx' fs ts_off = Some (ctx'\<lparr>dc_tx := dc_tx ctx @ [nb]\<rparr>)"
  shows "\<exists>ret fp' ctx'. rx_packet env fp ctx fid sizeof_p iplen h pm (Some ts_off) sb ts send_ack = Some (ret, fp', ctx') \<and>
    packet_step Q k fid fp fp' \<and> (\<exists>vs. vm_inv (dc_vqman ctx') vs)"
proof (rule rx_packet_ok)
  note D = packet_readyD [OF rd]
  show "fs_ok fid" "flow_ok env (fp_flowst fp fid)" "shm_ok env (fp_shm fp)" "core_ready ctx (fp_flowst fp fid)"
    "pkt_fits (unat sizeof_p) iplen h pm ts_off" "unat sizeof_p \<le> 82" using D hdr by simp_all
  have "ucast (of_nat (payload_len iplen h) :: u32) = (of_nat (payload_len iplen h) :: u16)"
    using payload_len_lt [of iplen h] by (simp add: word_unat_eq_iff unsigned_ucast_eq unsigned_of_nat take_bit_eq_mod)
  then show "\<not> trim_wraps (fp_flowst fp fid) (f_beui32 (tcp_seqno h)) (ucast (of_nat (payload_len iplen h) :: u32))"
    using rd by (simp add: packet_ready_def)
  show "pkt_carries Q k (fp_flowst fp fid) (f_beui32 (tcp_seqno h)) (of_nat (payload_len iplen h)) pm
      (of_nat (unat sizeof_p + extra_hlen h))"
    using packet_carries_pkt [OF c D(5) hdr(2)] hdr(1) by simp
qed (use data ack in auto)

lemma fast_flows_packet_ok:
  assumes p: "pkt_tcp_load (nb_buf nb) (unat (nb_off nb)) = Some p"
    and rd: "packet_ready env fp ctx fid 54 (f_beui16 (ip_len (p_ip p))) (p_tcp p) (drop (unat (nb_off nb)) (nb_buf nb)) ts_off"
    and data: "rx_data Q k (fp_flowst fp fid) (fp_shm fp)"
    and c: "packet_carries Q k (fp_flowst fp fid) 54 (f_beui16 (ip_len (p_ip p))) (p_tcp p) (drop (unat (nb_off nb)) (nb_buf nb))"
  shows "\<exists>ret fp' ctx'. fast_flows_packet env fp ctx nb fid (Some ts_off) sb ts = Some (ret, fp', ctx') \<and>
    packet_step Q k fid fp fp' \<and> (\<exists>vs. vm_inv (dc_vqman ctx') vs)"
proof -
  have "54 + unat ts_off + 10 \<le> length (nb_buf nb) - unat (nb_off nb)" using packet_readyD(5) [OF rd] by (simp add: pkt_fits_def)
  then have room: "unat (nb_off nb) + 54 + unat ts_off + 10 \<le> length (nb_buf nb)" by linarith
  have ack: "\<exists>nb'. flow_tx_ack env ctx' fs (fs_tx_next_seq fs) (fs_rx_next_seq fs) (fs_rx_avail fs) (fs_tx_next_ts fs) ts nb ts_off =
      Some (ctx'\<lparr>dc_tx := dc_tx ctx @ [nb']\<rparr>)"
    if "dc_tx ctx' = dc_tx ctx" "fs_vm_id fs = fs_vm_id (fp_flowst fp fid)" for ctx' fs
  proof -
    have "dc_vm_ok (fs_vm_id fs)" "length (dc_tx ctx') < TXBUF_SIZE" using packet_readyD(6,7) [OF rd] that by simp_all
    from flow_tx_ack_ok [OF this(1) room this(2) p] that(1) show ?thesis by metis
  qed
  show ?thesis unfolding fast_flows_packet_def p bind.bind_lunit
    by (rule handler_ok [OF rd _ _ data c]) (use ack in \<open>simp_all add: sizeof_defs\<close>)
qed

lemma fast_flows_packet_gre_ok:
  assumes p: "pkt_gre_load (nb_buf nb) (unat (nb_off nb)) = Some p"
    and rd: "packet_ready env fp ctx fid 82 (f_beui16 (ip_len (g_in_ip p))) (g_tcp p) (drop (unat (nb_off nb)) (nb_buf nb)) ts_off"
    and data: "rx_data Q k (fp_flowst fp fid) (fp_shm fp)"
    and c: "packet_carries Q k (fp_flowst fp fid) 82 (f_beui16 (ip_len (g_in_ip p))) (g_tcp p) (drop (unat (nb_off nb)) (nb_buf nb))"
  shows "\<exists>ret fp' ctx'. fast_flows_packet_gre env fp ctx nb fid (Some ts_off) sb ts = Some (ret, fp', ctx') \<and>
    packet_step Q k fid fp fp' \<and> (\<exists>vs. vm_inv (dc_vqman ctx') vs)"
proof -
  have "82 + unat ts_off + 10 \<le> length (nb_buf nb) - unat (nb_off nb)" using packet_readyD(5) [OF rd] by (simp add: pkt_fits_def)
  then have room: "unat (nb_off nb) + 82 + unat ts_off + 10 \<le> length (nb_buf nb)" by linarith
  have ack: "\<exists>nb'. flow_tx_ack_gre env ctx' fs (fs_tx_next_seq fs) (fs_rx_next_seq fs) (fs_rx_avail fs) (fs_tx_next_ts fs) ts nb ts_off =
      Some (ctx'\<lparr>dc_tx := dc_tx ctx @ [nb']\<rparr>)"
    if "dc_tx ctx' = dc_tx ctx" "fs_vm_id fs = fs_vm_id (fp_flowst fp fid)" for ctx' fs
  proof -
    have "dc_vm_ok (fs_vm_id fs)" "length (dc_tx ctx') < TXBUF_SIZE" using packet_readyD(6,7) [OF rd] that by simp_all
    from flow_tx_ack_gre_ok [OF this(1) room this(2) p] that(1) show ?thesis by metis
  qed
  show ?thesis unfolding fast_flows_packet_gre_def p bind.bind_lunit
    by (rule handler_ok [OF rd _ _ data c]) (use ack in \<open>simp_all add: sizeof_defs\<close>)
qed

end
