(* ===== verification/Flow_Table.thy ===== *)
theory Flow_Table
  imports Fast_Flows
begin

text \<open>
  The flow lookup table. The slow path inserts and removes flows (\<open>src/tas/slow/nicif.c\<close>), the fast
  path looks received packets up (\<open>fast_flows_packet_fss\<close> and \<open>fast_flows_packet_fss_gre\<close> of
  \<open>src/tas/fast/fast_flows.c\<close>) and checks their headers (\<open>fast_flows_packet_parse\<close>). A flow is stored
  within four slots from the slot its hash selects; an insertion may move other flows.
\<close>

unbundle bit_operations_syntax

section \<open>Lookup in the fast path\<close>

definition HT_ENTRIES :: u32 where "HT_ENTRIES = 262144"

definition flow_hash :: "fp_env \<Rightarrow> beui32 \<Rightarrow> beui32 \<Rightarrow> beui16 \<Rightarrow> beui16 \<Rightarrow> u32" where
  "flow_hash env local_ip remote_ip local_port remote_port =
     env_crc_u32 env (ucast (raw16 local_port) OR push_bit 16 (ucast (raw16 remote_port)))
       (env_crc_u64 env (ucast (raw32 local_ip) OR push_bit 32 (ucast (raw32 remote_ip))) 0)"

definition flow_hash_gre :: "fp_env \<Rightarrow> beui32 \<Rightarrow> beui16 \<Rightarrow> beui16 \<Rightarrow> u32" where
  "flow_hash_gre env tunnel_id local_port remote_port =
     env_crc_u32 env (ucast (raw16 local_port) OR push_bit 16 (ucast (raw16 remote_port)))
       (env_crc_u32 env (raw32 tunnel_id) 0)"

definition hte_fid :: "flextcp_pl_flowhte \<Rightarrow> u32" where
  "hte_fid e = hte_flow_id e AND (push_bit FLEXNIC_PL_FLOWHTE_POSSHIFT 1 - 1)"

definition hte_valid :: "flextcp_pl_flowhte \<Rightarrow> bool" where
  "hte_valid e \<longleftrightarrow> hte_flow_id e AND FLEXNIC_PL_FLOWHTE_VALID \<noteq> 0"

text \<open>The loop over the \<open>n\<close> slots from \<open>j\<close> on; \<open>match\<close> compares a flow state with the packet.\<close>

fun fss_loop :: "fp_mem \<Rightarrow> u32 \<Rightarrow> (flextcp_pl_flowst \<Rightarrow> bool) \<Rightarrow> u32 \<Rightarrow> nat \<Rightarrow> u32 option option" where
  "fss_loop fp h match j 0 = Some None"
| "fss_loop fp h match j (Suc n) =
     (let e = fp_flowht fp ((h + j) mod HT_ENTRIES) in
      if \<not> hte_valid e \<or> hte_flow_hash e \<noteq> h then fss_loop fp h match (j + 1) n
      else do {
        fs \<leftarrow> fs_get fp (hte_fid e);
        if match fs then Some (Some (hte_fid e)) else fss_loop fp h match (j + 1) n })"

definition match_tcp :: "pkt_tcp \<Rightarrow> flextcp_pl_flowst \<Rightarrow> bool" where
  "match_tcp p fs \<longleftrightarrow> fs_out_local_ip fs = ip_dest (p_ip p) \<and> fs_out_remote_ip fs = ip_src (p_ip p) \<and>
     fs_local_port fs = tcp_dest (p_tcp p) \<and> fs_remote_port fs = tcp_src (p_tcp p)"

definition match_gre :: "pkt_gre \<Rightarrow> flextcp_pl_flowst \<Rightarrow> bool" where
  "match_gre p fs \<longleftrightarrow> fs_out_local_ip fs = ip_dest (g_out_ip p) \<and> fs_out_remote_ip fs = ip_src (g_out_ip p) \<and>
     fs_in_local_ip fs = ip_dest (g_in_ip p) \<and> fs_in_remote_ip fs = ip_src (g_in_ip p) \<and>
     fs_tunnel_id fs = gre_key (g_gre p) \<and> fs_local_port fs = tcp_dest (g_tcp p) \<and>
     fs_remote_port fs = tcp_src (g_tcp p)"

definition packet_fss :: "fp_env \<Rightarrow> fp_mem \<Rightarrow> network_buf \<Rightarrow> u32 option option" where
  "packet_fss env fp nb = do {
     p \<leftarrow> pkt_tcp_load (nb_buf nb) (unat (nb_off nb));
     let h = flow_hash env (ip_dest (p_ip p)) (ip_src (p_ip p)) (tcp_dest (p_tcp p)) (tcp_src (p_tcp p));
     fss_loop fp h (match_tcp p) 0 FLEXNIC_PL_FLOWHT_NBSZ }"

definition packet_fss_gre :: "fp_env \<Rightarrow> fp_mem \<Rightarrow> network_buf \<Rightarrow> u32 option option" where
  "packet_fss_gre env fp nb = do {
     p \<leftarrow> pkt_gre_load (nb_buf nb) (unat (nb_off nb));
     let h = flow_hash_gre env (gre_key (g_gre p)) (tcp_dest (g_tcp p)) (tcp_src (g_tcp p));
     fss_loop fp h (match_gre p) 0 FLEXNIC_PL_FLOWHT_NBSZ }"

fun fast_flows_packet_fss :: "fp_env \<Rightarrow> fp_mem \<Rightarrow> network_buf list \<Rightarrow> u32 option list option" where
  "fast_flows_packet_fss env fp [] = Some []"
| "fast_flows_packet_fss env fp (nb # nbs) = do {
     f \<leftarrow> packet_fss env fp nb;
     fss \<leftarrow> fast_flows_packet_fss env fp nbs;
     Some (f # fss) }"

fun fast_flows_packet_fss_gre :: "fp_env \<Rightarrow> fp_mem \<Rightarrow> network_buf list \<Rightarrow> u32 option list option" where
  "fast_flows_packet_fss_gre env fp [] = Some []"
| "fast_flows_packet_fss_gre env fp (nb # nbs) = do {
     f \<leftarrow> packet_fss_gre env fp nb;
     fss \<leftarrow> fast_flows_packet_fss_gre env fp nbs;
     Some (f # fss) }"

section \<open>Header checks in the fast path\<close>

text \<open>
  The conditions are combined with the operator that evaluates both operands, so the options are
  parsed in any case. A packet that fails a check loses its flow; otherwise the offset of the
  timestamp option is kept.
\<close>

definition packet_parse_tcp :: "network_buf \<Rightarrow> (bool \<times> u16 option) option" where
  "packet_parse_tcp nb = do {
     p \<leftarrow> pkt_tcp_load (nb_buf nb) (unat (nb_off nb));
     let len = nb_len nb;
     (ret, ts) \<leftarrow> tcp_parse_options p (drop (unat (nb_off nb) + unat sizeof_pkt_tcp) (nb_buf nb)) len;
     Some (ucast len < sizeof_pkt_tcp \<or> f_beui16 (eth_type (p_eth p)) \<noteq> ETH_TYPE_IP \<or>
       ip_proto (p_ip p) \<noteq> IP_PROTO_TCP \<or> IPH_V (p_ip p) \<noteq> 4 \<or> IPH_HL (p_ip p) \<noteq> 5 \<or>
       TCPH_HDRLEN (p_tcp p) < 5 \<or> ucast len < ucast (f_beui16 (ip_len (p_ip p))) + sizeof_eth_hdr \<or>
       ret \<noteq> 0 \<or> ts = None, ts) }"

definition packet_parse_gre :: "network_buf \<Rightarrow> (bool \<times> u16 option) option" where
  "packet_parse_gre nb = do {
     p \<leftarrow> pkt_gre_load (nb_buf nb) (unat (nb_off nb));
     let len = nb_len nb;
     (ret, ts) \<leftarrow> tcp_parse_options_gre p (drop (unat (nb_off nb) + unat sizeof_pkt_gre) (nb_buf nb)) len;
     Some (ucast len < sizeof_pkt_gre \<or> f_beui16 (eth_type (g_eth p)) \<noteq> ETH_TYPE_IP \<or>
       ip_proto (g_out_ip p) \<noteq> IP_PROTO_GRE \<or> ip_proto (g_in_ip p) \<noteq> IP_PROTO_TCP \<or>
       f_beui16 (gre_proto (g_gre p)) \<noteq> GRE_PROTO_IP \<or> IPH_V (g_out_ip p) \<noteq> 4 \<or> IPH_HL (g_out_ip p) \<noteq> 5 \<or>
       IPH_V (g_in_ip p) \<noteq> 4 \<or> IPH_HL (g_in_ip p) \<noteq> 5 \<or> TCPH_HDRLEN (g_tcp p) < 5 \<or>
       ucast len < ucast (f_beui16 (ip_len (g_out_ip p))) + sizeof_eth_hdr \<or> ret \<noteq> 0 \<or> ts = None, ts) }"

fun parse_loop :: "(network_buf \<Rightarrow> (bool \<times> u16 option) option) \<Rightarrow> (network_buf \<times> u32 option \<times> u16 option) list \<Rightarrow>
    (u32 option \<times> u16 option) list option" where
  "parse_loop parse [] = Some []"
| "parse_loop parse ((nb, fs, tos) # xs) = do {
     r \<leftarrow> (if fs = None then Some (None, tos)
          else do { (cond, ts) \<leftarrow> parse nb; Some (if cond then None else fs, ts) });
     rs \<leftarrow> parse_loop parse xs;
     Some (r # rs) }"

definition fast_flows_packet_parse ::
  "(network_buf \<times> u32 option \<times> u16 option) list \<Rightarrow> (u32 option \<times> u16 option) list option" where
  "fast_flows_packet_parse = parse_loop packet_parse_tcp"

definition fast_flows_packet_parse_gre ::
  "(network_buf \<times> u32 option \<times> u16 option) list \<Rightarrow> (u32 option \<times> u16 option) list option" where
  "fast_flows_packet_parse_gre = parse_loop packet_parse_gre"

section \<open>Flow identifiers in the slow path\<close>

text \<open>\<open>fi_free\<close> is the head of the free list and \<open>fi_next\<close> the field \<open>next\<close> of each \<open>flow_id_item\<close>.\<close>

record flow_ids =
  fi_free :: "u32 option"
  fi_next :: "u32 \<Rightarrow> u32 option"

fun flow_id_init_loop :: "nat \<Rightarrow> nat \<Rightarrow> u32 option \<Rightarrow> flow_ids \<Rightarrow> flow_ids" where
  "flow_id_init_loop i 0 prev s = s"
| "flow_id_init_loop i (Suc n) prev s =
     (let it = of_nat i; s = s\<lparr>fi_next := (fi_next s)(it := None)\<rparr>;
          s = (case prev of None \<Rightarrow> s\<lparr>fi_free := Some it\<rparr>
                 | Some p \<Rightarrow> s\<lparr>fi_next := (fi_next s)(p := Some it)\<rparr>)
      in flow_id_init_loop (Suc i) n (Some it) s)"

definition flow_id_alloc_init :: "flow_ids \<Rightarrow> flow_ids" where
  "flow_id_alloc_init s = flow_id_init_loop 0 FLEXNIC_PL_FLOWST_NUM None s"

definition flow_id_alloc :: "flow_ids \<Rightarrow> (u32 \<times> flow_ids) option" where
  "flow_id_alloc s = (case fi_free s of None \<Rightarrow> None | Some it \<Rightarrow> Some (it, s\<lparr>fi_free := fi_next s it\<rparr>))"

definition flow_id_free :: "flow_ids \<Rightarrow> u32 \<Rightarrow> flow_ids" where
  "flow_id_free s it = s\<lparr>fi_next := (fi_next s)(it := fi_free s), fi_free := Some it\<rparr>"

section \<open>Table slots in the slow path\<close>

definition HT_NBSZ :: u32 where "HT_NBSZ = 4"

definition hte_dist :: "flextcp_pl_flowhte \<Rightarrow> u32" where
  "hte_dist e = drop_bit FLEXNIC_PL_FLOWHTE_POSSHIFT (hte_flow_id e) AND (HT_NBSZ - 1)"

text \<open>The first invalid entry among the slots \<open>i\<close> up to \<open>l\<close>, with the number of slots passed.\<close>

partial_function (option) slot_scan :: "(u32 \<Rightarrow> flextcp_pl_flowhte) \<Rightarrow> u32 \<Rightarrow> u32 \<Rightarrow> u32 \<Rightarrow> (u32 \<times> u32) option" where
  "slot_scan ht i l d =
     (if i = l \<or> \<not> hte_valid (ht i) then Some (i, d) else slot_scan ht ((i + 1) mod HT_ENTRIES) l (d + 1))"

text \<open>The first element before slot \<open>k\<close> that can be moved to it.\<close>

partial_function (option) slot_swap :: "(u32 \<Rightarrow> flextcp_pl_flowhte) \<Rightarrow> u32 \<Rightarrow> u32 \<Rightarrow> u32 option" where
  "slot_swap ht i k =
     (if i = k then Some i
      else do {
        c_assert (hte_valid (ht i));
        if (k - i) mod HT_ENTRIES \<le> HT_NBSZ - 1 - hte_dist (ht i) then Some i
        else slot_swap ht ((i + 1) mod HT_ENTRIES) k })"

text \<open>The element keeps the distance it had at its old slot.\<close>

definition slot_move :: "(u32 \<Rightarrow> flextcp_pl_flowhte) \<Rightarrow> u32 \<Rightarrow> u32 \<Rightarrow> u32 \<Rightarrow> flextcp_pl_flowhte" where
  "slot_move ht i k =
     (let ht = ht(k := \<lparr>hte_flow_id = FLEXNIC_PL_FLOWHTE_VALID OR push_bit FLEXNIC_PL_FLOWHTE_POSSHIFT (hte_dist (ht i))
            OR hte_fid (ht i), hte_flow_hash = hte_flow_hash (ht i)\<rparr>)
      in ht(i := (ht i)\<lparr>hte_flow_id := 0\<rparr>))"

definition slot_outside :: "u32 \<Rightarrow> u32 \<Rightarrow> u32 \<Rightarrow> bool" where
  "slot_outside j l i \<longleftrightarrow> (j > l \<or> (i < j \<or> i \<ge> l)) \<and> (j < l \<or> (i \<ge> l \<and> i < j))"

text \<open>The result is \<open>None\<close> in the option if no element can be moved, else the free slot.\<close>

partial_function (option) slot_shift ::
  "(u32 \<Rightarrow> flextcp_pl_flowhte) \<Rightarrow> u32 \<Rightarrow> u32 \<Rightarrow> u32 \<Rightarrow> (u32 option \<times> (u32 \<Rightarrow> flextcp_pl_flowhte)) option" where
  "slot_shift ht j l i =
     (if \<not> slot_outside j l i then Some (Some i, ht)
      else do {
        let k = i;
        i \<leftarrow> slot_swap ht ((k - HT_NBSZ) mod HT_ENTRIES) k;
        if i = k then Some (None, ht)
        else do {
          c_assert (\<not> hte_valid (ht k));
          slot_shift (slot_move ht i k) j l i } })"

definition flow_slot_alloc ::
  "(u32 \<Rightarrow> flextcp_pl_flowhte) \<Rightarrow> u32 \<Rightarrow> ((u32 \<times> u32) option \<times> (u32 \<Rightarrow> flextcp_pl_flowhte)) option" where
  "flow_slot_alloc ht h = do {
     let j = h mod HT_ENTRIES;
     let l = (j + HT_NBSZ) mod HT_ENTRIES;
     (i, d) \<leftarrow> slot_scan ht j l 0;
     if i \<noteq> l then Some (Some (i, d), ht)
     else do {
       let k = (l + 4 * HT_NBSZ) mod HT_ENTRIES;
       (i, _) \<leftarrow> slot_scan ht i k 0;
       if i = k then Some (None, ht)
       else do {
         (r, ht) \<leftarrow> slot_shift ht j l i;
         case r of None \<Rightarrow> Some (None, ht)
         | Some i \<Rightarrow> Some (Some (i, (i - j) mod HT_ENTRIES), ht) } } }"

fun slot_clear_loop :: "(u32 \<Rightarrow> flextcp_pl_flowhte) \<Rightarrow> u32 \<Rightarrow> u32 \<Rightarrow> u32 \<Rightarrow> nat \<Rightarrow> int \<times> (u32 \<Rightarrow> flextcp_pl_flowhte)" where
  "slot_clear_loop ht h f_id j 0 = (- 1, ht)"
| "slot_clear_loop ht h f_id j (Suc n) =
     (let k = (h + j) mod HT_ENTRIES; e = ht k in
      if hte_valid e \<and> hte_flow_hash e = h \<and> hte_fid e = f_id
      then (0, ht(k := e\<lparr>hte_flow_id := hte_flow_id e AND NOT FLEXNIC_PL_FLOWHTE_VALID\<rparr>))
      else slot_clear_loop ht h f_id (j + 1) n)"

end
