(* ===== verification/Flow_Send.thy ===== *)
theory Flow_Send
  imports Flow_Packet Flow_Table
begin

text \<open>
  Transmission: the segments that the fast path builds carry the bytes of the transmit buffer that the
  abstract sender of \<open>Flow_Tx\<close> names, and the packet parser of the fast path accepts them.
\<close>

unbundle bit_operations_syntax

section \<open>Reading the transmit buffer\<close>

definition tx_buf :: "flextcp_pl_flowst \<Rightarrow> (u16 \<Rightarrow> bytes) \<Rightarrow> bytes" where
  "tx_buf fs shm = take (unat (fs_tx_len fs)) (drop (unat (fs_tx_base fs)) (shm (fs_vm_id fs)))"

definition tx_place :: "fp_env \<Rightarrow> flextcp_pl_flowst \<Rightarrow> bool" where
  "tx_place env fs \<longleftrightarrow> unat (fs_vm_id fs) \<le> FLEXNIC_PL_VMST_NUM \<and> in_shm env (fs_tx_base fs) (fs_tx_len fs) \<and>
     fs_tx_len fs \<le> 0x80000000"

lemma tx_placeD:
  assumes "tx_place env fs"
  shows "unat (fs_vm_id fs) \<le> FLEXNIC_PL_VMST_NUM"
    "unat (fs_tx_base fs) + unat (fs_tx_len fs) \<le> unat (env_vm_shm_len env)" "unat (fs_tx_len fs) \<le> 2147483648"
  using assms by (auto simp: tx_place_def in_shm_def word_le_nat_alt)

lemma length_tx_buf:
  assumes "tx_place env fs" "shm_ok env shm"
  shows "length (tx_buf fs shm) = unat (fs_tx_len fs)"
  using tx_placeD [OF assms(1)] assms(2) by (simp add: tx_buf_def shm_ok_def)

lemma flow_tx_read_ok:
  assumes pl: "tx_place env fs" and shm: "shm_ok env shm" and pos: "pos < fs_tx_len fs"
    and len: "unat len \<le> unat (fs_tx_len fs)"
  shows "flow_tx_read env shm fs pos len = Some (circ_slice (tx_buf fs shm) (unat pos) (unat len))"
proof -
  note D = tx_placeD [OF pl]
  let ?L = "unat (fs_tx_len fs)" and ?B = "unat (fs_tx_base fs)" and ?m = "shm (fs_vm_id fs)" and ?b = "tx_buf fs shm"
  have P: "unat pos < ?L" using pos by (simp add: word_less_nat_alt)
  have l16: "unat len < 65536" by simp
  have add: "unat (pos + ucast len) = unat pos + unat len"
    using P D(3) l16 by (subst unat_add_no_wrap) (simp_all del: unat_lt_u16)
  have b: "length ?b = ?L" using length_tx_buf [OF pl shm] .
  have B: "unat (fs_tx_base fs + ucast pos) = ?B + unat pos" using P D(2) by (intro unat_add_u64 [where c = "env_vm_shm_len env"]) linarith
  have L: "unat (ucast len :: u64) = unat len" by simp
  note rd = dma_read_in [OF shm D(1)]
  show ?thesis
  proof (cases "pos + ucast len \<le> fs_tx_len fs")
    case True
    then have fits: "unat pos + unat len \<le> ?L" by (simp add: word_le_nat_alt add)
    have "flow_tx_read env shm fs pos len = Some (take (unat len) (drop (?B + unat pos) ?m))"
      using True rd [of "fs_tx_base fs + ucast pos" "ucast len"] B L fits D(2) by (simp add: flow_tx_read_def)
    also have "take (unat len) (drop (?B + unat pos) ?m) = circ_slice ?b (unat pos) (unat len)"
      using fits b by (simp add: circ_slice_flat) (simp add: tx_buf_def drop_take add.commute min_def)
    finally show ?thesis .
  next
    case False
    let ?part = "fs_tx_len fs - pos"
    have over: "?L < unat pos + unat len" using False by (simp add: word_le_nat_alt add)
    have part: "unat ?part = ?L - unat pos" using P by (intro unat_sub_le) simp
    have p64: "unat (ucast ?part :: u64) = ?L - unat pos" using part by simp
    have "unat (ucast len - ?part :: u32) = unat (ucast len :: u32) - unat ?part"
      using over P part by (intro unat_sub_le) (simp add: word_le_nat_alt)
    then have r64: "unat (ucast (ucast len - ?part :: u32) :: u64) = unat len - (?L - unat pos)" using part by simp
    have r1: "dma_read env shm (fs_tx_base fs + ucast pos) (ucast ?part) (fs_vm_id fs) =
        Some (take (?L - unat pos) (drop (?B + unat pos) ?m))"
      using rd [of "fs_tx_base fs + ucast pos" "ucast ?part"] B p64 P D(2) by simp
    have r2: "dma_read env shm (fs_tx_base fs) (ucast (ucast len - ?part)) (fs_vm_id fs) =
        Some (take (unat len - (?L - unat pos)) (drop ?B ?m))"
      using rd [of "fs_tx_base fs" "ucast (ucast len - ?part)"] r64 P D(2) len by simp
    have "circ_slice ?b (unat pos) (unat len) = drop (unat pos) ?b @ take (unat len - (?L - unat pos)) ?b"
      using circ_slice_wrap [of "unat pos" ?b "unat len"] P b len over by simp
    also have "drop (unat pos) ?b = take (?L - unat pos) (drop (?B + unat pos) ?m)"
      by (simp add: tx_buf_def drop_take add.commute)
    also have "take (unat len - (?L - unat pos)) ?b = take (unat len - (?L - unat pos)) (drop ?B ?m)"
      using len by (simp add: tx_buf_def min_def)
    finally show ?thesis using False by (simp add: flow_tx_read_def Let_def r1 r2)
  qed
qed

section \<open>Segments\<close>

text \<open>
  \<open>seg_sent .. nb\<close>: the buffer holds a segment of the flow with these numbers and data, and the parser
  of the fast path accepts it and finds the timestamp option at offset 0.
\<close>

definition seg_hdr :: "flextcp_pl_flowst \<Rightarrow> u32 \<Rightarrow> u32 \<Rightarrow> u32 \<Rightarrow> bool \<Rightarrow> nat \<Rightarrow> pkt_tcp \<Rightarrow> bool" where
  "seg_hdr fs seq ack wnd fin n p \<longleftrightarrow> eth_dest (p_eth p) = fs_remote_mac fs \<and>
     ip_src (p_ip p) = fs_out_local_ip fs \<and> ip_dest (p_ip p) = fs_out_remote_ip fs \<and>
     unat (f_beui16 (ip_len (p_ip p))) = 52 + n \<and>
     tcp_src (p_tcp p) = fs_local_port fs \<and> tcp_dest (p_tcp p) = fs_remote_port fs \<and>
     f_beui32 (tcp_seqno (p_tcp p)) = seq \<and> f_beui32 (tcp_ackno (p_tcp p)) = ack \<and>
     unat (f_beui16 (tcp_wnd (p_tcp p))) = min 65535 (unat wnd) \<and>
     has_tcp (TCPH_FLAGS (p_tcp p)) TAS_TCP_ACK \<and> (has_tcp (TCPH_FLAGS (p_tcp p)) TAS_TCP_FIN \<longleftrightarrow> fin) \<and>
     TCPH_HDRLEN (p_tcp p) = 8"

definition seg_sent :: "flextcp_pl_flowst \<Rightarrow> u32 \<Rightarrow> u32 \<Rightarrow> u32 \<Rightarrow> bool \<Rightarrow> bytes \<Rightarrow> network_buf \<Rightarrow> bool" where
  "seg_sent fs seq ack wnd fin data nb \<longleftrightarrow> nb_off nb = 0 \<and> unat (nb_len nb) = 66 + length data \<and>
     take (length data) (drop 66 (nb_buf nb)) = data \<and> packet_parse_tcp nb = Some (False, Some 0) \<and>
     (\<exists>p. pkt_tcp_load (nb_buf nb) 0 = Some p \<and> seg_hdr fs seq ack wnd fin (length data) p)"

lemma length_seg_opts [simp]: "length (seg_opts a b) = 12"
  by (simp add: seg_opts_def seg_optlen_def sizeof_defs mem_splice_def ts_opt_store_def)

lemma seg_opts_bytes:
  "\<exists>r. length r = 8 \<and> seg_opts a b = TCP_OPT_TIMESTAMP # 10 # r @ [0, 0]"
proof -
  have "seg_opts a b = TCP_OPT_TIMESTAMP # 10 # (be32_store (t_beui32 a) @ be32_store (t_beui32 b)) @ [0, 0]"
    by (simp add: seg_opts_def seg_optlen_def sizeof_defs mem_splice_def ts_opt_store_def) (simp add: numeral_2_eq_2)
  then show ?thesis by (intro exI [where x = "be32_store (t_beui32 a) @ be32_store (t_beui32 b)"]) simp
qed

lemma parse_seg_opts: "parse_options_loop (seg_opts a b @ data) 12 0 None = Some (0, Some 0)"
proof -
  obtain r where r: "length r = 8" "seg_opts a b = TCP_OPT_TIMESTAMP # 10 # r @ [0, 0]" using seg_opts_bytes by blast
  let ?o = "seg_opts a b @ data"
  have n: "?o ! 0 = TCP_OPT_TIMESTAMP" "?o ! Suc 0 = 10" "?o ! 10 = 0" "length ?o \<ge> 12"
    using r by (simp_all add: nth_append numeral_eq_Suc)
  have "parse_options_loop ?o 12 10 (Some 0) = Some (0, Some 0)"
    using n by (subst parse_options_loop.simps) (simp add: TCP_OPT_END_OF_OPTIONS_def)
  then show ?thesis using n
    by (subst parse_options_loop.simps)
      (simp add: Let_def TCP_OPT_TIMESTAMP_def TCP_OPT_END_OF_OPTIONS_def TCP_OPT_NO_OP_def sizeof_defs)
qed

lemma seg_flags_small: "unat (seg_flags fin ece) < 2 ^ 12"
  by (cases fin; cases ece) (simp_all add: seg_flags_def pkt_consts)

lemma seg_flags_bits:
  "has_tcp (seg_flags fin ece AND TAS_TCP_FLAGS) TAS_TCP_ACK"
  "has_tcp (seg_flags fin ece AND TAS_TCP_FLAGS) TAS_TCP_FIN \<longleftrightarrow> fin"
  by (cases fin; cases ece; simp add: seg_flags_def has_tcp_def pkt_consts)+

lemma seg_tcp_fields:
  "TCPH_HDRLEN (seg_tcp fs seq ack wnd (seg_flags fin ece)) = 8"
  "TCPH_FLAGS (seg_tcp fs seq ack wnd (seg_flags fin ece)) = seg_flags fin ece AND TAS_TCP_FLAGS"
  using seg_flags_small [of fin ece] by (simp_all add: seg_tcp_def seg_optlen_def sizeof_defs)

lemma chksum_keep:
  "TCPH_HDRLEN (h\<lparr>tcp_chksum := c\<rparr>) = TCPH_HDRLEN h" "TCPH_FLAGS (h\<lparr>tcp_chksum := c\<rparr>) = TCPH_FLAGS h"
  by (simp_all add: TCPH_HDRLEN_def TCPH_FLAGS_def)

lemma unat_min_wnd: "unat (ucast (min 0xFFFF (w::u32)) :: u16) = min 65535 (unat w)"
proof -
  have m: "unat (min 0xFFFF w) = min 65535 (unat w)" by (simp add: min_def word_le_nat_alt)
  then have "unat (min 0xFFFF w) < 65536" by simp
  then show ?thesis using m by (simp add: unsigned_ucast_eq take_bit_eq_mod)
qed

lemma seg_hdrI:
  assumes p: "p_eth p = seg_eth env fs" "p_ip p = (seg_ecn fs (seg_ip len IP_PROTO_TCP (fs_out_local_ip fs) (fs_out_remote_ip fs)))\<lparr>ip_chksum := c\<rparr>"
    "p_tcp p = (seg_tcp fs seq ack wnd (seg_flags fin ece))\<lparr>tcp_chksum := d\<rparr>" and len: "unat len = 52 + n"
  shows "seg_hdr fs seq ack wnd fin n p" "f_beui16 (eth_type (p_eth p)) = ETH_TYPE_IP" "ip_proto (p_ip p) = IP_PROTO_TCP"
    "IPH_V (p_ip p) = 4" "IPH_HL (p_ip p) = 5"
proof -
  have ip: "ip_src (p_ip p) = fs_out_local_ip fs" "ip_dest (p_ip p) = fs_out_remote_ip fs" "ip_len (p_ip p) = t_beui16 len"
    "ip_proto (p_ip p) = IP_PROTO_TCP" "ip_v_hl (p_ip p) = 0x45"
    by (simp_all add: p seg_ecn_def seg_ip_def IPH_ECN_SET_def IPH_VHL_SET_def)
  have tcp: "tcp_src (p_tcp p) = fs_local_port fs" "tcp_dest (p_tcp p) = fs_remote_port fs" "tcp_seqno (p_tcp p) = t_beui32 seq"
    "tcp_ackno (p_tcp p) = t_beui32 ack" "tcp_wnd (p_tcp p) = t_beui16 (ucast (min 0xFFFF wnd))"
    by (simp_all add: p seg_tcp_def TCPH_HDRLEN_FLAGS_SET_def)
  show "seg_hdr fs seq ack wnd fin n p"
    unfolding seg_hdr_def using ip tcp len seg_flags_bits [of fin ece] unat_min_wnd [of wnd]
    by (simp add: p chksum_keep seg_tcp_fields) (simp add: seg_eth_def)
  show "f_beui16 (eth_type (p_eth p)) = ETH_TYPE_IP" by (simp add: p seg_eth_def)
  show "ip_proto (p_ip p) = IP_PROTO_TCP" by (rule ip(4))
  show "IPH_V (p_ip p) = 4" "IPH_HL (p_ip p) = 5" by (simp_all add: IPH_V_def IPH_HL_def ip(5))
qed

lemma flow_tx_segment_ok:
  assumes vm: "dc_vm_ok (fs_vm_id fs)" and tx: "length (dc_tx ctx) < TXBUF_SIZE"
    and data: "seg_payload env shm fs pos n = Some data" "length data = unat n" and n: "unat n \<le> 1400"
    and room: "66 + unat n \<le> length (nb_buf nb)"
  shows "\<exists>nb'. flow_tx_segment env shm ctx nb fs seq ack wnd n pos ts_echo ts_my fin = Some (ctx\<lparr>dc_tx := dc_tx ctx @ [nb']\<rparr>) \<and>
    nb_id nb' = nb_id nb \<and> seg_sent fs seq ack wnd fin data nb'"
proof -
  obtain e where e: "signals_ece env ctx fs = Some e" using signals_ece_Some [OF vm] by blast
  define hl :: u16 where "hl = ucast sizeof_pkt_tcp + seg_optlen"
  have hl: "hl = 66" by (simp add: hl_def seg_optlen_def sizeof_defs)
  define q where "q = \<lparr>p_eth = seg_eth env fs,
       p_ip = seg_ecn fs (seg_ip (hl - 14 + n) IP_PROTO_TCP (fs_out_local_ip fs) (fs_out_remote_ip fs)),
       p_tcp = seg_tcp fs seq ack wnd (seg_flags fin e)\<rparr>"
  define rest where "rest = seg_opts ts_my ts_echo @ data"
  obtain p nb1 where c: "tcp_checksums env nb q rest (fs_out_local_ip fs) (fs_out_remote_ip fs) (hl - 34 + n) = (p, nb1)"
    by force
  note K = tcp_checksums_keep [OF c]
  define b where "b = mem_splice (nb_buf nb) 0 (pkt_tcp_store p @ rest)"
  have w: "network_buf_write nb1 0 (pkt_tcp_store p @ rest) = Some (nb1\<lparr>nb_buf := b\<rparr>)"
    using K(1) room data(2) by (simp add: network_buf_write_ok b_def rest_def)
  define nb' where "nb' = network_buf_setlen (network_buf_setoff (nb1\<lparr>nb_buf := b\<rparr>) 0) (hl + n)"
  have seg: "flow_tx_segment env shm ctx nb fs seq ack wnd n pos ts_echo ts_my fin = Some (ctx\<lparr>dc_tx := dc_tx ctx @ [nb']\<rparr>)"
    unfolding flow_tx_segment_def Let_def e data(1) bind.bind_lunit hl_def [symmetric] q_def [symmetric] rest_def [symmetric] c prod.case w
    using tx by (simp add: tx_send_def nb'_def)
  have nb': "nb_off nb' = 0" "nb_len nb' = 66 + n" "nb_buf nb' = b" "nb_id nb' = nb_id nb"
    using K(3) by (simp_all add: nb'_def network_buf_setlen_def network_buf_setoff_def hl)
  have l: "unat (66 + n) = 66 + unat n" "unat (hl - 14 + n) = 52 + unat n"
    using n by (simp_all add: hl unat_add_no_wrap)
  have b: "b = pkt_tcp_store p @ rest @ drop (66 + length data) (nb_buf nb)"
    by (simp add: b_def mem_splice_def rest_def)
  then have ld: "pkt_tcp_load b 0 = Some p" using pkt_tcp_load_store [of "[]"] by simp
  have H: "seg_hdr fs seq ack wnd fin (length data) p" "f_beui16 (eth_type (p_eth p)) = ETH_TYPE_IP" "ip_proto (p_ip p) = IP_PROTO_TCP"
    "IPH_V (p_ip p) = 4" "IPH_HL (p_ip p) = 5"
    by (rule seg_hdrI [where len = "hl - 14 + n" and ece = e and c = "ip_chksum (p_ip p)" and d = "tcp_chksum (p_tcp p)"];
        use K(4,5,6) l data(2) in \<open>simp add: q_def\<close>)+
  have hlen: "TCPH_HDRLEN (p_tcp p) = 8" "unat (f_beui16 (ip_len (p_ip p))) = 52 + unat n" using H(1) data(2) by (simp_all add: seg_hdr_def)
  have parse: "tcp_parse_options p (drop 54 b) (66 + n) = Some (0, Some 0)"
    using parse_seg_opts [of ts_my ts_echo "data @ drop (66 + length data) (nb_buf nb)"] hlen(1) l n
    by (simp add: tcp_parse_options_def tcp_parse_options_hdr_def b rest_def sizeof_defs word_less_nat_alt unsigned_ucast_eq take_bit_eq_mod unat_sub_le)
  have "packet_parse_tcp nb' = Some (False, Some 0)"
    unfolding packet_parse_tcp_def nb' using parse ld H hlen l n
    by (simp add: sizeof_defs word_less_nat_alt unat_add_no_wrap)
  moreover have "take (length data) (drop 66 b) = data" by (simp add: b rest_def)
  ultimately have "seg_sent fs seq ack wnd fin data nb'"
    unfolding seg_sent_def nb' using ld H(1) l data(2) by simp
  then show ?thesis using seg nb'(4) by blast
qed

section \<open>The queue manager selects a flow\<close>

lemma tx_abs_next:
  assumes "tx_ok fs"
  shows "fs_tx_next_seq fs = sn_una (tx_abs fs) + of_nat (sn_sent (tx_abs fs))"
    "unat (fs_tx_next_pos fs) = (sn_pos (tx_abs fs) + sn_sent (tx_abs fs)) mod unat (fs_tx_len fs)"
proof -
  note D = tx_okD [OF assms]
  show "fs_tx_next_seq fs = sn_una (tx_abs fs) + of_nat (sn_sent (tx_abs fs))" by (simp add: tx_abs_def)
  have "unat (fs_tx_next_pos fs) + unat (fs_tx_len fs) - unat (fs_tx_sent fs) + unat (fs_tx_sent fs) = unat (fs_tx_next_pos fs) + unat (fs_tx_len fs)"
    using D by linarith
  then show "unat (fs_tx_next_pos fs) = (sn_pos (tx_abs fs) + sn_sent (tx_abs fs)) mod unat (fs_tx_len fs)"
    using D(2) by (simp add: tx_abs_def mod_add_left_eq)
qed

text \<open>The bytes that the sender has in the transmit buffer from the \<open>i\<close>-th unacknowledged one on.\<close>

definition sn_bytes :: "flextcp_pl_flowst \<Rightarrow> (u16 \<Rightarrow> bytes) \<Rightarrow> nat \<Rightarrow> nat \<Rightarrow> bytes" where
  "sn_bytes fs shm i n = circ_slice (tx_buf fs shm) (sn_pos (tx_abs fs) + i) n"

lemma seg_payload_ok:
  assumes pl: "tx_place env fs" and shm: "shm_ok env shm" and ok: "tx_ok fs" and n: "unat n \<le> unat (fs_tx_len fs)"
  shows "seg_payload env shm fs (fs_tx_next_pos fs) n = Some (sn_bytes fs shm (sn_sent (tx_abs fs)) (unat n))"
proof -
  have "circ_slice (tx_buf fs shm) (unat (fs_tx_next_pos fs)) (unat n) = sn_bytes fs shm (sn_sent (tx_abs fs)) (unat n)"
    unfolding sn_bytes_def tx_abs_next(2) [OF ok] length_tx_buf [OF pl shm, symmetric] by (rule circ_slice_mod)
  moreover have "fs_tx_next_pos fs < fs_tx_len fs" using ok by (simp add: tx_ok_def)
  ultimately show ?thesis
    using flow_tx_read_ok [OF pl shm _ n] by (auto simp: seg_payload_def word_greater_zero_iff sn_bytes_def circ_slice_def)
qed

lemma advance_same:
  "rx_same fs (qman_advance fs n)" "fs_tx_len (qman_advance fs n) = fs_tx_len fs" "fs_tx_base (qman_advance fs n) = fs_tx_base fs"
  "fs_rx_next_seq (qman_advance fs n) = fs_rx_next_seq fs" "seg_sent (qman_advance fs n) = seg_sent fs"
  by (simp_all add: qman_advance_def Let_def rx_same_def seg_sent_def seg_hdr_def fun_eq_iff)

text \<open>A segment of the flow can be built: it is well formed and the core has room for one packet.\<close>

definition send_ready :: "fp_env \<Rightarrow> fp_mem \<Rightarrow> dataplane_context \<Rightarrow> u32 \<Rightarrow> network_buf \<Rightarrow> bool" where
  "send_ready env fp ctx fid nb \<longleftrightarrow> fs_ok fid \<and> flow_ok env (fp_flowst fp fid) \<and> tx_place env (fp_flowst fp fid) \<and>
     shm_ok env (fp_shm fp) \<and> length (dc_tx ctx) < TXBUF_SIZE \<and> 1466 \<le> length (nb_buf nb)"

lemma send_readyD:
  assumes "send_ready env fp ctx fid nb"
  shows "fs_ok fid" "flow_ok env (fp_flowst fp fid)" "tx_place env (fp_flowst fp fid)" "shm_ok env (fp_shm fp)"
    "length (dc_tx ctx) < TXBUF_SIZE" "1466 \<le> length (nb_buf nb)" "tx_ok (fp_flowst fp fid)" "dc_vm_ok (fs_vm_id (fp_flowst fp fid))"
    "fs_get fp fid = Some (fp_flowst fp fid)"
  using assms by (simp_all add: send_ready_def flow_ok_def fs_get_def)

lemma qman_send_len:
  fixes fs n
  defines "n \<equiv> min (tcp_txavail fs None) TCP_MSS"
  assumes ok: "tx_ok fs" and av: "tcp_txavail fs None \<noteq> 0"
  shows "0 < n" "unat n \<le> 1400" "unat n \<le> unat (fs_tx_avail fs)" "unat n \<le> unat (fs_tx_len fs)"
proof -
  show "0 < n" using av by (simp add: n_def TCP_MSS_def word_greater_zero_iff min_def)
  have le: "n \<le> TCP_MSS" "n \<le> fs_tx_avail fs" unfolding n_def using txavail_le [of fs] by (auto intro: min.coboundedI1)
  from le(1) show "unat n \<le> 1400" by (simp add: TCP_MSS_def word_le_nat_alt)
  from le(2) show "unat n \<le> unat (fs_tx_avail fs)" by (simp add: word_le_nat_alt)
  with tx_okD(3) [OF ok] show "unat n \<le> unat (fs_tx_len fs)" by linarith
qed

lemma fast_flows_qman_ok:
  fixes fp fid
  defines "fs \<equiv> fp_flowst fp fid"
  defines "n \<equiv> min (tcp_txavail fs None) TCP_MSS"
  defines "fin \<equiv> has_flag (fs_rx_base_sp fs) FLEXNIC_PL_FLOWST_TXFIN \<and> n = fs_tx_avail fs"
  assumes rd: "send_ready env fp ctx fid nb" and grp: "unat (fs_flow_group fs) < FLEXNIC_PL_MAX_FLOWGROUPS"
    and core: "ucast (fp_steering fp (fs_flow_group fs)) = dc_id ctx" and av: "tcp_txavail fs None \<noteq> 0"
  shows "\<exists>nb'. fast_flows_qman env fp ctx vm_id fid nb ts =
      Some (0, fs_put fp fid (qman_advance fs n), ctx\<lparr>dc_tx := dc_tx ctx @ [nb']\<rparr>) \<and> nb_id nb' = nb_id nb \<and>
    seg_sent fs (sn_una (tx_abs fs) + of_nat (sn_sent (tx_abs fs))) (fs_rx_next_seq fs) (fs_rx_avail fs) fin
      (sn_bytes fs (fp_shm fp) (sn_sent (tx_abs fs)) (unat n - (if fin then 1 else 0))) nb' \<and>
    tx_ok (qman_advance fs n) \<and> tx_abs (qman_advance fs n) = sn_send (unat n) (tx_abs fs)"
proof -
  note D = send_readyD [OF rd, folded fs_def]
  note N = qman_send_len [OF D(7) av, folded n_def]
  let ?fs' = "qman_advance fs n" and ?m = "ucast (if fin then n - 1 else n) :: u16"
  obtain p where p: "?fs' = fs\<lparr>fs_tx_next_seq := fs_tx_next_seq fs + n, fs_tx_next_pos := p,
      fs_tx_sent := fs_tx_sent fs + n, fs_tx_avail := fs_tx_avail fs - n\<rparr>"
    by (rule advance_fields [OF D(7) N(3)])
  have a0: "(fs_tx_avail ?fs' = 0) = (n = fs_tx_avail fs)" by (auto simp: p)
  have fin: "(has_flag (fs_rx_base_sp ?fs') FLEXNIC_PL_FLOWST_TXFIN \<and> fs_tx_avail ?fs' = 0) = fin"
    unfolding fin_def a0 using advance_same(1) [of fs n] by (simp add: rx_same_def)
  have "unat (n - 1) = unat n - 1" using unat_sub_le [of 1 n] N(1) by (simp add: word_less_nat_alt)
  then have m: "unat ?m = unat n - (if fin then 1 else 0)"
    using N(2) by (simp add: unsigned_ucast_eq take_bit_eq_mod)
  have pay': "seg_payload env (fp_shm fp) fs (fs_tx_next_pos fs) ?m = Some (sn_bytes fs (fp_shm fp) (sn_sent (tx_abs fs)) (unat ?m))"
    using seg_payload_ok [OF D(3,4,7)] m N(4) by simp
  have "seg_payload env shm ?fs' x y = seg_payload env shm fs x y" for shm x y
    by (simp only: p) (simp add: seg_payload_def flow_tx_read_def)
  then have pay: "seg_payload env (fp_shm fp) ?fs' (fs_tx_next_pos fs) ?m = Some (sn_bytes fs (fp_shm fp) (sn_sent (tx_abs fs)) (unat ?m))"
    using pay' by simp
  have vm': "dc_vm_ok (fs_vm_id ?fs')" using D(8) by (simp add: p)
  have "66 + unat ?m \<le> length (nb_buf nb)" "unat ?m \<le> 1400" using D(6) m N(2) by (auto split: if_splits)
  from flow_tx_segment_ok [OF vm' D(5) pay _ this(2,1), of "fs_tx_next_seq fs" "fs_rx_next_seq fs" "fs_rx_avail fs" "fs_tx_next_ts ?fs'" ts fin]
  obtain nb' where nb': "flow_tx_segment env (fp_shm fp) ctx nb ?fs' (fs_tx_next_seq fs) (fs_rx_next_seq fs) (fs_rx_avail fs)
        ?m (fs_tx_next_pos fs) (fs_tx_next_ts ?fs') ts fin = Some (ctx\<lparr>dc_tx := dc_tx ctx @ [nb']\<rparr>)" "nb_id nb' = nb_id nb"
      "seg_sent ?fs' (fs_tx_next_seq fs) (fs_rx_next_seq fs) (fs_rx_avail fs) fin
        (sn_bytes fs (fp_shm fp) (sn_sent (tx_abs fs)) (unat ?m)) nb'"
    by (auto simp: sn_bytes_def)
  have as: "c_assert (unat (fs_flow_group fs) < FLEXNIC_PL_MAX_FLOWGROUPS) = Some ()" "c_assert (fin \<longrightarrow> 0 < n) = Some ()"
    using grp N(1) by simp_all
  have nc: "\<not> ucast (fp_steering fp (fs_flow_group fs)) \<noteq> dc_id ctx" using core by simp
  have "fast_flows_qman env fp ctx vm_id fid nb ts = Some (0, fs_put fp fid ?fs', ctx\<lparr>dc_tx := dc_tx ctx @ [nb']\<rparr>)"
    unfolding fast_flows_qman_def Let_def D(9) [folded fs_def] bind.bind_lunit as(1) if_not_P [OF nc] if_not_P [OF av] n_def [symmetric] fin as(2)
      nb'(1) ..
  then show ?thesis using nb' tx_advance [OF D(7) N(3)] m advance_same(5) [of fs n] tx_abs_next(1) [OF D(7)] by auto
qed

end
