(* ===== verification/Flow_Bump.thy ===== *)
theory Flow_Bump
  imports Flow_Send
begin

text \<open>
  The operations that applications and the slow path trigger: \<open>fast_flows_bump\<close>, by which an application hands over
  data and frees received data, and \<open>fast_flows_retransmit\<close>.
\<close>

unbundle bit_operations_syntax

section \<open>Retransmission\<close>

lemma fast_flows_retransmit_ok:
  fixes fp fid
  defines "fs \<equiv> fp_flowst fp fid"
  assumes fid: "fs_ok fid" and ok: "flow_ok env fs" and rd: "core_ready ctx fs"
  shows "\<exists>fs' ctx'. fast_flows_retransmit fp ctx fid = Some (fs_put fp fid fs', ctx') \<and> rx_same fs fs' \<and> tx_ok fs' \<and>
    fs_tx_len fs' = fs_tx_len fs \<and> fs_tx_base fs' = fs_tx_base fs \<and> tx_abs fs' = sn_rewind (tx_abs fs) \<and> dc_tx ctx' = dc_tx ctx \<and> (\<exists>vs. vm_inv (dc_vqman ctx') vs)"
proof -
  have F: "tx_ok fs" "dc_vm_ok (fs_vm_id fs)" using ok by (simp_all add: flow_ok_def)
  have get: "fs_get fp fid = Some fs" using fid by (simp add: fs_get_def fs_def)
  define ctx1 where "ctx1 = dc_charge ctx (ucast (fs_vm_id fs)) 1"
  have c1: "dc_vqman ctx1 = dc_vqman ctx" "dc_tx ctx1 = dc_tx ctx" by (simp_all add: ctx1_def dc_charge_def dc_vqman_def)
  have as: "c_assert (dc_vm_ok (fs_vm_id fs)) = Some ()" using F(2) by simp
  note unf = fast_flows_retransmit_def Let_def get as bind.bind_lunit ctx1_def [symmetric]
  show ?thesis
  proof (cases "fs_tx_sent fs = 0")
    case True
    then have "fast_flows_retransmit fp ctx fid = Some (fp, ctx1)" unfolding unf by simp
    moreover have "fs_put fp fid fs = fp" by (simp add: fs_put_def fs_def)
    moreover have "sn_rewind (tx_abs fs) = tx_abs fs" using True by (simp add: sn_rewind_def tx_abs_def)
    ultimately show ?thesis using c1 rd F by (intro exI [where x = fs] exI [where x = ctx1]) (simp add: core_ready_def)
  next
    case False
    let ?fs = "flow_reset_retransmit fs"
    note R = tx_rewind [OF F(1)] reset_retransmit_same [of fs]
    have l: "fs_tx_len ?fs = fs_tx_len fs" "fs_tx_base ?fs = fs_tx_base fs" by (simp_all add: flow_reset_retransmit_def Let_def)
    have v: "fs_vm_id ?fs = fs_vm_id fs" using R(3) by (simp add: rx_same_def)
    have av: "tcp_txavail ?fs None \<le> fs_tx_len ?fs" using txavail_le [of ?fs] tx_okD(3) [OF R(1)] by (simp add: word_le_nat_alt)
    have fq: "fq_ok fid" using fid by (simp add: fs_ok_def FLEXNIC_PL_FLOWST_NUM_def FLEXNIC_NUM_QMFLOWQUEUES_def)
    obtain vs where vs: "vm_inv (dc_vqman ctx1) vs" and room: "qman_room ctx1 (fs_vm_id ?fs) (fs_tx_len ?fs)"
      using rd c1 l v by (auto simp: core_ready_def qman_room_def)
    obtain t vs' where t: "flow_qman_update ctx1 (ucast (fs_vm_id ?fs)) fid (fs_tx_rate ?fs) (tcp_txavail ?fs None) (ucast TCP_MSS) =
        Some (ctx1\<lparr>dc_qman := t\<rparr>)" "vm_inv (qt_vqman t) vs'"
      using flow_qman_update_ok [OF vs _ fq room av] F(2) v by metis
    obtain ctx' where c: "(if tcp_txavail ?fs None > tcp_txavail fs None
         then flow_qman_update ctx1 (ucast (fs_vm_id ?fs)) fid (fs_tx_rate ?fs) (tcp_txavail ?fs None) (ucast TCP_MSS)
         else Some ctx1) = Some ctx'" "dc_tx ctx' = dc_tx ctx" "\<exists>vs. vm_inv (dc_vqman ctx') vs"
      using t vs c1 by (cases "tcp_txavail ?fs None > tcp_txavail fs None") (auto simp: dc_vqman_def)
    have "fast_flows_retransmit fp ctx fid = Some (fs_put fp fid ?fs, ctx')"
      unfolding unf if_not_P [OF False] c(1) ..
    then show ?thesis using R c l by blast
  qed
qed

section \<open>Bumps\<close>

text \<open>The state after an accepted bump. The receive buffer must not be smaller than the transmit buffer:
  \<open>bump_too_large\<close> compares the new free space of the receive buffer with the length of the transmit buffer.\<close>

definition bumped :: "flextcp_pl_flowst \<Rightarrow> u16 \<Rightarrow> u32 \<Rightarrow> u32 \<Rightarrow> bool \<Rightarrow> flextcp_pl_flowst" where
  "bumped fs seq rx tx fin = fs\<lparr>fs_bump_seq := seq,
     fs_rx_base_sp := (if fin then fs_rx_base_sp fs OR FLEXNIC_PL_FLOWST_TXFIN else fs_rx_base_sp fs),
     fs_tx_avail := fs_tx_avail fs + tx, fs_rx_avail := fs_rx_avail fs + rx\<rparr>"

definition bufs_ok :: "flextcp_pl_flowst \<Rightarrow> bool" where
  "bufs_ok fs \<longleftrightarrow> fs_tx_len fs \<le> fs_rx_len fs \<and> fs_rx_len fs < 0x80000000"

lemma bump_sizes:
  assumes ok: "flow_ok env fs" and b: "bufs_ok fs" and s: "\<not> bump_too_large fs rx tx"
  shows "unat (fs_tx_avail fs + tx) = unat (fs_tx_avail fs) + unat tx"
    "sn_total (tx_abs fs) + unat tx \<le> unat (fs_tx_len fs)"
    "unat (fs_rx_avail fs + rx) = unat (fs_rx_avail fs) + unat rx" "unat (fs_rx_avail fs) + unat rx \<le> unat (fs_rx_len fs)"
proof -
  have F: "tx_ok fs" "rx_ok fs" using ok by (simp_all add: flow_ok_def)
  have L: "unat (fs_tx_len fs) \<le> unat (fs_rx_len fs)" "unat (fs_rx_len fs) < 2147483648"
    using b by (simp_all add: bufs_ok_def word_le_nat_alt word_less_nat_alt)
  note T = tx_okD [OF F(1)] and R = rx_okD [OF F(2)]
  have le: "unat tx \<le> unat (fs_tx_len fs)" "unat rx \<le> unat (fs_rx_len fs)"
    using s by (simp_all add: bump_too_large_def Let_def word_le_nat_alt not_less)
  show t: "unat (fs_tx_avail fs + tx) = unat (fs_tx_avail fs) + unat tx" using le L T by (intro unat_add_no_wrap) simp
  show r: "unat (fs_rx_avail fs + rx) = unat (fs_rx_avail fs) + unat rx" using le L R by (intro unat_add_no_wrap) simp
  have t2: "unat (fs_tx_avail fs + tx + fs_tx_sent fs) = unat (fs_tx_avail fs) + unat tx + unat (fs_tx_sent fs)"
    using t le L T by (subst unat_add_no_wrap) simp_all
  show "sn_total (tx_abs fs) + unat tx \<le> unat (fs_tx_len fs)"
    using s t2 by (simp add: bump_too_large_def Let_def word_le_nat_alt not_less tx_abs_def)
  show "unat (fs_rx_avail fs) + unat rx \<le> unat (fs_rx_len fs)"
    using s r L(1) by (simp add: bump_too_large_def Let_def word_le_nat_alt not_less add.commute)
qed

lemma rx_base_txfin: "(if fin then x OR FLEXNIC_PL_FLOWST_TXFIN else x) AND FLEXNIC_PL_FLOWST_RX_MASK = x AND FLEXNIC_PL_FLOWST_RX_MASK"
  using rx_mask_or [OF flag_masks(2), of x] by simp

lemma bumped_ok:
  assumes ok: "flow_ok env fs" and b: "bufs_ok fs" and s: "\<not> bump_too_large fs rx tx"
  shows "flow_ok env (bumped fs seq rx tx fin)" "tx_abs (bumped fs seq rx tx fin) = sn_append (unat tx) (tx_abs fs)"
proof -
  note S = bump_sizes [OF assms]
  have o: "rx_ooo_off (bumped fs seq rx tx fin) = rx_ooo_off fs" by (simp add: bumped_def rx_ooo_off_def)
  have "rx_place env (bumped fs seq rx tx fin)" "dc_vm_ok (fs_vm_id (bumped fs seq rx tx fin))"
    using ok by (simp_all add: flow_ok_def rx_place_def bumped_def rx_base_txfin)
  moreover have "rx_ok (bumped fs seq rx tx fin)"
    using ok S o by (auto simp: flow_ok_def rx_ok_def word_le_nat_alt) (simp_all add: bumped_def word_le_nat_alt)
  moreover have "tx_ok (bumped fs seq rx tx fin)"
    using ok S(1,2) by (auto simp: flow_ok_def tx_ok_def bumped_def tx_abs_def)
  ultimately show "flow_ok env (bumped fs seq rx tx fin)" by (simp add: flow_ok_def)
  show "tx_abs (bumped fs seq rx tx fin) = sn_append (unat tx) (tx_abs fs)"
    using S(1) by (simp add: bumped_def tx_abs_def sn_append_def)
qed

text \<open>The three outcomes: too old, refused, or accepted. After a FIN no more data is taken from the application.\<close>

definition bump_tx :: "flextcp_pl_flowst \<Rightarrow> u32 \<Rightarrow> u32" where
  "bump_tx fs tx = (if has_flag (fs_rx_base_sp fs) FLEXNIC_PL_FLOWST_TXFIN then 0 else tx)"

definition bump_refused :: "flextcp_pl_flowst \<Rightarrow> u32 \<Rightarrow> u32 \<Rightarrow> u8 \<Rightarrow> bool" where
  "bump_refused fs rx tx flags \<longleftrightarrow> bump_too_large fs rx (bump_tx fs tx) \<or>
     (flags AND FLEXTCP_PL_ATX_FLTXDONE = FLEXTCP_PL_ATX_FLTXDONE \<and>
      fs_rx_base_sp fs AND FLEXNIC_PL_FLOWST_TXFIN = 0 \<and> tx = 0)"

definition bump_fin :: "flextcp_pl_flowst \<Rightarrow> u8 \<Rightarrow> bool" where
  "bump_fin fs flags \<longleftrightarrow> flags AND FLEXTCP_PL_ATX_FLTXDONE = FLEXTCP_PL_ATX_FLTXDONE \<and>
     fs_rx_base_sp fs AND FLEXNIC_PL_FLOWST_TXFIN = 0"

definition bump_state :: "flextcp_pl_flowst \<Rightarrow> u16 \<Rightarrow> u32 \<Rightarrow> u32 \<Rightarrow> u8 \<Rightarrow> flextcp_pl_flowst" where
  "bump_state fs seq rx tx flags =
     (if bump_out_of_order seq (fs_bump_seq fs) then fs
      else if bump_refused fs rx tx flags then fs\<lparr>fs_bump_seq := seq\<rparr>
      else bumped fs seq rx (bump_tx fs tx) (bump_fin fs flags))"

lemma bump_state_ok:
  assumes "flow_ok env fs" "bufs_ok fs"
  shows "flow_ok env (bump_state fs seq rx tx flags)"
proof -
  have "flow_ok env (fs\<lparr>fs_bump_seq := seq\<rparr>)"
    using assms(1) by (simp add: flow_ok_def rx_place_def rx_ok_def rx_ooo_off_def tx_ok_def)
  then show ?thesis using assms(1) bumped_ok [OF assms, of rx "bump_tx fs tx"] by (simp add: bump_state_def bump_refused_def)
qed

lemma bump_window_update:
  assumes rd: "send_ready env fp ctx fid nb" and c: "dc_tx ctx' = dc_tx ctx" and vm: "fs_vm_id fs = fs_vm_id (fp_flowst fp fid)"
  shows "\<exists>nb'. flow_tx_segment env (fp_shm fp) ctx' nb fs seq ack wnd 0 0 echo ts False = Some (ctx'\<lparr>dc_tx := dc_tx ctx @ [nb']\<rparr>) \<and>
    nb_id nb' = nb_id nb \<and> seg_sent fs seq ack wnd False [] nb'"
proof -
  note D = send_readyD [OF rd]
  have "dc_vm_ok (fs_vm_id fs)" "length (dc_tx ctx') < TXBUF_SIZE" using D c vm by simp_all
  from flow_tx_segment_ok [OF this, of env "fp_shm fp" 0 0 "[]" nb] show ?thesis using D(6) c by (simp add: seg_payload_def)
qed

lemma bump_rearm:
  assumes rd: "core_ready ctx fs" and fid: "fs_ok fid" and vm: "dc_vm_ok (fs_vm_id fs)" and le: "avail \<le> fs_tx_len fs"
  shows "\<exists>ctx'. (if b then flow_qman_update ctx (ucast (fs_vm_id fs)) fid rate avail chunk else Some ctx) = Some ctx' \<and>
    dc_tx ctx' = dc_tx ctx \<and> (\<exists>vs. vm_inv (dc_vqman ctx') vs)"
proof (cases b)
  case True
  have fq: "fq_ok fid" using fid by (simp add: fs_ok_def FLEXNIC_PL_FLOWST_NUM_def FLEXNIC_NUM_QMFLOWQUEUES_def)
  obtain vs where "vm_inv (dc_vqman ctx) vs" "qman_room ctx (fs_vm_id fs) (fs_tx_len fs)" using rd by (auto simp: core_ready_def)
  from flow_qman_update_ok [OF this(1) vm fq this(2) le] obtain t vs' where
    "flow_qman_update ctx (ucast (fs_vm_id fs)) fid rate avail chunk = Some (ctx\<lparr>dc_qman := t\<rparr>)" "vm_inv (qt_vqman t) vs'" by metis
  then show ?thesis using True by (auto simp: dc_vqman_def)
next
  case False
  then show ?thesis using rd by (simp add: core_ready_def)
qed

lemma fast_flows_bump_ok:
  fixes fp fid
  defines "fs \<equiv> fp_flowst fp fid"
  assumes rd: "send_ready env fp ctx fid nb" and core: "core_ready ctx fs" and b: "bufs_ok fs"
  shows "\<exists>ret ctx'. fast_flows_bump env fp ctx fid seq rx tx flags nb ts =
      Some (ret, fs_put fp fid (bump_state fs seq rx tx flags), ctx') \<and> (\<exists>vs. vm_inv (dc_vqman ctx') vs)"
proof -
  note D = send_readyD [OF rd, folded fs_def]
  have inv: "\<exists>vs. vm_inv (dc_vqman ctx) vs" using core by (simp add: core_ready_def)
  let ?fs = "fs\<lparr>fs_bump_seq := seq\<rparr>" and ?tx = "bump_tx fs tx" and ?fin = "bump_fin fs flags"
  have put: "fs_put fp fid fs = fp" by (simp add: fs_put_def fs_def)
  have tx: "(if has_flag (fs_rx_base_sp ?fs) FLEXNIC_PL_FLOWST_TXFIN \<and> tx \<noteq> 0 then 0 else tx) = ?tx" by (simp add: bump_tx_def)
  have sel: "fs_rx_base_sp ?fs = fs_rx_base_sp fs" "fs_tx_avail ?fs = fs_tx_avail fs" "fs_rx_avail ?fs = fs_rx_avail fs"
      "fs_vm_id ?fs = fs_vm_id fs" by simp_all
  let ?stop = "\<not> (has_flag (fs_rx_base_sp fs) FLEXNIC_PL_FLOWST_TXFIN \<and> tx \<noteq> 0) \<and>
    flags AND FLEXTCP_PL_ATX_FLTXDONE = FLEXTCP_PL_ATX_FLTXDONE \<and> fs_rx_base_sp fs AND FLEXNIC_PL_FLOWST_TXFIN = 0 \<and> tx = 0"
  note unf = fast_flows_bump_def Let_def D(9) bind.bind_lunit sel
  consider "bump_out_of_order seq (fs_bump_seq fs)"
    | "\<not> bump_out_of_order seq (fs_bump_seq fs)" "bump_refused fs rx tx flags" "?stop"
    | "\<not> bump_out_of_order seq (fs_bump_seq fs)" "bump_refused fs rx tx flags" "\<not> ?stop" "bump_too_large ?fs rx ?tx"
    | "\<not> bump_out_of_order seq (fs_bump_seq fs)" "\<not> bump_refused fs rx tx flags" "\<not> ?stop" "\<not> bump_too_large ?fs rx ?tx"
    by (auto simp: bump_refused_def bump_too_large_def)
  then show ?thesis
  proof cases
    case 1
    then show ?thesis unfolding unf using inv put by (simp add: bump_state_def)
  next
    case 2
    show ?thesis unfolding unf if_not_P [OF 2(1)] if_P [OF 2(3)] bump_state_def if_P [OF 2(2)] using inv by simp
  next
    case 3
    show ?thesis unfolding unf if_not_P [OF 3(1)] if_not_P [OF 3(3)] tx [unfolded sel] if_P [OF 3(4)] bump_state_def if_P [OF 3(2)]
      using inv by simp
  next
    case 4
    define fs1 where "fs1 = (if flags AND FLEXTCP_PL_ATX_FLTXDONE = FLEXTCP_PL_ATX_FLTXDONE \<and> fs_rx_base_sp fs AND FLEXNIC_PL_FLOWST_TXFIN = 0
      then ?fs\<lparr>fs_rx_base_sp := fs_rx_base_sp fs OR FLEXNIC_PL_FLOWST_TXFIN\<rparr> else ?fs)"
    let ?fs2 = "fs1\<lparr>fs_tx_avail := fs_tx_avail fs + ?tx, fs_rx_avail := fs_rx_avail fs1 + rx\<rparr>"
    have f1: "fs_vm_id fs1 = fs_vm_id fs" "fs_tx_len fs1 = fs_tx_len fs" by (simp_all add: fs1_def)
    have fs2: "?fs2 = bumped fs seq rx ?tx ?fin" by (simp add: fs1_def bumped_def bump_fin_def)
    let ?new = "tcp_txavail ?fs (Some (fs_tx_avail fs + ?tx))"
    have "\<not> bump_too_large fs rx ?tx" using 4(4) by (simp add: bump_too_large_def)
    then have "fs_tx_avail fs + ?tx \<le> fs_tx_len fs1" using f1(2) by (simp add: bump_too_large_def Let_def not_less)
    then have le: "?new \<le> fs_tx_len fs1" by (simp add: tcp_txavail_def Let_def min.coboundedI1)
    have rd1: "core_ready ctx fs1" using core f1 by (simp add: core_ready_def)
    obtain ctx1 where c1: "(if tcp_txavail ?fs None < ?new
        then flow_qman_update ctx (ucast (fs_vm_id fs1)) fid (fs_tx_rate fs1) ?new (ucast TCP_MSS) else Some ctx) = Some ctx1"
      "dc_tx ctx1 = dc_tx ctx" "\<exists>vs. vm_inv (dc_vqman ctx1) vs"
      using bump_rearm [OF rd1 D(1) _ le] D(8) f1(1) by metis
    have "fs_vm_id ?fs2 = fs_vm_id (fp_flowst fp fid)" using f1(1) by (simp add: fs_def)
    from bump_window_update [OF rd c1(2) this] obtain nb' where
      "flow_tx_segment env (fp_shm fp) ctx1 nb ?fs2 (fs_tx_next_seq ?fs2) (fs_rx_next_seq ?fs2) (fs_rx_avail ?fs2) 0 0 (fs_tx_next_ts ?fs2) ts False =
        Some (ctx1\<lparr>dc_tx := dc_tx ctx @ [nb']\<rparr>)" by blast
    moreover have "\<exists>vs. vm_inv (dc_vqman (ctx1\<lparr>dc_tx := dc_tx ctx @ [nb']\<rparr>)) vs" using c1(3) by (simp add: dc_vqman_def)
    ultimately show ?thesis
      unfolding unf if_not_P [OF 4(1)] if_not_P [OF 4(3)] tx [unfolded sel] if_not_P [OF 4(4)] bump_state_def if_not_P [OF 4(2)]
        fs1_def [symmetric] c1(1) fs2
      using c1(3) by (auto split: if_split)
  qed
qed

end
