(* ===== verification/Flow_Run.thy ===== *)
theory Flow_Run
  imports Flow_Bump
begin

text \<open>
  Runs of a flow: any interleaving of received packets, bumps of the application, transmission,
  retransmission and changes elsewhere. What the application finds in the part of its receive buffer that
  it was told about is the stream of the peer.
\<close>

unbundle bit_operations_syntax

section \<open>Steps\<close>

text \<open>
  A state is the shared memory and the number \<open>k\<close> of bytes delivered so far. A packet carries bytes of the stream
  \<open>S\<close>; it may come late, twice or out of order. The premises of the rules say that the core has room for
  its work, and what the packet is; the state of the flow is not restricted.
\<close>

abbreviation (input) stream_is :: "(nat \<Rightarrow> u8) \<Rightarrow> nat \<Rightarrow> u8 \<Rightarrow> bool" where
  "stream_is S i b \<equiv> b = S i"

definition packet_comes ::
  "(nat \<Rightarrow> u8) \<Rightarrow> nat \<Rightarrow> dataplane_context \<Rightarrow> flextcp_pl_flowst \<Rightarrow> nat \<Rightarrow> u16 \<Rightarrow> tcp_hdr \<Rightarrow> bytes \<Rightarrow> u16 \<Rightarrow> bool" where
  "packet_comes S k ctx fs hdr iplen h pm ts_off \<longleftrightarrow> core_ready ctx fs \<and> pkt_fits hdr iplen h pm ts_off \<and>
     \<not> trim_wraps fs (f_beui32 (tcp_seqno h)) (of_nat (payload_len iplen h)) \<and>
     packet_carries (stream_is S) k fs hdr iplen h pm"

inductive flow_step :: "fp_env \<Rightarrow> u32 \<Rightarrow> (nat \<Rightarrow> u8) \<Rightarrow> fp_mem \<times> nat \<Rightarrow> fp_mem \<times> nat \<Rightarrow> bool" for env fid S where
  packet: "pkt_tcp_load (nb_buf nb) (unat (nb_off nb)) = Some p \<Longrightarrow>
    packet_comes S k ctx (fp_flowst fp fid) 54 (f_beui16 (ip_len (p_ip p))) (p_tcp p) (drop (unat (nb_off nb)) (nb_buf nb)) ts_off \<Longrightarrow>
    fast_flows_packet env fp ctx nb fid (Some ts_off) sb ts = Some (ret, fp', ctx') \<Longrightarrow>
    flow_step env fid S (fp, k) (fp', k + unat (fs_rx_avail (fp_flowst fp fid) - fs_rx_avail (fp_flowst fp' fid)))"
| packet_gre: "pkt_gre_load (nb_buf nb) (unat (nb_off nb)) = Some g \<Longrightarrow>
    packet_comes S k ctx (fp_flowst fp fid) 82 (f_beui16 (ip_len (g_in_ip g))) (g_tcp g) (drop (unat (nb_off nb)) (nb_buf nb)) ts_off \<Longrightarrow>
    fast_flows_packet_gre env fp ctx nb fid (Some ts_off) sb ts = Some (ret, fp', ctx') \<Longrightarrow>
    flow_step env fid S (fp, k) (fp', k + unat (fs_rx_avail (fp_flowst fp fid) - fs_rx_avail (fp_flowst fp' fid)))"
| bump: "core_ready ctx (fp_flowst fp fid) \<Longrightarrow> 1466 \<le> length (nb_buf nb) \<Longrightarrow>
    fast_flows_bump env fp ctx fid seq rx tx flags nb ts = Some (ret, fp', ctx') \<Longrightarrow> flow_step env fid S (fp, k) (fp', k)"
| qman: "fast_flows_qman env fp ctx vm_id fid nb ts = Some (ret, fp', ctx') \<Longrightarrow> flow_step env fid S (fp, k) (fp', k)"
| retransmit: "core_ready ctx (fp_flowst fp fid) \<Longrightarrow> fast_flows_retransmit fp ctx fid = Some (fp', ctx') \<Longrightarrow>
    flow_step env fid S (fp, k) (fp', k)"
| elsewhere: "fp_flowst fp' fid = fp_flowst fp fid \<Longrightarrow> \<forall>v. length (fp_shm fp' v) = length (fp_shm fp v) \<Longrightarrow>
    rx_buf (fp_flowst fp fid) (fp_shm fp') = rx_buf (fp_flowst fp fid) (fp_shm fp) \<Longrightarrow> flow_step env fid S (fp, k) (fp', k)"

inductive flow_run :: "fp_env \<Rightarrow> u32 \<Rightarrow> (nat \<Rightarrow> u8) \<Rightarrow> fp_mem \<times> nat \<Rightarrow> fp_mem \<times> nat \<Rightarrow> bool" for env fid S x where
  start: "flow_run env fid S x x"
| step: "flow_run env fid S x y \<Longrightarrow> flow_step env fid S y z \<Longrightarrow> flow_run env fid S x z"

section \<open>The invariant\<close>

text \<open>The bytes delivered and not yet freed are the last \<open>unread fs\<close> ones before the next position.\<close>

definition unread :: "flextcp_pl_flowst \<Rightarrow> nat" where
  "unread fs = unat (fs_rx_len fs) - unat (fs_rx_avail fs)"

definition conn_ok :: "fp_env \<Rightarrow> flextcp_pl_flowst \<Rightarrow> (u16 \<Rightarrow> bytes) \<Rightarrow> bool" where
  "conn_ok env fs shm \<longleftrightarrow> flow_ok env fs \<and> tx_place env fs \<and> bufs_ok fs \<and> shm_ok env shm"

definition stream_inv :: "fp_env \<Rightarrow> (nat \<Rightarrow> u8) \<Rightarrow> nat \<Rightarrow> u32 \<Rightarrow> nat \<Rightarrow> flextcp_pl_flowst \<Rightarrow> (u16 \<Rightarrow> bytes) \<Rightarrow> bool" where
  "stream_inv env S p0 isn k fs shm \<longleftrightarrow> conn_ok env fs shm \<and> rx_data (stream_is S) k fs shm \<and>
     unat (fs_rx_next_pos fs) = (p0 + k) mod unat (fs_rx_len fs) \<and> unread fs \<le> k \<and>
     fs_rx_next_seq fs = isn + of_nat k + (if rxfin fs then 1 else 0) \<and>
     (\<forall>j < unread fs. rx_at fs shm (unat (fs_rx_avail fs) + j) = S (k - unread fs + j))"

definition flow_inv :: "fp_env \<Rightarrow> u32 \<Rightarrow> (nat \<Rightarrow> u8) \<Rightarrow> nat \<Rightarrow> u32 \<Rightarrow> fp_mem \<times> nat \<Rightarrow> bool" where
  "flow_inv env fid S p0 isn x \<longleftrightarrow> stream_inv env S p0 isn (snd x) (fp_flowst (fst x) fid) (fp_shm (fst x))"

lemma stream_inv_same:
  assumes inv: "stream_inv env S p0 isn k fs shm" and same: "rx_same fs fs'" and tx: "tx_ok fs'"
    "fs_tx_len fs' = fs_tx_len fs" "fs_tx_base fs' = fs_tx_base fs"
  shows "stream_inv env S p0 isn k fs' shm"
proof -
  note C = rx_same_cong [OF same]
  have e: "unread fs' = unread fs" "rxfin fs' = rxfin fs" "fs_rx_next_pos fs' = fs_rx_next_pos fs" "fs_rx_len fs' = fs_rx_len fs"
    "fs_rx_next_seq fs' = fs_rx_next_seq fs" "fs_rx_avail fs' = fs_rx_avail fs" "fs_vm_id fs' = fs_vm_id fs"
    using same by (simp_all add: rx_same_def unread_def rxfin_def)
  show ?thesis using inv tx C e
    by (simp add: stream_inv_def conn_ok_def flow_ok_def bufs_ok_def tx_place_def)
qed

lemma stream_inv_shm:
  assumes "stream_inv env S p0 isn k fs shm" "shm_ok env shm'" "rx_buf fs shm' = rx_buf fs shm"
  shows "stream_inv env S p0 isn k fs shm'"
proof -
  have "rx_at fs shm' = rx_at fs shm" using assms(3) by (simp add: rx_at_def fun_eq_iff)
  then show ?thesis using assms(1,2) by (simp add: stream_inv_def conn_ok_def rx_data_def)
qed

lemma rxfin_or: "f AND FLEXNIC_PL_FLOWST_RXFIN = 0 \<Longrightarrow> rxfin (fs\<lparr>fs_rx_base_sp := fs_rx_base_sp fs OR f\<rparr>) = rxfin fs"
  by (simp add: rxfin_def bit.conj_disj_distrib2)

lemma stream_inv_flag:
  assumes inv: "stream_inv env S p0 isn k fs shm" and f: "f AND FLEXNIC_PL_FLOWST_RX_MASK = 0" "f AND FLEXNIC_PL_FLOWST_RXFIN = 0"
  shows "stream_inv env S p0 isn k (fs\<lparr>fs_rx_base_sp := fs_rx_base_sp fs OR f\<rparr>) shm"
proof -
  let ?fs = "fs\<lparr>fs_rx_base_sp := fs_rx_base_sp fs OR f\<rparr>"
  have "flow_ok env ?fs" using inv flow_ok_flag [OF _ f(1)] by (simp add: stream_inv_def conn_ok_def)
  moreover have "rx_at ?fs = rx_at fs" by (simp add: rx_at_def rx_buf_def rx_mask_or [OF f(1)] fun_eq_iff)
  moreover have "unread ?fs = unread fs" "rx_ooo_off ?fs = rx_ooo_off fs" by (simp_all add: unread_def rx_ooo_off_def)
  ultimately show ?thesis using inv rxfin_or [OF f(2), of fs]
    by (simp add: stream_inv_def conn_ok_def rx_data_def tx_place_def bufs_ok_def)
qed

text \<open>A reception moves the bytes at the begin of the free space to the end of the unread part.\<close>

lemma rx_done_at:
  assumes dn: "rx_done Q k fs shm r"
  shows "rx_at (rv_fs r) (rv_shm r) i = rx_at fs (rv_shm r) (unat (rv_rx_bump r) + i)"
proof -
  have "unat (fs_rx_next_pos (rv_fs r)) = (unat (fs_rx_next_pos fs) + unat (rv_rx_bump r)) mod unat (fs_rx_len fs)"
    "rx_buf (rv_fs r) = rx_buf fs" "fs_rx_len (rv_fs r) = fs_rx_len fs"
    using dn by (simp_all add: rx_done_def rx_buf_def fun_eq_iff)
  then show ?thesis by (simp add: rx_at_def mod_add_left_eq add.assoc)
qed

lemma rx_frame_unread:
  assumes pl: "rx_place env fs" and shm: "shm_ok env shm" and ok: "rx_ok fs" and fr: "rx_frame fs shm shm'"
    and i: "unat (fs_rx_avail fs) \<le> i" "i < unat (fs_rx_len fs)"
  shows "rx_at fs shm' i = rx_at fs shm i"
proof -
  consider "shm' = shm" | d data where "d + length data \<le> unat (fs_rx_avail fs)" "d < unat (fs_rx_len fs)" "shm' = rx_put fs shm d data"
    using fr by (auto simp: rx_frame_def)
  then show ?thesis
  proof cases
    case (2 d data)
    have "d + length data \<le> unat (fs_rx_len fs)" using 2(1) i by linarith
    then show ?thesis using rx_at_put [OF pl shm _ _ i(2) 2(2), of data] 2 i by simp
  qed simp
qed

lemma stream_inv_done:
  assumes inv: "stream_inv env S p0 isn k fs shm" and dn: "rx_done (stream_is S) k fs shm r" and tx: "tx_ok (rv_fs r)"
    "fs_tx_len (rv_fs r) = fs_tx_len fs" "fs_tx_base (rv_fs r) = fs_tx_base fs" and shm': "shm_ok env (rv_shm r)"
  shows "stream_inv env S p0 isn (k + unat (rv_rx_bump r)) (rv_fs r) (rv_shm r)"
    "fs_rx_avail fs - fs_rx_avail (rv_fs r) = rv_rx_bump r"
proof -
  let ?b = "unat (rv_rx_bump r)" and ?A = "unat (fs_rx_avail fs)" and ?L = "unat (fs_rx_len fs)"
  have I: "flow_ok env fs" "tx_place env fs" "bufs_ok fs" "shm_ok env shm" "unat (fs_rx_next_pos fs) = (p0 + k) mod ?L"
    "unread fs \<le> k" "fs_rx_next_seq fs = isn + of_nat k + (if rxfin fs then 1 else 0)"
    "\<And>j. j < unread fs \<Longrightarrow> rx_at fs shm (?A + j) = S (k - unread fs + j)"
    using inv by (simp_all add: stream_inv_def conn_ok_def)
  have F: "rx_place env fs" "rx_ok fs" using I(1) by (simp_all add: flow_ok_def)
  have R: "fs_rx_len (rv_fs r) = fs_rx_len fs" "?b \<le> ?A" "fs_rx_avail (rv_fs r) = fs_rx_avail fs - rv_rx_bump r"
    "rx_data (stream_is S) (k + ?b) (rv_fs r) (rv_shm r)" "rx_frame fs shm (rv_shm r)" "fs_vm_id (rv_fs r) = fs_vm_id fs"
    "unat (fs_rx_next_pos (rv_fs r)) = rx_pos_after fs (rv_rx_bump r)"
    "fs_rx_next_seq (rv_fs r) = fs_rx_next_seq fs + rv_rx_bump r + (if rv_fin_bump r then 1 else 0)"
    "\<And>i. i < ?b \<Longrightarrow> rx_at fs (rv_shm r) i = S (k + i)"
    using dn by (simp_all add: rx_done_def)
  have fin: "rxfin fs \<Longrightarrow> rv_rx_bump r = 0 \<and> \<not> rv_fin_bump r" "rxfin (rv_fs r) = (rxfin fs \<or> rv_fin_bump r)"
    using dn by (auto simp: rx_done_def)
  have av: "unat (fs_rx_avail (rv_fs r)) = ?A - ?b" unfolding R(3) using R(2) by (rule unat_sub_le)
  have AL: "?A \<le> ?L" using rx_okD [OF F(2)] by simp
  have u: "unread (rv_fs r) = unread fs + ?b" unfolding unread_def av R(1) using AL R(2) by simp
  have "rx_at (rv_fs r) (rv_shm r) (unat (fs_rx_avail (rv_fs r)) + j) = S (k + ?b - unread (rv_fs r) + j)" if j: "j < unread (rv_fs r)" for j
  proof -
    have e: "rx_at (rv_fs r) (rv_shm r) (unat (fs_rx_avail (rv_fs r)) + j) = rx_at fs (rv_shm r) (?A + j)"
      unfolding rx_done_at [OF dn] av using R(2) by simp
    show ?thesis
    proof (cases "j < unread fs")
      case True
      then have "rx_at fs (rv_shm r) (?A + j) = rx_at fs shm (?A + j)"
        by (intro rx_frame_unread [OF F(1) I(4) F(2) R(5)]) (simp_all add: unread_def)
      then show ?thesis using e I(8) [OF True] u by simp
    next
      case False
      have "rx_at fs (rv_shm r) (?A + j) = rx_at fs (rv_shm r) (j - unread fs)"
      proof -
        have "unat (fs_rx_next_pos fs) + (?A + j) = unat (fs_rx_next_pos fs) + (j - unread fs) + ?L"
          using False AL by (simp add: unread_def)
        then show ?thesis by (simp only: rx_at_def mod_add_self2)
      qed
      moreover have "j - unread fs < ?b" using j u False by linarith
      ultimately show ?thesis using e R(9) [of "j - unread fs"] u False I(6) by simp
    qed
  qed
  moreover have "unat (fs_rx_next_pos (rv_fs r)) = (p0 + (k + ?b)) mod ?L"
    using R(7) I(5) by (simp add: mod_add_left_eq add.assoc)
  moreover have "fs_rx_next_seq (rv_fs r) = isn + of_nat (k + ?b) + (if rxfin (rv_fs r) then 1 else 0)"
    using R(8) I(7) fin by (cases "rxfin fs") auto
  moreover have "flow_ok env (rv_fs r)" by (rule rx_done_flow_ok [OF I(1) dn tx(1)])
  ultimately show "stream_inv env S p0 isn (k + ?b) (rv_fs r) (rv_shm r)"
    using I(2,3,6) R(1,4,6) tx(2,3) u shm' by (simp add: stream_inv_def conn_ok_def tx_place_def bufs_ok_def)
  show "fs_rx_avail fs - fs_rx_avail (rv_fs r) = rv_rx_bump r" by (simp add: R(3))
qed

lemma slowpath_masks: "FLEXNIC_PL_FLOWST_SLOWPATH AND FLEXNIC_PL_FLOWST_RXFIN = 0" "FLEXNIC_PL_FLOWST_TXFIN AND FLEXNIC_PL_FLOWST_RXFIN = 0"
  by (simp_all add: flowst_flags)

lemma packet_step_inv:
  assumes inv: "stream_inv env S p0 isn k (fp_flowst fp fid) (fp_shm fp)" and st: "packet_step (stream_is S) k fid fp fp'"
  shows "stream_inv env S p0 isn (k + unat (fs_rx_avail (fp_flowst fp fid) - fs_rx_avail (fp_flowst fp' fid)))
    (fp_flowst fp' fid) (fp_shm fp')"
proof -
  let ?fs = "fp_flowst fp fid"
  have ok: "flow_ok env ?fs" "shm_ok env (fp_shm fp)" using inv by (simp_all add: stream_inv_def conn_ok_def)
  note P = packet_step_ok [OF ok st]
  consider "fp' = fp" | "fp' = rx_slowpath fp fid ?fs False"
    | r where "rx_done (stream_is S) k ?fs (fp_shm fp) r" "tx_ok (rv_fs r)" "fs_tx_len (rv_fs r) = fs_tx_len ?fs"
        "fs_tx_base (rv_fs r) = fs_tx_base ?fs" "fp' = (fs_put fp fid (rv_fs r))\<lparr>fp_shm := rv_shm r\<rparr>"
    using st by (auto simp: packet_step_def)
  then show ?thesis
  proof cases
    case 1
    then show ?thesis using inv by simp
  next
    case 2
    then show ?thesis using stream_inv_flag [OF inv flag_masks(1) slowpath_masks(1)] by (simp add: rx_slowpath_def fs_put_def)
  next
    case (3 r)
    have "shm_ok env (rv_shm r)" using P(2) 3(5) by simp
    from stream_inv_done [OF inv 3(1-4) this] show ?thesis using 3(5) by (simp add: fs_put_def)
  qed
qed

lemma packet_comes_ready:
  assumes "stream_inv env S p0 isn k (fp_flowst fp fid) (fp_shm fp)" "fs_ok fid"
    "packet_comes S k ctx (fp_flowst fp fid) hdr iplen h pm ts_off"
  shows "packet_ready env fp ctx fid hdr iplen h pm ts_off" "rx_data (stream_is S) k (fp_flowst fp fid) (fp_shm fp)"
    "packet_carries (stream_is S) k (fp_flowst fp fid) hdr iplen h pm"
  using assms by (simp_all add: stream_inv_def conn_ok_def packet_comes_def packet_ready_def)

lemma unread_bumped:
  assumes "unat (fs_rx_avail fs + rx) = unat (fs_rx_avail fs) + unat rx"
  shows "unread (bumped fs seq rx tx fin) = unread fs - unat rx"
  using assms by (simp add: unread_def bumped_def)

lemma bump_inv:
  assumes inv: "stream_inv env S p0 isn k fs shm"
  shows "stream_inv env S p0 isn k (bump_state fs seq rx tx flags) shm"
proof -
  have I: "flow_ok env fs" "bufs_ok fs" "tx_place env fs" using inv by (simp_all add: stream_inv_def conn_ok_def)
  let ?tx = "bump_tx fs tx" and ?fin = "bump_fin fs flags"
  have s: "stream_inv env S p0 isn k (fs\<lparr>fs_bump_seq := seq\<rparr>) shm"
    by (rule stream_inv_same [OF inv]) (use I(1) in \<open>simp_all add: rx_same_def flow_ok_def tx_ok_def\<close>)
  moreover have "stream_inv env S p0 isn k (bumped fs seq rx ?tx ?fin) shm" if nb: "\<not> bump_too_large fs rx ?tx"
  proof -
    let ?fs = "bumped fs seq rx ?tx ?fin"
    note B = bump_sizes [OF I(1,2) nb] bumped_ok [OF I(1,2) nb]
    have u: "unread ?fs = unread fs - unat rx" by (rule unread_bumped [OF B(3)])
    have sel: "rx_at ?fs = rx_at fs" "rx_ooo_off ?fs = rx_ooo_off fs" "fs_rx_len ?fs = fs_rx_len fs" "fs_rx_ooo_len ?fs = fs_rx_ooo_len fs"
      "fs_rx_next_pos ?fs = fs_rx_next_pos fs" "fs_rx_next_seq ?fs = fs_rx_next_seq fs" "fs_rx_avail ?fs = fs_rx_avail fs + rx"
      "rxfin ?fs = rxfin fs" "tx_place env ?fs = tx_place env fs" "bufs_ok ?fs = bufs_ok fs"
      using rxfin_or [OF slowpath_masks(2), of fs]
      by (simp_all add: bumped_def rx_at_def rx_buf_def rx_base_txfin rx_ooo_off_def rxfin_def tx_place_def bufs_ok_def fun_eq_iff)
    have j: "rx_at fs shm (unat (fs_rx_avail fs) + unat rx + j) = S (k - unread ?fs + j)" if "j < unread ?fs" for j
    proof -
      have "unat rx + j < unread fs" using that u by linarith
      then have "rx_at fs shm (unat (fs_rx_avail fs) + (unat rx + j)) = S (k - unread fs + (unat rx + j))"
        using inv by (simp add: stream_inv_def)
      moreover have "k - unread fs + (unat rx + j) = k - unread ?fs + j" using u that inv by (simp add: stream_inv_def)
      ultimately show ?thesis by (simp add: add.assoc)
    qed
    have "unread fs \<le> k" using inv by (simp add: stream_inv_def)
    then have "unread ?fs \<le> k" using u by linarith
    then show ?thesis using inv B(3) B(5) sel j by (simp add: stream_inv_def conn_ok_def rx_data_def)
  qed
  ultimately show ?thesis using inv by (simp add: bump_state_def bump_refused_def)
qed

lemma qman_effect:
  assumes ok: "tx_ok (fp_flowst fp fid)" and q: "fast_flows_qman env fp ctx vm_id fid nb ts = Some (ret, fp', ctx')"
  shows "fp_shm fp' = fp_shm fp \<and> (fp_flowst fp' = fp_flowst fp \<or>
    (\<exists>n. unat n \<le> unat (fs_tx_avail (fp_flowst fp fid)) \<and> fp_flowst fp' = (fp_flowst fp)(fid := qman_advance (fp_flowst fp fid) n)))"
proof -
  have get: "fs_get fp fid = Some (fp_flowst fp fid)" using q by (cases "fs_get fp fid") (auto simp: fast_flows_qman_def fs_get_def split: if_splits)
  consider c where "qman_forward env fp ctx vm_id fid c = Some (ret, fp', ctx')" | "fp' = fp"
    | "tcp_txavail (fp_flowst fp fid) None \<noteq> 0"
        "fp' = fs_put fp fid (qman_advance (fp_flowst fp fid) (min (tcp_txavail (fp_flowst fp fid) None) TCP_MSS))"
    using q [unfolded fast_flows_qman_def Let_def get bind.bind_lunit] by (auto split: if_splits)
  then show ?thesis
  proof cases
    case 1
    then show ?thesis by (auto simp: qman_forward_def)
  next
    case 3
    then show ?thesis using qman_send_len(3) [OF ok 3(1)] by (auto simp: fs_put_def)
  qed simp
qed

lemma flow_step_inv:
  assumes fid: "fs_ok fid" and st: "flow_step env fid S x y" and inv: "flow_inv env fid S p0 isn x"
  shows "flow_inv env fid S p0 isn y"
  using st inv
proof (induction rule: flow_step.induct)
  case (packet nb p k ctx fp ts_off sb ts ret fp' ctx')
  then have inv: "stream_inv env S p0 isn k (fp_flowst fp fid) (fp_shm fp)" by (simp add: flow_inv_def)
  from fast_flows_packet_ok [OF packet(1) packet_comes_ready [OF inv fid packet(2)], of sb ts] packet(3)
  have "packet_step (stream_is S) k fid fp fp'" by auto
  from packet_step_inv [OF inv this] show ?case by (simp add: flow_inv_def)
next
  case (packet_gre nb p k ctx fp ts_off sb ts ret fp' ctx')
  then have inv: "stream_inv env S p0 isn k (fp_flowst fp fid) (fp_shm fp)" by (simp add: flow_inv_def)
  from fast_flows_packet_gre_ok [OF packet_gre(1) packet_comes_ready [OF inv fid packet_gre(2)], of sb ts] packet_gre(3)
  have "packet_step (stream_is S) k fid fp fp'" by auto
  from packet_step_inv [OF inv this] show ?case by (simp add: flow_inv_def)
next
  case (bump ctx fp nb seq rx tx flags ts ret fp' ctx' k)
  then have inv: "stream_inv env S p0 isn k (fp_flowst fp fid) (fp_shm fp)" by (simp add: flow_inv_def)
  then have "send_ready env fp ctx fid nb" "bufs_ok (fp_flowst fp fid)"
    using bump(1,2) fid by (simp_all add: send_ready_def stream_inv_def conn_ok_def core_ready_def)
  from fast_flows_bump_ok [OF this(1) bump(1) this(2), of seq rx tx flags ts] bump(3)
  have "fp' = fs_put fp fid (bump_state (fp_flowst fp fid) seq rx tx flags)" by auto
  then show ?case using bump_inv [OF inv] by (simp add: flow_inv_def fs_put_def)
next
  case (qman fp ctx vm_id nb ts ret fp' ctx' k)
  then have inv: "stream_inv env S p0 isn k (fp_flowst fp fid) (fp_shm fp)" by (simp add: flow_inv_def)
  then have ok: "tx_ok (fp_flowst fp fid)" by (simp add: stream_inv_def conn_ok_def flow_ok_def)
  have "stream_inv env S p0 isn k (qman_advance (fp_flowst fp fid) n) (fp_shm fp)" if "unat n \<le> unat (fs_tx_avail (fp_flowst fp fid))" for n
    by (rule stream_inv_same [OF inv advance_same(1) tx_advance(1) [OF ok that] advance_same(2,3)])
  then show ?case using qman_effect [OF ok qman(1)] inv by (auto simp: flow_inv_def)
next
  case (retransmit ctx fp fp' ctx' k)
  then have inv: "stream_inv env S p0 isn k (fp_flowst fp fid) (fp_shm fp)" by (simp add: flow_inv_def)
  then have "flow_ok env (fp_flowst fp fid)" by (simp add: stream_inv_def conn_ok_def)
  from fast_flows_retransmit_ok [OF fid this retransmit(1)] retransmit(2) obtain fs' where
    "fp' = fs_put fp fid fs'" "rx_same (fp_flowst fp fid) fs'" "tx_ok fs'" "fs_tx_len fs' = fs_tx_len (fp_flowst fp fid)"
    "fs_tx_base fs' = fs_tx_base (fp_flowst fp fid)" by auto
  then show ?case using stream_inv_same [OF inv, of fs'] by (simp add: flow_inv_def fs_put_def)
next
  case (elsewhere fp' fp k)
  then have inv: "stream_inv env S p0 isn k (fp_flowst fp fid) (fp_shm fp)" by (simp add: flow_inv_def)
  then have "shm_ok env (fp_shm fp')" using elsewhere(2) by (simp add: stream_inv_def conn_ok_def shm_ok_def)
  from stream_inv_shm [OF inv this elsewhere(3)] show ?case by (simp add: flow_inv_def elsewhere(1))
qed

end
