(* ===== verification/Flow_Props.thy ===== *)
theory Flow_Props
  imports Flow_Run Qman_Props
begin

text \<open>
  The properties of the fast path's flow processing: memory safety and totality of the packet handlers, correctness of the
  received stream, contents of sent segments and acknowledgements, and the operations on the transmit state.
\<close>

unbundle bit_operations_syntax

section \<open>A connection for examples\<close>

definition demo_env :: fp_env where
  "demo_env = \<lparr>env_eth_addr = 0x0A0B0C0D0E0F, env_vm_shm_len = 128, env_xsumoffload = False, env_ecn_thresh = 0,
     env_max_budget = 0, env_double = (\<lambda>x. x), env_ipv4_cksum = (\<lambda>h. 0), env_udptcp_cksum = (\<lambda>i t b. 0),
     env_crc_u32 = (\<lambda>a b. a + b), env_crc_u64 = (\<lambda>a b. ucast a + b), env_ring_size = 8\<rparr>"

definition demo_conn :: flextcp_pl_flowst where
  "demo_conn = demo_flow\<lparr>fs_vm_id := 1, fs_rx_len := 32, fs_rx_avail := 32, fs_rx_next_pos := 30, fs_rx_next_seq := 0xFFFFFFFF\<rparr>"

definition demo_fp :: fp_mem where
  "demo_fp = \<lparr>fp_flowst = (\<lambda>i. demo_conn), fp_flowht = (\<lambda>i. \<lparr>hte_flow_id = 0, hte_flow_hash = 0\<rparr>),
     fp_steering = (\<lambda>g. 0), fp_shm = (\<lambda>v. replicate 128 0), fp_rings = (\<lambda>c. [])\<rparr>"

definition demo_pkt :: pkt_tcp where
  "demo_pkt = (demo_hdr 8)\<lparr>p_ip := (p_ip (demo_hdr 8))\<lparr>ip_len := t_beui16 56\<rparr>,
     p_tcp := (p_tcp (demo_hdr 8))\<lparr>tcp_seqno := t_beui32 0xFFFFFFFF\<rparr>\<rparr>"

definition demo_gre :: pkt_gre where
  "demo_gre = \<lparr>g_eth = p_eth demo_pkt, g_out_ip = p_ip demo_pkt,
     g_gre = \<lparr>gre_c_k_s_ver = t_beui16 0, gre_proto = t_beui16 0, gre_key = BE32 0\<rparr>, g_in_ip = p_ip demo_pkt, g_tcp = p_tcp demo_pkt\<rparr>"

definition demo_nb :: "bytes \<Rightarrow> network_buf" where
  "demo_nb hdr = \<lparr>nb_id = 3, nb_buf = hdr @ seg_opts 0 0 @ [1, 2, 3, 4], nb_off = 0,
     nb_len = of_nat (length hdr + 16), nb_rss = None, nb_offload = OffNone\<rparr>"

definition demo_stream :: "nat \<Rightarrow> u8" where
  "demo_stream i = of_nat (Suc i)"

lemma demo_conn_ok: "flow_ok demo_env demo_conn" "tx_place demo_env demo_conn" "shm_ok demo_env (fp_shm demo_fp)"
  "fs_ok 5" "fp_flowst demo_fp 5 = demo_conn" "rx_data Q k demo_conn shm" "bufs_ok demo_conn"
  by (simp_all add: flow_ok_def rx_place_def rx_ok_def tx_ok_def dc_vm_ok_def in_shm_def tx_place_def shm_ok_def demo_conn_def demo_flow_def
      demo_env_def demo_fp_def FLEXNIC_PL_VMST_NUM_def fs_ok_def FLEXNIC_PL_FLOWST_NUM_def rx_data_def bufs_ok_def)

lemma demo_init_fields: "dc_arx demo_init = []" "dc_tx demo_init = []" "dc_id demo_init = 0"
  by (simp_all add: demo_init_def demo_ctx_def tas_qman_thread_init_def vmcont_init_def dc_set_qman_def case_prod_beta)

lemma demo_ready: "core_ready demo_init demo_conn"
  using demo_init_inv(2) demo_init_total demo_init_fields
  by (auto simp: core_ready_def qman_room_def demo_conn_def demo_flow_def BATCH_SIZE_def TXBUF_SIZE_def)

lemma demo_tcp: "TCPH_HDRLEN (p_tcp demo_pkt) = 8" "f_beui16 (ip_len (p_ip demo_pkt)) = 56" "f_beui32 (tcp_seqno (p_tcp demo_pkt)) = 0xFFFFFFFF"
  "extra_hlen (p_tcp demo_pkt) = 12" "payload_len 56 (p_tcp demo_pkt) = 4"
proof -
  show h: "TCPH_HDRLEN (p_tcp demo_pkt) = 8" using demo_hdrlen [of 8] by (simp add: demo_pkt_def TCPH_HDRLEN_def)
  show "f_beui16 (ip_len (p_ip demo_pkt)) = 56" "f_beui32 (tcp_seqno (p_tcp demo_pkt)) = 0xFFFFFFFF" by (simp_all add: demo_pkt_def)
  show "extra_hlen (p_tcp demo_pkt) = 12" "payload_len 56 (p_tcp demo_pkt) = 4" by (simp_all add: extra_hlen_def payload_len_def h)
qed

lemma demo_packet:
  assumes "length hdr = n"
  shows "pkt_fits n 56 (p_tcp demo_pkt) (nb_buf (demo_nb hdr)) 0"
    "\<not> trim_wraps demo_conn 0xFFFFFFFF 4"
    "packet_carries (stream_is demo_stream) 0 demo_conn n 56 (p_tcp demo_pkt) (nb_buf (demo_nb hdr))"
proof -
  show "pkt_fits n 56 (p_tcp demo_pkt) (nb_buf (demo_nb hdr)) 0" using assms demo_tcp by (simp add: pkt_fits_def demo_nb_def)
  show "\<not> trim_wraps demo_conn 0xFFFFFFFF 4" by (simp add: trim_wraps_def demo_conn_def demo_flow_def)
  have "[1, 2, 3, 4] ! i = demo_stream i" if "i < 4" for i using that by (auto simp: demo_stream_def less_Suc_eq numeral_eq_Suc)
  moreover have "unat (of_nat i :: u32) = i" if "i < 4" for i using that by (simp add: unsigned_of_nat take_bit_eq_mod)
  ultimately show "packet_carries (stream_is demo_stream) 0 demo_conn n 56 (p_tcp demo_pkt) (nb_buf (demo_nb hdr))"
    using assms demo_tcp by (simp add: packet_carries_def demo_nb_def nth_append demo_conn_def)
qed

section \<open>Reception\<close>

text \<open>
  The effect that the handlers promise: the flow state stays well formed, all other flows are unchanged, and the only bytes of
  shared memory that change are in the free part of the receive buffer of this flow.
\<close>

definition rx_confined :: "fp_env \<Rightarrow> u32 \<Rightarrow> fp_mem \<Rightarrow> fp_mem \<Rightarrow> bool" where
  "rx_confined env fid fp fp' \<longleftrightarrow> flow_ok env (fp_flowst fp' fid) \<and> shm_ok env (fp_shm fp') \<and>
     (\<forall>j. j \<noteq> fid \<longrightarrow> fp_flowst fp' j = fp_flowst fp j) \<and>
     (\<forall>v i. i < length (fp_shm fp v) \<longrightarrow> fp_shm fp' v ! i \<noteq> fp_shm fp v ! i \<longrightarrow>
        (let fs = fp_flowst fp fid in v = fs_vm_id fs \<and> (\<exists>d < unat (fs_rx_avail fs).
           i = unat (rx_base fs) + (unat (fs_rx_next_pos fs) + d) mod unat (fs_rx_len fs))))"

lemma packet_step_confined:
  assumes "flow_ok env (fp_flowst fp fid)" "shm_ok env (fp_shm fp)" "packet_step Q k fid fp fp'"
  shows "rx_confined env fid fp fp'"
proof -
  note P = packet_step_ok [OF assms]
  have "rx_place env (fp_flowst fp fid)" "rx_ok (fp_flowst fp fid)" using assms(1) by (simp_all add: flow_ok_def)
  note C = rx_frame_changes(2) [OF this(1) assms(2) this(2) P(4)]
  show ?thesis unfolding rx_confined_def Let_def using P(1-3) C by blast
qed





text \<open>A connection to which no data was delivered yet.\<close>

definition fresh :: "flextcp_pl_flowst \<Rightarrow> bool" where
  "fresh fs \<longleftrightarrow> fs_rx_avail fs = fs_rx_len fs \<and> fs_rx_ooo_len fs = 0 \<and> \<not> rxfin fs"

lemma fresh_inv:
  assumes "conn_ok env (fp_flowst fp fid) (fp_shm fp)" "fresh (fp_flowst fp fid)"
  shows "flow_inv env fid S (unat (fs_rx_next_pos (fp_flowst fp fid))) (fs_rx_next_seq (fp_flowst fp fid)) (fp, 0)"
proof -
  have "rx_ok (fp_flowst fp fid)" using assms(1) by (simp add: conn_ok_def flow_ok_def)
  from rx_okD(1) [OF this] show ?thesis
    using assms by (simp add: flow_inv_def stream_inv_def fresh_def rx_data_def unread_def)
qed

lemma flow_run_inv:
  assumes "fs_ok fid" "flow_run env fid S x y" "flow_inv env fid S p0 isn x"
  shows "flow_inv env fid S p0 isn y"
  using assms(2,3) by induction (auto intro: flow_step_inv [OF assms(1)])

lemma unread_bytes:
  assumes inv: "stream_inv env S p0 isn k fs shm" and i: "k - unread fs \<le> i" "i < k"
  shows "rx_buf fs shm ! ((p0 + i) mod unat (fs_rx_len fs)) = S i"
proof -
  let ?L = "unat (fs_rx_len fs)" and ?A = "unat (fs_rx_avail fs)"
  have u: "unread fs \<le> k" "unat (fs_rx_next_pos fs) = (p0 + k) mod ?L" using inv by (simp_all add: stream_inv_def)
  have A: "?A + unread fs = ?L"
    using inv rx_okD(2) [of fs] by (simp add: stream_inv_def conn_ok_def flow_ok_def unread_def)
  define j where "j = i - (k - unread fs)"
  have j: "j < unread fs" "k - unread fs + j = i" using i u(1) by (simp_all add: j_def)
  have "rx_at fs shm (?A + j) = S i" using inv j by (simp add: stream_inv_def)
  moreover have "p0 + k + (?A + j) = p0 + i + ?L" using j A u(1) by linarith
  then have "(unat (fs_rx_next_pos fs) + (?A + j)) mod ?L = (p0 + i) mod ?L"
    unfolding u(2) by (metis mod_add_left_eq mod_add_self2)
  ultimately show ?thesis by (simp add: rx_at_def)
qed


lemma demo_rx:
  "map_option (\<lambda>r. (fs_rx_avail (rv_fs r), fs_rx_len (rv_fs r))) (flow_rx demo_env (p_tcp demo_pkt) (nb_buf (demo_nb (pkt_tcp_store demo_pkt)))
     (ts_opt_load (nb_buf (demo_nb (pkt_tcp_store demo_pkt))) 54) 7 4
     (rx_start (p_tcp demo_pkt) 4 66 demo_conn (fp_shm demo_fp))) = Some (28, 32)"
  by code_simp

lemma rx_packet_result:
  fixes h iplen sizeof_p
  defines "x \<equiv> (TCPH_HDRLEN h - 5) * 4"
  assumes r: "rx_packet env fp ctx fid sizeof_p iplen h pm (Some off) False ts send_ack = Some (ret, fp', ctx')"
    and get: "fs_get fp fid = Some fs" and sp: "fs_rx_base_sp fs AND FLEXNIC_PL_FLOWST_SLOWPATH = 0" "\<not> slowpath_flags h"
    and rx: "flow_rx env h pm (ts_opt_load pm (unat sizeof_p + unat off)) ts
        (ucast (ucast iplen - (sizeof_ip_hdr + sizeof_tcp_hdr + ucast x)))
        (rx_start h (ucast (ucast iplen - (sizeof_ip_hdr + sizeof_tcp_hdr + ucast x))) (ucast (sizeof_p + ucast x)) fs (fp_shm fp)) = Some rv"
  shows "fp' = (fs_put fp fid (rv_fs rv))\<lparr>fp_shm := rv_shm rv\<rparr>"
proof -
  have nsp: "\<not> fs_rx_base_sp fs AND FLEXNIC_PL_FLOWST_SLOWPATH \<noteq> 0" using sp(1) by simp
  have nb: "\<not> (False \<and> dc_budgets (if False then dc_charge ctx (ucast (fs_vm_id fs)) n else ctx) (ucast (fs_vm_id fs)) \<le> 0)" for n by simp
  have ca: "c_assert (False \<longrightarrow> b) = Some ()" for b by simp
  show ?thesis
    using r [unfolded rx_packet_def Let_def get bind.bind_lunit ca if_not_P [OF nb] if_not_P [OF nsp] if_not_P [OF sp(2)] x_def [symmetric] rx]
    by (auto split: if_splits)
qed

lemma demo_step:
  "\<exists>fp'. fs_rx_avail (fp_flowst fp' 5) = 28 \<and> fs_rx_len (fp_flowst fp' 5) = 32 \<and> flow_step demo_env 5 demo_stream (demo_fp, 0) (fp', 4)"
proof -
  let ?nb = "demo_nb (pkt_tcp_store demo_pkt)" and ?pm = "nb_buf (demo_nb (pkt_tcp_store demo_pkt))"
  have ld: "pkt_tcp_load (nb_buf ?nb) (unat (nb_off ?nb)) = Some demo_pkt"
    using pkt_tcp_load_store [of "[]" demo_pkt] by (simp add: demo_nb_def)
  have off: "drop (unat (nb_off ?nb)) ?pm = ?pm" by (simp add: demo_nb_def)
  have pc: "packet_comes demo_stream 0 demo_init demo_conn 54 56 (p_tcp demo_pkt) ?pm 0"
    using demo_packet [of "pkt_tcp_store demo_pkt" 54] demo_ready demo_tcp by (simp add: packet_comes_def)
  have "packet_ready demo_env demo_fp demo_init 5 54 56 (p_tcp demo_pkt) ?pm 0"
    using pc demo_conn_ok by (simp add: packet_comes_def packet_ready_def)
  with fast_flows_packet_ok [OF ld _ demo_conn_ok(6) [of "stream_is demo_stream" 0 "fp_shm demo_fp", folded demo_conn_ok(5)], of demo_env demo_init 0 False 7] pc
  obtain ret fp' ctx' where r: "fast_flows_packet demo_env demo_fp demo_init ?nb 5 (Some 0) False 7 = Some (ret, fp', ctx')"
    by (auto simp: demo_tcp off packet_comes_def demo_conn_ok(5))
  obtain t where t: "ts_opt_load ?pm 54 = Some t" using ts_opt_load_ok [of 54 ?pm] by (auto simp: demo_nb_def)
  obtain rv where rv: "flow_rx demo_env (p_tcp demo_pkt) ?pm (Some t) 7 4 (rx_start (p_tcp demo_pkt) 4 66 demo_conn (fp_shm demo_fp)) = Some rv"
    "fs_rx_avail (rv_fs rv) = 28" "fs_rx_len (rv_fs rv) = 32" using demo_rx t by auto
  have fl: "\<not> slowpath_flags (p_tcp demo_pkt)" by code_simp
  have "fp' = (fs_put demo_fp 5 (rv_fs rv))\<lparr>fp_shm := rv_shm rv\<rparr>"
  proof (rule rx_packet_result)
    show "rx_packet demo_env demo_fp demo_init 5 sizeof_pkt_tcp 56 (p_tcp demo_pkt) ?pm (Some 0) False 7
       (\<lambda>ctx fs off. flow_tx_ack demo_env ctx fs (fs_tx_next_seq fs) (fs_rx_next_seq fs) (fs_rx_avail fs) (fs_tx_next_ts fs)
          7 ?nb off) = Some (ret, fp', ctx')" using r unfolding fast_flows_packet_def ld by (simp add: demo_tcp off)
    show "fs_get demo_fp 5 = Some demo_conn" using demo_conn_ok by (simp add: fs_get_def)
    show "fs_rx_base_sp demo_conn AND FLEXNIC_PL_FLOWST_SLOWPATH = 0" by (simp add: demo_conn_def demo_flow_def)
  qed (use fl rv t in \<open>simp_all add: demo_tcp sizeof_defs\<close>)
  then have "fs_rx_avail (fp_flowst fp' 5) = 28" "fs_rx_len (fp_flowst fp' 5) = 32" using rv(2,3) by (simp_all add: fs_put_def)
  moreover from this(1) have "flow_step demo_env 5 demo_stream (demo_fp, 0) (fp', 4)"
    using flow_step.packet [OF ld _ r, of demo_stream 0] pc by (simp add: demo_conn_ok(5) demo_tcp off) (simp add: demo_conn_def)
  ultimately show ?thesis by blast
qed


section \<open>Transmission\<close>

lemma rx_ack_bump:
  assumes "tx_ok (rv_fs r)" "rv_tx_bump r = 0" "rx_ack h n r = (r', u)"
  shows "rv_tx_bump r' = 0 \<or> f_beui32 (tcp_ackno h) = sn_una (tx_abs (rv_fs r)) + rv_tx_bump r'"
  using assms(3)
proof (cases rule: rx_ack_cases)
  case (valid m x)
  have c: "tx_same (rv_fs r) (acks_counted (rv_fs r))" by (simp add: tx_same_def)
  show ?thesis using valid_rxack_total(2) [OF _ valid(1)] valid(2) tx_same_cong [OF c] assms(1) by simp
qed (use assms(2) in simp_all)

lemma flow_rx_bump:
  assumes f: "flow_rx env h pm (Some opt) ts n r = Some r'" and ok: "tx_ok (rv_fs r)" "rv_tx_bump r = 0"
  shows "rv_tx_bump r' = 0 \<or> f_beui32 (tcp_ackno h) = sn_una (tx_abs (rv_fs r)) + rv_tx_bump r'"
proof -
  obtain r1 u1 where a: "rx_ack h n r = (r1, u1)" by force
  obtain r2 u2 where t: "rx_trim r1 = (r2, u2)" by force
  have "rv_tx_bump r' = rv_tx_bump r1"
  proof (cases "u1 \<or> u2")
    case True
    then show ?thesis using f a t rx_trim_tx [OF t] by (cases u1) (auto simp: flow_rx_eq)
  next
    case False
    then have "rx_tail env h pm opt ts n r2 = Some r'" using f a t by (simp add: flow_rx_eq)
    from rx_tail_tx [OF this] show ?thesis using rx_trim_tx [OF t] by simp
  qed
  then show ?thesis using rx_ack_bump [OF ok a] by simp
qed

text \<open>
  C4: When the queue manager selects a flow that has bytes to send and whose window is open,
  \<open>fast_flows_qman\<close> sends the next bytes of the abstract sender: at most one maximum segment, never more than
  the peer's window allows, with the sequence number that follows the bytes in flight, in a packet that the
  parser of the fast path accepts. The sender has then sent exactly these bytes, and the
  last segment carries the FIN, which takes the place of one byte, when the application closed the stream.
\<close>

theorem fast_flows_qman_sends:
  fixes fp fid
  defines "fs \<equiv> fp_flowst fp fid"
  defines "n \<equiv> min (tcp_txavail fs None) TCP_MSS"
  defines "fin \<equiv> has_flag (fs_rx_base_sp fs) FLEXNIC_PL_FLOWST_TXFIN \<and> n = fs_tx_avail fs"
  assumes "send_ready env fp ctx fid nb" and "unat (fs_flow_group fs) < FLEXNIC_PL_MAX_FLOWGROUPS"
    and "ucast (fp_steering fp (fs_flow_group fs)) = dc_id ctx" and "tcp_txavail fs None \<noteq> 0"
  shows "\<exists>nb'. fast_flows_qman env fp ctx vm_id fid nb ts =
      Some (0, fs_put fp fid (qman_advance fs n), ctx\<lparr>dc_tx := dc_tx ctx @ [nb']\<rparr>) \<and> nb_id nb' = nb_id nb \<and>
    seg_sent fs (sn_una (tx_abs fs) + of_nat (sn_sent (tx_abs fs))) (fs_rx_next_seq fs) (fs_rx_avail fs) fin
      (sn_bytes fs (fp_shm fp) (sn_sent (tx_abs fs)) (unat n - (if fin then 1 else 0))) nb' \<and>
    tx_ok (qman_advance fs n) \<and> tx_abs (qman_advance fs n) = sn_send (unat n) (tx_abs fs)"
  using fast_flows_qman_ok [of env fp ctx fid nb] assms by simp

definition demo_tx_nb :: network_buf where
  "demo_tx_nb = \<lparr>nb_id = 9, nb_buf = replicate 2048 0, nb_off = 0, nb_len = 0, nb_rss = None, nb_offload = OffNone\<rparr>"

lemma demo_send_ready: "send_ready demo_env demo_fp demo_init 5 demo_tx_nb"
  using demo_conn_ok demo_init_fields by (simp add: send_ready_def demo_tx_nb_def TXBUF_SIZE_def BATCH_SIZE_def)

theorem fast_flows_qman_sends_witness:
  "\<exists>nb'. fast_flows_qman demo_env demo_fp demo_init 1 5 demo_tx_nb 7 =
      Some (0, fs_put demo_fp 5 (qman_advance demo_conn 10), demo_init\<lparr>dc_tx := [nb']\<rparr>) \<and>
    seg_sent demo_conn 2 0xFFFFFFFF 32 False (sn_bytes demo_conn (fp_shm demo_fp) 5 10) nb'"
proof -
  have av: "tcp_txavail demo_conn None = 10" by (simp add: tcp_txavail_def demo_conn_def demo_flow_def)
  have fin: "\<not> has_flag (fs_rx_base_sp demo_conn) FLEXNIC_PL_FLOWST_TXFIN"
    by (simp add: has_flag_def demo_conn_def demo_flow_def flowst_flags)
  have ab: "sn_una (tx_abs demo_conn) = - 3" "sn_sent (tx_abs demo_conn) = 5" by (simp_all add: tx_abs_def demo_conn_def demo_flow_def)
  have sel: "min 10 TCP_MSS = 10" "fs_flow_group demo_conn = 0" "fs_rx_next_seq demo_conn = 0xFFFFFFFF" "fs_rx_avail demo_conn = 32"
    "fp_steering demo_fp 0 = 0"
    by (simp_all add: TCP_MSS_def demo_conn_def demo_flow_def demo_fp_def)
  show ?thesis
    using fast_flows_qman_sends [OF demo_send_ready, of 1 7, unfolded demo_conn_ok(5)] demo_init_fields
    by (auto simp: av fin ab sel FLEXNIC_PL_MAX_FLOWGROUPS_def)
qed



text \<open>
  C13: \<open>fast_flows_retransmit\<close> makes the sender start again at its oldest unacknowledged byte and keeps the
  receive state: the segment that is sent next has the sequence number and the bytes from there on.
\<close>

theorem fast_flows_retransmit_rewinds:
  fixes fp fid
  defines "fs \<equiv> fp_flowst fp fid"
  assumes "fs_ok fid" and "flow_ok env fs" and "core_ready ctx fs"
  shows "\<exists>fs' ctx'. fast_flows_retransmit fp ctx fid = Some (fs_put fp fid fs', ctx') \<and> rx_same fs fs' \<and>
    tx_ok fs' \<and> tx_abs fs' = sn_rewind (tx_abs fs) \<and> fs_tx_next_seq fs' = sn_una (tx_abs fs) \<and>
    (\<forall>n. sn_bytes fs' shm (sn_sent (tx_abs fs')) n = sn_bytes fs shm 0 n) \<and> (\<exists>vs. vm_inv (dc_vqman ctx') vs)"
proof -
  obtain fs' ctx' where r: "fast_flows_retransmit fp ctx fid = Some (fs_put fp fid fs', ctx')" "rx_same fs fs'" "tx_ok fs'"
      "fs_tx_len fs' = fs_tx_len fs" "fs_tx_base fs' = fs_tx_base fs" "tx_abs fs' = sn_rewind (tx_abs fs)" "\<exists>vs. vm_inv (dc_vqman ctx') vs"
    using fast_flows_retransmit_ok [OF assms(2-4) [unfolded fs_def]] fs_def by blast
  have "tx_buf fs' = tx_buf fs" using r(2,4,5) by (simp add: tx_buf_def rx_same_def fun_eq_iff)
  then have "sn_bytes fs' shm (sn_sent (tx_abs fs')) n = sn_bytes fs shm 0 n" for n using r(6) by (simp add: sn_bytes_def sn_rewind_def)
  moreover have "fs_tx_next_seq fs' = sn_una (tx_abs fs)" using tx_abs_next(1) [OF r(3)] r(6) by (simp add: sn_rewind_def)
  ultimately show ?thesis using r by blast
qed

theorem fast_flows_retransmit_rewinds_witness:
  "\<exists>fs' ctx'. fast_flows_retransmit demo_fp demo_init 5 = Some (fs_put demo_fp 5 fs', ctx') \<and> fs_tx_next_seq fs' = - 3"
proof -
  have "sn_una (tx_abs demo_conn) = - 3" by (simp add: tx_abs_def demo_conn_def demo_flow_def)
  with fast_flows_retransmit_rewinds [of 5 demo_env demo_fp demo_init "\<lambda>v. []"] demo_conn_ok demo_ready show ?thesis by auto
qed

section \<open>Bumps of the application\<close>

text \<open>
  C12: \<open>fast_flows_bump\<close> is total for every request of an application, and no request can make the flow
  state ill-formed if the receive buffer is at least as large as the transmit buffer: a request that is
  too old or too large leaves the state alone apart from its number; any other one adds exactly the given number of
  bytes to the abstract sender and to the free space for received data.
\<close>

theorem fast_flows_bump_correct:
  fixes fp fid seq rx tx flags
  defines "fs \<equiv> fp_flowst fp fid"
  defines "fs' \<equiv> bump_state fs seq rx tx flags"
  assumes "send_ready env fp ctx fid nb" and "core_ready ctx fs" and "bufs_ok fs"
  shows "(\<exists>ret ctx'. fast_flows_bump env fp ctx fid seq rx tx flags nb ts = Some (ret, fs_put fp fid fs', ctx') \<and>
      (\<exists>vs. vm_inv (dc_vqman ctx') vs)) \<and> flow_ok env fs' \<and>
    (if bump_out_of_order seq (fs_bump_seq fs) \<or> bump_refused fs rx tx flags
     then rx_same fs fs' \<and> tx_abs fs' = tx_abs fs
     else tx_abs fs' = sn_append (unat (bump_tx fs tx)) (tx_abs fs) \<and>
       unat (fs_rx_avail fs') = unat (fs_rx_avail fs) + unat rx \<and> unat (fs_rx_avail fs') \<le> unat (fs_rx_len fs))"
proof -
  have ok: "flow_ok env fs" using assms(3) by (simp add: send_ready_def fs_def)
  have "\<not> bump_refused fs rx tx flags \<Longrightarrow> \<not> bump_too_large fs rx (bump_tx fs tx)" by (simp add: bump_refused_def)
  note B = bump_sizes [OF ok assms(5) this] bumped_ok [OF ok assms(5) this]
  have "if bump_out_of_order seq (fs_bump_seq fs) \<or> bump_refused fs rx tx flags
     then rx_same fs fs' \<and> tx_abs fs' = tx_abs fs
     else tx_abs fs' = sn_append (unat (bump_tx fs tx)) (tx_abs fs) \<and>
       unat (fs_rx_avail fs') = unat (fs_rx_avail fs) + unat rx \<and> unat (fs_rx_avail fs') \<le> unat (fs_rx_len fs)"
  proof (cases "bump_out_of_order seq (fs_bump_seq fs) \<or> bump_refused fs rx tx flags")
    case True
    then show ?thesis by (auto simp: fs'_def bump_state_def rx_same_def tx_abs_def)
  next
    case False
    then have "fs' = bumped fs seq rx (bump_tx fs tx) (bump_fin fs flags)" by (simp add: fs'_def bump_state_def)
    then show ?thesis using False B by (simp add: bumped_def)
  qed
  moreover have "flow_ok env fs'" unfolding fs'_def by (rule bump_state_ok [OF ok assms(5)])
  ultimately show ?thesis
    using fast_flows_bump_ok [OF assms(3) assms(4,5) [unfolded fs_def], of seq rx tx flags ts] by (simp add: fs_def fs'_def)
qed

theorem fast_flows_bump_correct_witness:
  "\<exists>ret ctx'. fast_flows_bump demo_env demo_fp demo_init 5 1 0 7 0 demo_tx_nb 9 =
     Some (ret, fs_put demo_fp 5 (bump_state demo_conn 1 0 7 0), ctx') \<and>
     tx_abs (bump_state demo_conn 1 0 7 0) = sn_append 7 (tx_abs demo_conn)"
proof -
  have "\<not> (bump_out_of_order 1 (fs_bump_seq demo_conn) \<or> bump_refused demo_conn 0 7 0)" "bump_tx demo_conn 7 = 7"
    by code_simp+
  then show ?thesis
    using fast_flows_bump_correct [OF demo_send_ready, of 1 0 7 0 9] demo_ready demo_conn_ok(5,7) by auto
qed


section \<open>Acknowledgements\<close>

text \<open>
  C14: An acknowledgement is the received packet sent back: to the sender of the frame, with addresses and ports
  swapped, the given sequence number, acknowledgement number and window (cut to 16 bits), and no flag but
  ACK and possibly the congestion echo.
\<close>

theorem flow_tx_ack_replies:
  assumes "dc_vm_ok (fs_vm_id fs)" and "unat (nb_off nb) + 54 + unat ts_off + 10 \<le> length (nb_buf nb)"
    and "length (dc_tx ctx) < TXBUF_SIZE" and "pkt_tcp_load (nb_buf nb) (unat (nb_off nb)) = Some p"
  shows "\<exists>nb' p'. flow_tx_ack env ctx fs seq ack wnd echots myts nb ts_off = Some (ctx\<lparr>dc_tx := dc_tx ctx @ [nb']\<rparr>) \<and>
    nb_id nb' = nb_id nb \<and> pkt_tcp_load (nb_buf nb') (unat (nb_off nb')) = Some p' \<and>
    eth_dest (p_eth p') = eth_src (p_eth p) \<and> ip_src (p_ip p') = ip_dest (p_ip p) \<and> ip_dest (p_ip p') = ip_src (p_ip p) \<and>
    acks_tcp (p_tcp p) (p_tcp p') seq ack wnd"
  using assms by (rule flow_tx_ack_ok)

theorem flow_tx_ack_replies_witness:
  "\<exists>nb' p'. flow_tx_ack demo_env demo_init demo_conn 2 3 64 0 7 (demo_nb (pkt_tcp_store demo_pkt)) 0 =
      Some (demo_init\<lparr>dc_tx := [nb']\<rparr>) \<and> pkt_tcp_load (nb_buf nb') (unat (nb_off nb')) = Some p' \<and>
    acks_tcp (p_tcp demo_pkt) (p_tcp p') 2 3 64"
proof -
  let ?nb = "demo_nb (pkt_tcp_store demo_pkt)"
  have "pkt_tcp_load (nb_buf ?nb) (unat (nb_off ?nb)) = Some demo_pkt"
    using pkt_tcp_load_store [of "[]" demo_pkt] by (simp add: demo_nb_def)
  moreover have "dc_vm_ok (fs_vm_id demo_conn)" using demo_conn_ok(1) by (simp add: flow_ok_def)
  moreover have "unat (nb_off ?nb) + 54 + unat (0::u16) + 10 \<le> length (nb_buf ?nb)" by (simp add: demo_nb_def)
  moreover have "length (dc_tx demo_init) < TXBUF_SIZE" using demo_init_fields by (simp add: TXBUF_SIZE_def BATCH_SIZE_def)
  ultimately show ?thesis
    using flow_tx_ack_replies [of demo_conn ?nb 0 demo_init demo_pkt demo_env 2 3 64 0 7] demo_init_fields(2) by auto
qed

end
