(* ===== verification/Nicif.thy ===== *)
theory Nicif
  imports Flow_Table
begin

text \<open>
  The slow path's interface to the fast path (\<open>src/tas/slow/nicif.c\<close>): registering and removing flows,
  reading their statistics, setting their rate, and the kernel queue by which the slow path sends packets and
  asks for retransmissions.
\<close>

unbundle bit_operations_syntax

section \<open>State\<close>

text \<open>
  \<open>ni_txq\<close> are the entries of the kernel transmit queue of each core, \<open>ni_txbufs\<close> the addresses of its
  buffers and \<open>ni_txq_tail\<close> its tail; all queues have \<open>txq_len\<close> entries. \<open>ni_budgets\<close> are the budgets of the cores.
\<close>

record nicif =
  ni_fp :: fp_mem
  ni_ids :: flow_ids
  ni_rxq_len :: u32
  ni_txq_len :: u32
  ni_txq :: "u16 \<Rightarrow> u32 \<Rightarrow> flextcp_pl_ktx"
  ni_txbufs :: "u16 \<Rightarrow> u32 \<Rightarrow> u64"
  ni_txq_tail :: "u16 \<Rightarrow> u32"
  ni_budgets :: "u16 \<Rightarrow> u32 \<Rightarrow> int"

definition NICIF_CONN_ECN :: u32 where "NICIF_CONN_ECN = 4"

section \<open>Flow registration\<close>

text \<open>The arguments of \<open>nicif_connection_add\<close> and \<open>nicif_connection_add_gre\<close>; the addresses of
  the tunnel's ends and its identifier are only used by the latter.\<close>

record conn_params =
  cp_db :: u32
  cp_vm_id :: u16
  cp_app_id :: u16
  cp_tunnel_id :: u32
  cp_mac_remote :: u64
  cp_out_ip_local :: u32
  cp_out_ip_remote :: u32
  cp_in_ip_local :: u32
  cp_in_ip_remote :: u32
  cp_port_local :: u16
  cp_port_remote :: u16
  cp_rx_base :: u64
  cp_rx_len :: u32
  cp_tx_base :: u64
  cp_tx_len :: u32
  cp_remote_seq :: u32
  cp_local_seq :: u32
  cp_app_opaque :: u64
  cp_flags :: u32
  cp_rate :: u32
  cp_flow_group :: u16

text \<open>The hash is the CRC that DPDK computes over the packed key; it is the parameter \<open>crc\<close>.\<close>

definition slow_flow_hash :: "(bytes \<Rightarrow> u32) \<Rightarrow> beui32 \<Rightarrow> beui16 \<Rightarrow> beui32 \<Rightarrow> beui16 \<Rightarrow> u32" where
  "slow_flow_hash crc lip lp rip rp = crc (st32 (raw32 lip) @ st32 (raw32 rip) @ st16 (raw16 lp) @ st16 (raw16 rp))"

definition slow_flow_hash_gre :: "(bytes \<Rightarrow> u32) \<Rightarrow> beui16 \<Rightarrow> beui16 \<Rightarrow> beui32 \<Rightarrow> u32" where
  "slow_flow_hash_gre crc lp rp tid = crc (st32 (raw32 tid) @ st16 (raw16 lp) @ st16 (raw16 rp))"

text \<open>The part of the new flow state that both functions write. What they leave out keeps its old value.\<close>

definition conn_flowst :: "conn_params \<Rightarrow> flextcp_pl_flowst \<Rightarrow> flextcp_pl_flowst" where
  "conn_flowst c fs = fs
     \<lparr>fs_opaque := cp_app_opaque c,
      fs_rx_base_sp := (if cp_flags c AND NICIF_CONN_ECN = NICIF_CONN_ECN
        then cp_rx_base c OR FLEXNIC_PL_FLOWST_ECN else cp_rx_base c),
      fs_tx_base := cp_tx_base c, fs_rx_len := cp_rx_len c, fs_tx_len := cp_tx_len c,
      fs_remote_mac := ucast (cp_mac_remote c), fs_db_id := ucast (cp_db c), fs_app_id := cp_app_id c,
      fs_vm_id := cp_vm_id c, fs_local_port := t_beui16 (cp_port_local c), fs_remote_port := t_beui16 (cp_port_remote c),
      fs_flow_group := cp_flow_group c, fs_bump_seq := 0,
      fs_rx_avail := cp_rx_len c, fs_rx_next_pos := 0, fs_rx_next_seq := cp_remote_seq c,
      fs_rx_remote_avail := cp_rx_len c, fs_tx_sent := 0, fs_tx_next_pos := 0, fs_tx_next_seq := cp_local_seq c,
      fs_tx_avail := 0, fs_tx_next_ts := 0, fs_tx_rate := cp_rate c, fs_rtt_est := 0\<rparr>"

definition conn_flowst_tcp :: "conn_params \<Rightarrow> flextcp_pl_flowst \<Rightarrow> flextcp_pl_flowst" where
  "conn_flowst_tcp c fs = (conn_flowst c fs)
     \<lparr>fs_out_local_ip := t_beui32 (cp_out_ip_local c), fs_out_remote_ip := t_beui32 (cp_out_ip_remote c)\<rparr>"

definition conn_flowst_gre :: "conn_params \<Rightarrow> flextcp_pl_flowst \<Rightarrow> flextcp_pl_flowst" where
  "conn_flowst_gre c fs = (conn_flowst c fs)
     \<lparr>fs_tunnel_id := t_beui32 (cp_tunnel_id c),
      fs_out_local_ip := t_beui32 (cp_out_ip_local c), fs_out_remote_ip := t_beui32 (cp_out_ip_remote c),
      fs_in_local_ip := t_beui32 (cp_in_ip_local c), fs_in_remote_ip := t_beui32 (cp_in_ip_remote c)\<rparr>"

text \<open>
  The common body: \<open>fs_of\<close> gives the new flow state. The result \<open>None\<close> inside the option is the return
  code -1, otherwise it is the flow identifier.
\<close>

definition conn_add :: "u32 \<Rightarrow> (flextcp_pl_flowst \<Rightarrow> flextcp_pl_flowst) \<Rightarrow> nicif \<Rightarrow> (u32 option \<times> nicif) option" where
  "conn_add hash fs_of st =
     (case flow_id_alloc (ni_ids st) of
        None \<Rightarrow> Some (None, st)
      | Some (f_id, ids) \<Rightarrow> do {
          (slot, ht) \<leftarrow> flow_slot_alloc (fp_flowht (ni_fp st)) hash;
          let fp = (ni_fp st)\<lparr>fp_flowht := ht\<rparr>;
          case slot of
            None \<Rightarrow> Some (None, st\<lparr>ni_ids := flow_id_free ids f_id, ni_fp := fp\<rparr>)
          | Some (i, d) \<Rightarrow> do {
              c_assert (i < HT_ENTRIES);
              c_assert (d < HT_NBSZ);
              fs \<leftarrow> fs_get fp f_id;
              let fp = fs_put fp f_id (fs_of fs);
              let fp = fp\<lparr>fp_flowht := (fp_flowht fp)(i :=
                \<lparr>hte_flow_id = FLEXNIC_PL_FLOWHTE_VALID OR push_bit FLEXNIC_PL_FLOWHTE_POSSHIFT d OR f_id,
                 hte_flow_hash = hash\<rparr>)\<rparr>;
              Some (Some f_id, st\<lparr>ni_ids := ids, ni_fp := fp\<rparr>) } })"

definition nicif_connection_add :: "(bytes \<Rightarrow> u32) \<Rightarrow> nicif \<Rightarrow> conn_params \<Rightarrow> (u32 option \<times> nicif) option" where
  "nicif_connection_add crc st c =
     conn_add (slow_flow_hash crc (t_beui32 (cp_out_ip_local c)) (t_beui16 (cp_port_local c))
       (t_beui32 (cp_out_ip_remote c)) (t_beui16 (cp_port_remote c))) (conn_flowst_tcp c) st"

definition nicif_connection_add_gre :: "(bytes \<Rightarrow> u32) \<Rightarrow> nicif \<Rightarrow> conn_params \<Rightarrow> (u32 option \<times> nicif) option" where
  "nicif_connection_add_gre crc st c =
     conn_add (slow_flow_hash_gre crc (t_beui16 (cp_port_local c)) (t_beui16 (cp_port_remote c))
       (t_beui32 (cp_tunnel_id c))) (conn_flowst_gre c) st"

section \<open>Removal and the other operations on a flow\<close>

text \<open>Tunnels are switched off in the build, so the entry is searched with the hash of the addresses. The results are
  the two sequence numbers and whether the two directions are closed; the return code of the search is ignored.\<close>

definition flow_slot_clear :: "(bytes \<Rightarrow> u32) \<Rightarrow> (u32 \<Rightarrow> flextcp_pl_flowhte) \<Rightarrow> u32 \<Rightarrow> beui32 \<Rightarrow> beui16 \<Rightarrow> beui32 \<Rightarrow> beui16 \<Rightarrow>
    int \<times> (u32 \<Rightarrow> flextcp_pl_flowhte)" where
  "flow_slot_clear crc ht f_id lip lp rip rp =
     slot_clear_loop ht (slow_flow_hash crc lip lp rip rp) f_id 0 FLEXNIC_PL_FLOWHT_NBSZ"

definition nicif_connection_disable :: "(bytes \<Rightarrow> u32) \<Rightarrow> nicif \<Rightarrow> u32 \<Rightarrow> ((u32 \<times> u32 \<times> bool \<times> bool) \<times> nicif) option" where
  "nicif_connection_disable crc st f_id = do {
     fs \<leftarrow> fs_get (ni_fp st) f_id;
     let tx_seq = fs_tx_next_seq fs;
     let rx_seq = fs_rx_next_seq fs;
     let fs = fs\<lparr>fs_rx_base_sp := fs_rx_base_sp fs OR FLEXNIC_PL_FLOWST_SLOWPATH\<rparr>;
     let rx_closed = (fs_rx_base_sp fs AND FLEXNIC_PL_FLOWST_RXFIN \<noteq> 0);
     let tx_closed = (fs_rx_base_sp fs AND FLEXNIC_PL_FLOWST_TXFIN \<noteq> 0 \<and> fs_tx_sent fs = 0);
     let fp = fs_put (ni_fp st) f_id fs;
     let ht = snd (flow_slot_clear crc (fp_flowht fp) f_id (fs_out_local_ip fs) (fs_local_port fs)
       (fs_out_remote_ip fs) (fs_remote_port fs));
     Some ((tx_seq, rx_seq, tx_closed, rx_closed), st\<lparr>ni_fp := fp\<lparr>fp_flowht := ht\<rparr>\<rparr>) }"

definition nicif_connection_free :: "nicif \<Rightarrow> u32 \<Rightarrow> nicif option" where
  "nicif_connection_free st f_id = do {
     c_assert (fs_ok f_id);
     Some (st\<lparr>ni_ids := flow_id_free (ni_ids st) f_id\<rparr>) }"

definition nicif_connection_move :: "nicif \<Rightarrow> u32 \<Rightarrow> u32 \<Rightarrow> (int \<times> nicif) option" where
  "nicif_connection_move st dst_db f_id = do {
     fs \<leftarrow> fs_get (ni_fp st) f_id;
     Some (0, st\<lparr>ni_fp := fs_put (ni_fp st) f_id (fs\<lparr>fs_db_id := ucast dst_db\<rparr>)\<rparr>) }"

record conn_stats =
  c_drops :: u16
  c_acks :: u16
  c_ackb :: u32
  c_ecnb :: u32
  c_txp :: bool
  c_rtt :: u32
  c_tx_next_seq :: u32
  c_tx_avail :: u32

text \<open>Here \<open>None\<close> is the return code -1 for an identifier that is out of range.\<close>

definition nicif_connection_stats :: "nicif \<Rightarrow> u32 \<Rightarrow> conn_stats option" where
  "nicif_connection_stats st f_id =
     (if \<not> fs_ok f_id then None
      else let fs = fp_flowst (ni_fp st) f_id in
        Some \<lparr>c_drops = fs_cnt_tx_drops fs, c_acks = fs_cnt_rx_acks fs, c_ackb = fs_cnt_rx_ack_bytes fs,
          c_ecnb = fs_cnt_rx_ecn_bytes fs, c_txp = (fs_tx_sent fs \<noteq> 0), c_rtt = fs_rtt_est fs,
          c_tx_next_seq = fs_tx_next_seq fs, c_tx_avail = fs_tx_avail fs\<rparr>)"

definition nicif_connection_setrate :: "nicif \<Rightarrow> u32 \<Rightarrow> u32 \<Rightarrow> int \<times> nicif" where
  "nicif_connection_setrate st f_id rate =
     (if \<not> fs_ok f_id then (- 1, st)
      else (0, st\<lparr>ni_fp := fs_put (ni_fp st) f_id ((fp_flowst (ni_fp st) f_id)\<lparr>fs_tx_rate := rate\<rparr>)\<rparr>))"

section \<open>Kernel transmit queue\<close>

definition FLEXTCP_PL_KTX_INVALID :: u8 where "FLEXTCP_PL_KTX_INVALID = 0"
definition FLEXTCP_PL_KTX_PACKET :: u8 where "FLEXTCP_PL_KTX_PACKET = 1"
definition FLEXTCP_PL_KTX_CONNRETRAN :: u8 where "FLEXTCP_PL_KTX_CONNRETRAN = 2"
definition FLEXTCP_PL_KTX_WINRETRAN :: u8 where "FLEXTCP_PL_KTX_WINRETRAN = 3"
definition FLEXTCP_PL_KTX_PACKET_NOTS :: u8 where "FLEXTCP_PL_KTX_PACKET_NOTS = 4"

definition ktx_get :: "nicif \<Rightarrow> u16 \<Rightarrow> u32 \<Rightarrow> flextcp_pl_ktx option" where
  "ktx_get st core i = (if i < ni_txq_len st then Some (ni_txq st core i) else None)"

definition ktx_put :: "nicif \<Rightarrow> u16 \<Rightarrow> u32 \<Rightarrow> flextcp_pl_ktx \<Rightarrow> nicif" where
  "ktx_put st core i e = st\<lparr>ni_txq := (ni_txq st)(core := (ni_txq st core)(i := e))\<rparr>"

text \<open>
  The entry at the tail if it is free, with the tail behind it, which wraps around at the length of the
  receive queue. The inner \<open>None\<close> means that the queue is full.
\<close>

definition ktx_try_alloc :: "nicif \<Rightarrow> u16 \<Rightarrow> (u32 \<times> u32) option option" where
  "ktx_try_alloc st core = do {
     let tail = ni_txq_tail st core;
     ktx \<leftarrow> ktx_get st core tail;
     if ktx_type ktx \<noteq> 0 then Some None
     else let t = tail + 1 in Some (Some (tail, if t = ni_rxq_len st then t - ni_rxq_len st else t)) }"

text \<open>The budget is a signed number that is read as an unsigned one, so only the budget 0 stops the request.\<close>

definition tas_get_budget :: "nicif \<Rightarrow> u32 \<Rightarrow> u16 \<Rightarrow> u64" where
  "tas_get_budget st vm_id core = of_int (ni_budgets st core vm_id)"

definition request_retransmit :: "u8 \<Rightarrow> nicif \<Rightarrow> u32 \<Rightarrow> u32 \<Rightarrow> u16 \<Rightarrow> (int \<times> nicif) option" where
  "request_retransmit type st f_id vm_id flow_group = do {
     let core = (ucast (fp_steering (ni_fp st) flow_group) :: u16);
     if tas_get_budget st vm_id core \<le> 0 then Some (- 1, st)
     else do {
       r \<leftarrow> ktx_try_alloc st core;
       case r of None \<Rightarrow> Some (- 1, st)
       | Some (i, tail) \<Rightarrow> do {
           let st = st\<lparr>ni_txq_tail := (ni_txq_tail st)(core := tail)\<rparr>;
           Some (0, ktx_put st core i \<lparr>ktx_msg_of = KtxConnretran f_id, ktx_type = type\<rparr>) } } }"

definition nicif_connection_winretransmit :: "nicif \<Rightarrow> u32 \<Rightarrow> u32 \<Rightarrow> u16 \<Rightarrow> (int \<times> nicif) option" where
  "nicif_connection_winretransmit = request_retransmit FLEXTCP_PL_KTX_WINRETRAN"

definition nicif_connection_retransmit :: "nicif \<Rightarrow> u32 \<Rightarrow> u32 \<Rightarrow> u16 \<Rightarrow> (int \<times> nicif) option" where
  "nicif_connection_retransmit = request_retransmit FLEXTCP_PL_KTX_CONNRETRAN"

text \<open>A packet is sent in two steps through the queue of core 0: the result is the address of the buffer and the new tail.\<close>

definition nicif_tx_alloc :: "nicif \<Rightarrow> u16 \<Rightarrow> ((u64 \<times> u32) option \<times> nicif) option" where
  "nicif_tx_alloc st len = do {
     r \<leftarrow> ktx_try_alloc st 0;
     case r of None \<Rightarrow> Some (None, st)
     | Some (i, tail) \<Rightarrow> do {
         ktx \<leftarrow> ktx_get st 0 i;
         let addr = ni_txbufs st 0 i;
         Some (Some (addr, tail), ktx_put st 0 i (ktx\<lparr>ktx_msg_of := KtxPacket addr len\<rparr>)) } }"

definition nicif_tx_send :: "nicif \<Rightarrow> u32 \<Rightarrow> bool \<Rightarrow> nicif option" where
  "nicif_tx_send st opaque no_ts = do {
     let tail = (if opaque = 0 then ni_txq_len st - 1 else opaque - 1);
     ktx \<leftarrow> ktx_get st 0 tail;
     let st = ktx_put st 0 tail (ktx\<lparr>ktx_type := if \<not> no_ts then FLEXTCP_PL_KTX_PACKET else FLEXTCP_PL_KTX_PACKET_NOTS\<rparr>);
     Some (st\<lparr>ni_txq_tail := (ni_txq_tail st)(0 := opaque)\<rparr>) }"

end
