(* ===== verification/Nicif_Table.thy ===== *)
theory Nicif_Table
  imports Nicif
begin

text \<open>
  The flow lookup table as a map from connections to flow identifiers: adding and removing a connection
  in the slow path (\<open>Nicif\<close>) are updates of that map, and the fast path's lookup (\<open>Flow_Table\<close>) reads it.
\<close>

unbundle bit_operations_syntax

section \<open>Slots\<close>

text \<open>\<open>slot j m\<close> is the \<open>m\<close>-th slot from the slot of hash \<open>j\<close> on, around the end of the table.\<close>

definition slot :: "u32 \<Rightarrow> nat \<Rightarrow> u32" where
  "slot j m = take_bit 18 (j + of_nat m)"

lemma mod_entries: "x mod HT_ENTRIES = take_bit 18 x"
  by (simp add: HT_ENTRIES_def take_bit_eq_mod)

lemma slot_0: "h mod HT_ENTRIES = slot h 0"
  by (simp add: slot_def mod_entries)

lemma unat_slot: "unat (slot j m) = (unat j + m) mod 262144"
proof -
  have "unat (slot j m) = unat (j + of_nat m) mod 262144"
    by (simp add: slot_def take_bit_eq_mod unat_mod)
  also have "\<dots> = (unat j + m) mod 262144"
    by (simp add: unat_word_ariths unsigned_of_nat take_bit_eq_mod mod_mod_cancel mod_add_right_eq)
  finally show ?thesis .
qed

lemma slot_of_slot: "slot (slot j a) m = slot j (a + m)"
  by (simp add: word_unat_eq_iff unat_slot mod_add_left_eq add.assoc)

lemma slot_Suc: "(slot j m + 1) mod HT_ENTRIES = slot j (Suc m)"
  using slot_of_slot [of j m 1] by (simp add: mod_entries slot_def [of "slot j m"])

lemma slot_neq:
  assumes "a < b" "b - a < 262144"
  shows "slot j a \<noteq> slot j b"
proof
  assume "slot j a = slot j b"
  then have "(unat j + b) mod 262144 = (unat j + a) mod 262144" using unat_slot by metis
  then have "262144 dvd b - a" using assms(1) mod_eq_dvd_iff_nat [of "unat j + a" "unat j + b" 262144] by simp
  then show False using assms by (auto dest: dvd_imp_le)
qed

lemma slot_diff:
  assumes "a \<le> b" "b - a < 262144"
  shows "(slot j b - slot j a) mod HT_ENTRIES = of_nat (b - a)"
proof -
  define s n where "s = slot j a" and "n = b - a"
  have b: "slot j b = slot s n" using assms by (simp add: s_def n_def slot_of_slot)
  have S: "unat s < 262144" by (simp add: s_def unat_slot)
  have n: "n < 262144" using assms by (simp add: n_def)
  have u: "unat (slot s n) = (if unat s + n < 262144 then unat s + n else unat s + n - 262144)"
    unfolding unat_slot using S n by (intro mod_below_twice) linarith
  have "unat ((slot s n - s) mod HT_ENTRIES) = n"
  proof (cases "unat s + n < 262144")
    case True
    then show ?thesis unfolding unat_mod unat_sub_if' u using n by (simp add: HT_ENTRIES_def)
  next
    case False
    then have "unat s + n - 262144 + 4294967296 - unat s = 16383 * 262144 + n" using S n by linarith
    moreover have "(16383 * 262144 + n) mod 262144 = n" using n mod_mult_self3 [of 16383 262144 n] by simp
    moreover have "\<not> unat s \<le> unat s + n - 262144" using False n by linarith
    ultimately show ?thesis unfolding unat_mod unat_sub_if' u using False by (simp add: HT_ENTRIES_def)
  qed
  moreover have "unat (of_nat n :: u32) = n" using n by (simp add: unsigned_of_nat take_bit_eq_mod)
  ultimately show ?thesis unfolding b s_def [symmetric] n_def [symmetric] by (simp add: word_unat_eq_iff)
qed

lemma slot_back: "(slot j (a + 4) - HT_NBSZ) mod HT_ENTRIES = slot j a"
proof -
  define Y where "Y = (unat j + a) mod 262144"
  have Y: "Y < 262144" by (simp add: Y_def)
  have "unat (slot j (a + 4)) = (Y + 4) mod 262144" by (simp add: unat_slot Y_def mod_add_left_eq add.assoc)
  then have u: "unat (slot j (a + 4)) = (if Y + 4 < 262144 then Y + 4 else Y + 4 - 262144)"
    using mod_below_twice [of "Y + 4" 262144] Y by simp
  have "unat ((slot j (a + 4) - HT_NBSZ) mod HT_ENTRIES) = Y"
  proof (cases "Y + 4 < 262144")
    case True
    then show ?thesis unfolding unat_mod unat_sub_if' u using Y by (simp add: HT_ENTRIES_def HT_NBSZ_def)
  next
    case False
    then have "Y + 4 - 262144 + 4294967296 - 4 = 16383 * 262144 + Y" using Y by linarith
    moreover have "(16383 * 262144 + Y) mod 262144 = Y" using Y mod_mult_self3 [of 16383 262144 Y] by simp
    ultimately show ?thesis unfolding unat_mod unat_sub_if' u using False Y by (simp add: HT_ENTRIES_def HT_NBSZ_def)
  qed
  then show ?thesis by (simp add: word_unat_eq_iff unat_slot Y_def)
qed

lemma slot_lt: "slot j a < HT_ENTRIES"
  using unat_slot [of j a] by (simp add: word_less_nat_alt HT_ENTRIES_def)

text \<open>The condition of the loop that moves the free slot back: it is not among the first four.\<close>

lemma slot_outside_iff:
  assumes "f < 262144"
  shows "slot_outside (slot j 0) (slot j 4) (slot j f) \<longleftrightarrow> 4 \<le> f"
proof -
  define J where "J = unat j mod 262144"
  have J: "J < 262144" by (simp add: J_def)
  have u: "unat (slot j m) = (J + m) mod 262144" for m by (simp add: unat_slot J_def mod_add_left_eq)
  have m: "(J + m) mod 262144 = (if J + m < 262144 then J + m else J + m - 262144)" if "m < 262144" for m
    using J that by (intro mod_below_twice) linarith
  show ?thesis unfolding slot_outside_def word_less_nat_alt word_le_nat_alt u
    using J assms by (simp add: m) (auto split: if_splits)
qed

section \<open>Searching\<close>

lemma slot_scan_ok:
  assumes "n < 262144"
  shows "\<exists>m \<le> n. slot_scan ht (slot j a) (slot j (a + n)) d = Some (slot j (a + m), d + of_nat m) \<and>
    (\<forall>q < m. hte_valid (ht (slot j (a + q)))) \<and> (m < n \<longrightarrow> \<not> hte_valid (ht (slot j (a + m))))"
  using assms
proof (induction n arbitrary: a d)
  case 0
  then show ?case by (simp add: slot_scan.simps)
next
  case (Suc n)
  have ne: "slot j a \<noteq> slot j (a + Suc n)" using slot_neq [of a "a + Suc n" j] Suc.prems by simp
  show ?case
  proof (cases "hte_valid (ht (slot j a))")
    case False
    then show ?thesis by (intro exI [where x = 0]) (simp add: slot_scan.simps [of ht "slot j a"])
  next
    case True
    obtain m where m: "m \<le> n" "slot_scan ht (slot j (Suc a)) (slot j (Suc a + n)) (d + 1) = Some (slot j (Suc a + m), d + 1 + of_nat m)"
        "\<forall>q < m. hte_valid (ht (slot j (Suc a + q)))" "m < n \<longrightarrow> \<not> hte_valid (ht (slot j (Suc a + m)))"
      using Suc.IH [of "Suc a" "d + 1"] Suc.prems by auto
    have "slot_scan ht (slot j a) (slot j (a + Suc n)) d = Some (slot j (a + Suc m), d + of_nat (Suc m))"
      using True ne m(2) by (subst slot_scan.simps) (simp add: slot_Suc add.assoc)
    moreover have "hte_valid (ht (slot j (a + q)))" if "q < Suc m" for q using that True m(3) by (cases q) auto
    ultimately show ?thesis using m(1,4) by (intro exI [where x = "Suc m"]) auto
  qed
qed

lemma slot_swap_ok:
  assumes "n \<le> 4" "\<And>q. q < n \<Longrightarrow> hte_valid (ht (slot j (a + q)))"
  shows "\<exists>m \<le> n. slot_swap ht (slot j a) (slot j (a + n)) = Some (slot j (a + m)) \<and>
    (m < n \<longrightarrow> of_nat (n - m) \<le> HT_NBSZ - 1 - hte_dist (ht (slot j (a + m))))"
  using assms
proof (induction n arbitrary: a)
  case 0
  then show ?case by (simp add: slot_swap.simps)
next
  case (Suc n)
  have ne: "slot j a \<noteq> slot j (a + Suc n)" using slot_neq [of a "a + Suc n" j] Suc.prems by simp
  have v: "hte_valid (ht (slot j a))" using Suc.prems(2) [of 0] by simp
  have df: "(slot j (a + Suc n) - slot j a) mod HT_ENTRIES = of_nat (Suc n)" using slot_diff [of a "a + Suc n" j] Suc.prems(1) by simp
  note step = slot_swap.simps [of ht "slot j a" "slot j (a + Suc n)", unfolded df slot_Suc]
  show ?case
  proof (cases "of_nat (Suc n) \<le> HT_NBSZ - 1 - hte_dist (ht (slot j a))")
    case True
    then show ?thesis using ne v by (intro exI [where x = 0]) (simp only: step if_False, simp)
  next
    case False
    have "hte_valid (ht (slot j (Suc a + q)))" if "q < n" for q using Suc.prems(2) [of "Suc q"] that by simp
    then obtain m where m: "m \<le> n" "slot_swap ht (slot j (Suc a)) (slot j (Suc a + n)) = Some (slot j (Suc a + m))"
        "m < n \<longrightarrow> of_nat (n - m) \<le> HT_NBSZ - 1 - hte_dist (ht (slot j (Suc a + m)))"
      using Suc.IH [of "Suc a"] Suc.prems by auto
    have "slot_swap ht (slot j a) (slot j (a + Suc n)) = Some (slot j (a + Suc m))"
      using False ne v m(2) by (simp only: step if_False) simp
    then show ?thesis using m(1,3) by (intro exI [where x = "Suc m"]) auto
  qed
qed

section \<open>Entries\<close>

text \<open>\<open>near\<close>: an entry is in one of the four slots that a lookup inspects. \<open>exact\<close>: it also records which one.\<close>

definition near :: "flextcp_pl_flowhte \<Rightarrow> u32 \<Rightarrow> bool" where
  "near e k \<longleftrightarrow> (\<exists>d < 4. k = slot (hte_flow_hash e) d)"

definition exact :: "flextcp_pl_flowhte \<Rightarrow> u32 \<Rightarrow> bool" where
  "exact e k \<longleftrightarrow> (\<exists>d < 4. k = slot (hte_flow_hash e) d \<and> hte_dist e = of_nat d)"

definition same_entries :: "(u32 \<Rightarrow> flextcp_pl_flowhte) \<Rightarrow> (u32 \<Rightarrow> flextcp_pl_flowhte) \<Rightarrow> bool" where
  "same_entries ht ht' \<longleftrightarrow>
     (\<exists>f. bij f \<and> (\<forall>k. hte_valid (ht' (f k)) = hte_valid (ht k) \<and> (hte_valid (ht k) \<longrightarrow>
        hte_fid (ht' (f k)) = hte_fid (ht k) \<and> hte_flow_hash (ht' (f k)) = hte_flow_hash (ht k))))"

lemma exact_near: "exact e k \<Longrightarrow> near e k"
  by (auto simp: exact_def near_def)

lemma same_entries_refl: "same_entries ht ht"
  unfolding same_entries_def by (intro exI [where x = id]) simp

lemma same_entries_trans:
  assumes "same_entries a b" "same_entries b c"
  shows "same_entries a c"
proof -
  obtain f g where "bij f" "bij g"
    "\<forall>k. hte_valid (b (f k)) = hte_valid (a k) \<and> (hte_valid (a k) \<longrightarrow> hte_fid (b (f k)) = hte_fid (a k) \<and> hte_flow_hash (b (f k)) = hte_flow_hash (a k))"
    "\<forall>k. hte_valid (c (g k)) = hte_valid (b k) \<and> (hte_valid (b k) \<longrightarrow> hte_fid (c (g k)) = hte_fid (b k) \<and> hte_flow_hash (c (g k)) = hte_flow_hash (b k))"
    using assms by (auto simp: same_entries_def)
  then show ?thesis unfolding same_entries_def by (intro exI [where x = "g \<circ> f"]) (auto intro: bij_comp)
qed

text \<open>The three parts of an entry's flow identifier.\<close>

lemma hte_parts:
  fixes d f :: u32
  assumes "d < 4" "f < 0x20000000" "hte_flow_id e = FLEXNIC_PL_FLOWHTE_VALID OR push_bit FLEXNIC_PL_FLOWHTE_POSSHIFT d OR f"
  shows "hte_valid e" "hte_dist e = d" "hte_fid e = f"
proof -
  have d: "n < 2" if "bit d n" for n using assms(1) that bit_below [of d 2 n] by (cases "n < 2") (simp_all add: word_less_nat_alt)
  have f: "n < 29" if "bit f n" for n using assms(2) that bit_below [of f 29 n] by (cases "n < 29") (simp_all add: word_less_nat_alt)
  have v: "FLEXNIC_PL_FLOWHTE_VALID = push_bit 31 1" by (simp add: FLEXNIC_PL_FLOWHTE_VALID_def)
  have "bit (hte_flow_id e AND FLEXNIC_PL_FLOWHTE_VALID) 31"
    unfolding assms(3) v by (simp add: bit_and_iff bit_or_iff bit_push_bit_iff)
  then show "hte_valid e" by (auto simp: hte_valid_def)
  have m: "HT_NBSZ - 1 = mask 2" "push_bit FLEXNIC_PL_FLOWHTE_POSSHIFT 1 - 1 = (mask 29 :: u32)"
    by (simp_all add: HT_NBSZ_def FLEXNIC_PL_FLOWHTE_POSSHIFT_def mask_numeral)
  show "hte_dist e = d" unfolding hte_dist_def assms(3) v m FLEXNIC_PL_FLOWHTE_POSSHIFT_def
    by (rule bit_word_eqI) (auto simp: bit_simps bit_1_iff dest: d f simp del: push_bit_of_1)
  show "hte_fid e = f" unfolding hte_fid_def assms(3) v m unfolding FLEXNIC_PL_FLOWHTE_POSSHIFT_def
    by (rule bit_word_eqI) (auto simp: bit_simps bit_1_iff dest: d f simp del: push_bit_of_1)
qed

lemma hte_dist_lt: "hte_dist e < 4"
proof -
  have "hte_dist e = take_bit 2 (drop_bit FLEXNIC_PL_FLOWHTE_POSSHIFT (hte_flow_id e))"
    by (simp add: hte_dist_def HT_NBSZ_def take_bit_eq_mask mask_numeral)
  also have "\<dots> < 4" by (simp add: take_bit_eq_mod word_less_nat_alt unat_mod)
  finally show ?thesis .
qed

lemma hte_fid_lt: "hte_fid e < 0x20000000"
proof -
  have "hte_fid e = take_bit 29 (hte_flow_id e)"
    by (simp add: hte_fid_def FLEXNIC_PL_FLOWHTE_POSSHIFT_def take_bit_eq_mask mask_numeral)
  also have "\<dots> < 0x20000000" by (simp add: take_bit_eq_mod word_less_nat_alt unat_mod)
  finally show ?thesis .
qed

lemma slot_move_entries:
  assumes "hte_valid (ht i)" "\<not> hte_valid (ht k)"
  shows "same_entries ht (slot_move ht i k)" "\<not> hte_valid (slot_move ht i k i)"
    "hte_valid (slot_move ht i k k)" "hte_flow_hash (slot_move ht i k k) = hte_flow_hash (ht i)"
    "x \<noteq> i \<Longrightarrow> x \<noteq> k \<Longrightarrow> slot_move ht i k x = ht x"
proof -
  have ik: "i \<noteq> k" using assms by auto
  let ?ht = "slot_move ht i k"
  have k: "?ht k = \<lparr>hte_flow_id = FLEXNIC_PL_FLOWHTE_VALID OR push_bit FLEXNIC_PL_FLOWHTE_POSSHIFT (hte_dist (ht i)) OR hte_fid (ht i),
      hte_flow_hash = hte_flow_hash (ht i)\<rparr>" using ik by (simp add: slot_move_def Let_def)
  have P: "hte_valid (?ht k)" "hte_fid (?ht k) = hte_fid (ht i)"
    using hte_parts [OF hte_dist_lt hte_fid_lt, of "?ht k"] by (simp_all add: k)
  show "hte_valid (?ht k)" by (rule P(1))
  show "hte_flow_hash (?ht k) = hte_flow_hash (ht i)" by (simp add: k)
  show i: "\<not> hte_valid (?ht i)" using ik by (simp add: slot_move_def Let_def hte_valid_def)
  show o: "x \<noteq> i \<Longrightarrow> x \<noteq> k \<Longrightarrow> ?ht x = ht x" for x by (simp add: slot_move_def Let_def)
  let ?t = "id(i := k, k := i)"
  have "bij ?t" by (rule o_bij [of ?t]) (auto simp: fun_eq_iff)
  moreover have "hte_valid (?ht (?t x)) = hte_valid (ht x) \<and> (hte_valid (ht x) \<longrightarrow>
      hte_fid (?ht (?t x)) = hte_fid (ht x) \<and> hte_flow_hash (?ht (?t x)) = hte_flow_hash (ht x))" for x
    using P i o [of x] k assms by (cases "x = i"; cases "x = k") simp_all
  ultimately show "same_entries ht ?ht" unfolding same_entries_def by blast
qed

definition all_near :: "(u32 \<Rightarrow> flextcp_pl_flowhte) \<Rightarrow> bool" where
  "all_near ht \<longleftrightarrow> (\<forall>k. hte_valid (ht k) \<longrightarrow> near (ht k) k)"

lemma moved_near:
  assumes ex: "exact e (slot h a)" and m: "of_nat n \<le> HT_NBSZ - 1 - hte_dist e" "n \<le> 4" and e': "hte_flow_hash e' = hte_flow_hash e"
  shows "near e' (slot h (a + n))"
proof -
  obtain d where d: "d < 4" "slot h a = slot (hte_flow_hash e) d" "hte_dist e = of_nat d" using ex by (auto simp: exact_def)
  have "unat (of_nat n :: u32) = n" "unat (of_nat d :: u32) = d" using m(2) d(1) by (simp_all add: unsigned_of_nat take_bit_eq_mod)
  moreover have "unat (HT_NBSZ - 1 - of_nat d) = 3 - d" using d(1) \<open>unat (of_nat d :: u32) = d\<close>
    by (subst unat_sub_le) (simp_all add: HT_NBSZ_def)
  ultimately have "n \<le> 3 - d" using m(1) d(3) by (simp add: word_le_nat_alt)
  then have "d + n < 4" using d(1) by linarith
  moreover have "slot h (a + n) = slot (hte_flow_hash e) (d + n)" using d(2) slot_of_slot by metis
  ultimately show ?thesis using e' unfolding near_def by metis
qed

lemma slot_shift_ok:
  assumes "f \<le> 20" "\<And>q. q < f \<Longrightarrow> hte_valid (ht (slot h q))" "\<not> hte_valid (ht (slot h f))"
  shows "\<exists>r ht'. slot_shift ht (slot h 0) (slot h 4) (slot h f) = Some (r, ht') \<and> same_entries ht ht' \<and>
    (case r of None \<Rightarrow> True | Some i \<Rightarrow> \<exists>d < 4. i = slot h d \<and> \<not> hte_valid (ht' i)) \<and>
    (all_near ht \<and> (\<forall>q < f. exact (ht (slot h q)) (slot h q)) \<longrightarrow> all_near ht')"
  using assms
proof (induction f arbitrary: ht rule: less_induct)
  case (less f)
  have out: "slot_outside (slot h 0) (slot h 4) (slot h f) \<longleftrightarrow> 4 \<le> f" using less.prems(1) by (intro slot_outside_iff) simp
  note step = slot_shift.simps [of ht "slot h 0" "slot h 4" "slot h f"]
  show ?case
  proof (cases "4 \<le> f")
    case False
    then have "slot_shift ht (slot h 0) (slot h 4) (slot h f) = Some (Some (slot h f), ht)" unfolding step out by simp
    then show ?thesis using same_entries_refl less.prems(3) False by (auto simp: not_le)
  next
    case True
    then obtain a where f: "f = a + 4" by (metis add.commute le_Suc_ex)
    obtain m where m: "m \<le> 4" "slot_swap ht (slot h a) (slot h (a + 4)) = Some (slot h (a + m))"
        "m < 4 \<longrightarrow> of_nat (4 - m) \<le> HT_NBSZ - 1 - hte_dist (ht (slot h (a + m)))"
      using slot_swap_ok [of 4 ht h a] less.prems(2) f by auto
    show ?thesis
    proof (cases "m = 4")
      case True
      then have "slot_shift ht (slot h 0) (slot h 4) (slot h f) = Some (None, ht)"
        unfolding step out using \<open>4 \<le> f\<close> unfolding f slot_back m(2) Let_def by simp
      then show ?thesis using same_entries_refl by auto
    next
      case False
      let ?i = "slot h (a + m)" and ?k = "slot h f"
      have lt: "a + m < f" using False m(1) f by simp
      have ne: "slot h q \<noteq> slot h f" if "q < f" for q using slot_neq [of q f h] that less.prems(1) by simp
      have vi: "hte_valid (ht ?i)" using less.prems(2) lt by simp
      note M = slot_move_entries [OF vi less.prems(3)]
      let ?ht = "slot_move ht ?i ?k"
      have keep: "?ht (slot h q) = ht (slot h q)" if "q < a + m" for q
        using M(5) [of "slot h q"] ne [of q] slot_neq [of q "a + m" h] that lt less.prems(1) by simp
      have "slot_shift ht (slot h 0) (slot h 4) ?k = slot_shift ?ht (slot h 0) (slot h 4) ?i"
        unfolding step out using \<open>4 \<le> f\<close> ne [OF lt] less.prems(3) unfolding f slot_back m(2) Let_def by simp
      moreover obtain r ht' where r: "slot_shift ?ht (slot h 0) (slot h 4) ?i = Some (r, ht')" "same_entries ?ht ht'"
          "case r of None \<Rightarrow> True | Some i \<Rightarrow> \<exists>d < 4. i = slot h d \<and> \<not> hte_valid (ht' i)"
          "all_near ?ht \<and> (\<forall>q < a + m. exact (?ht (slot h q)) (slot h q)) \<longrightarrow> all_near ht'"
        using less.IH [OF lt, of ?ht] less.prems(1,2) lt keep M(2) by auto
      moreover have "all_near ?ht" if an: "all_near ht" and ex: "\<forall>q < f. exact (ht (slot h q)) (slot h q)"
      proof -
        have "near (?ht ?k) (slot h (a + m + (4 - m)))"
          using m(3) False m(1) ex lt by (intro moved_near [OF _ _ _ M(4)]) auto
        then have "near (?ht ?k) ?k" using m(1) f by simp
        then show ?thesis unfolding all_near_def using an M(2,5) unfolding all_near_def by metis
      qed
      ultimately show ?thesis using same_entries_trans [OF M(1) r(2)] keep lt by auto
    qed
  qed
qed

definition all_exact :: "(u32 \<Rightarrow> flextcp_pl_flowhte) \<Rightarrow> bool" where
  "all_exact ht \<longleftrightarrow> (\<forall>k. hte_valid (ht k) \<longrightarrow> exact (ht k) k)"

lemma flow_slot_alloc_ok:
  "\<exists>r ht'. flow_slot_alloc ht h = Some (r, ht') \<and> same_entries ht ht' \<and>
    (case r of None \<Rightarrow> True | Some (i, d) \<Rightarrow> \<exists>e < 4. i = slot h e \<and> d = of_nat e \<and> \<not> hte_valid (ht' i)) \<and>
    (all_exact ht \<longrightarrow> all_near ht') \<and> ((\<exists>q < 4. \<not> hte_valid (ht (slot h q))) \<longrightarrow> r \<noteq> None \<and> ht' = ht)"
proof -
  have jl: "h mod HT_ENTRIES = slot h 0" by (rule slot_0)
  have ll: "(slot h 0 + HT_NBSZ) mod HT_ENTRIES = slot h 4" "(slot h 4 + 4 * HT_NBSZ) mod HT_ENTRIES = slot h 20"
    using slot_of_slot [of h 0 4] slot_of_slot [of h 4 16]
    by (simp_all add: mod_entries HT_NBSZ_def slot_def [of "slot h 0"] slot_def [of "slot h 4"])
  have en: "all_near ht" if "all_exact ht" using that exact_near by (auto simp: all_exact_def all_near_def)
  obtain m where m: "m \<le> 4" "slot_scan ht (slot h 0) (slot h 4) 0 = Some (slot h m, of_nat m)" "\<forall>q < m. hte_valid (ht (slot h q))"
      "m < 4 \<longrightarrow> \<not> hte_valid (ht (slot h m))"
    using slot_scan_ok [of 4 ht h 0 0] by auto
  show ?thesis
  proof (cases "m = 4")
    case False
    then have lt: "m < 4" using m(1) by simp
    then have "slot h m \<noteq> slot h 4" using slot_neq [of m 4 h] by simp
    then have "flow_slot_alloc ht h = Some (Some (slot h m, of_nat m), ht)"
      unfolding flow_slot_alloc_def Let_def jl ll m(2) by simp
    then show ?thesis using lt m(4) same_entries_refl en by auto
  next
    case True
    obtain n where n: "n \<le> 16" "slot_scan ht (slot h 4) (slot h 20) 0 = Some (slot h (4 + n), of_nat n)"
        "\<forall>q < n. hte_valid (ht (slot h (4 + q)))" "n < 16 \<longrightarrow> \<not> hte_valid (ht (slot h (4 + n)))"
      using slot_scan_ok [of 16 ht h 4 0] by auto
    have full: "\<not> (\<exists>q < 4. \<not> hte_valid (ht (slot h q)))" using m(3) True by blast
    note unf = flow_slot_alloc_def Let_def jl ll m(2) [unfolded True]
    show ?thesis
    proof (cases "n = 16")
      case True
      then have "flow_slot_alloc ht h = Some (None, ht)" unfolding unf using n(2) by simp
      then show ?thesis using same_entries_refl en full by auto
    next
      case False
      then have lt: "4 + n < 20" using n(1) by simp
      then have ne: "slot h (4 + n) \<noteq> slot h 20" using slot_neq [of "4 + n" 20 h] by simp
      have v: "hte_valid (ht (slot h q))" if "q < 4 + n" for q
        using m(3) True n(3) that by (cases "q < 4") (auto dest: spec [where x = "q - 4"])
      obtain r ht' where r: "slot_shift ht (slot h 0) (slot h 4) (slot h (4 + n)) = Some (r, ht')" "same_entries ht ht'"
          "case r of None \<Rightarrow> True | Some i \<Rightarrow> \<exists>d < 4. i = slot h d \<and> \<not> hte_valid (ht' i)"
          "all_near ht \<and> (\<forall>q < 4 + n. exact (ht (slot h q)) (slot h q)) \<longrightarrow> all_near ht'"
        using slot_shift_ok [of "4 + n" ht h] v n(4) False n(1) lt by auto
      have an: "all_exact ht \<longrightarrow> all_near ht'" using r(4) en v by (auto simp: all_exact_def)
      have "flow_slot_alloc ht h = (case r of None \<Rightarrow> Some (None, ht') | Some i \<Rightarrow> Some (Some (i, (i - slot h 0) mod HT_ENTRIES), ht'))"
        unfolding unf using n(2) ne r(1) by simp
      then show ?thesis using r(2,3) an full slot_diff [of 0 _ h] by (cases r) auto
    qed
  qed
qed

section \<open>The table as a map\<close>

type_synonym flow_key = "beui32 \<times> beui32 \<times> beui16 \<times> beui16"

definition flow_key :: "flextcp_pl_flowst \<Rightarrow> flow_key" where
  "flow_key fs = (fs_out_local_ip fs, fs_out_remote_ip fs, fs_local_port fs, fs_remote_port fs)"

fun key_hash :: "fp_env \<Rightarrow> flow_key \<Rightarrow> u32" where
  "key_hash env (lip, rip, lp, rp) = flow_hash env lip rip lp rp"

definition flow_entry :: "fp_mem \<Rightarrow> flow_key \<Rightarrow> u32 \<Rightarrow> bool" where
  "flow_entry fp K f \<longleftrightarrow> (\<exists>k. hte_valid (fp_flowht fp k) \<and> hte_fid (fp_flowht fp k) = f \<and> flow_key (fp_flowst fp f) = K)"

text \<open>\<open>table_ok\<close>: every entry is within reach of the lookup, carries the hash of its flow, and no two
  entries are for the same connection.\<close>

definition table_ok :: "fp_env \<Rightarrow> fp_mem \<Rightarrow> bool" where
  "table_ok env fp \<longleftrightarrow> all_near (fp_flowht fp) \<and>
     (\<forall>k. hte_valid (fp_flowht fp k) \<longrightarrow> fs_ok (hte_fid (fp_flowht fp k)) \<and>
        hte_flow_hash (fp_flowht fp k) = key_hash env (flow_key (fp_flowst fp (hte_fid (fp_flowht fp k))))) \<and>
     (\<forall>k l. hte_valid (fp_flowht fp k) \<and> hte_valid (fp_flowht fp l) \<and>
        flow_key (fp_flowst fp (hte_fid (fp_flowht fp k))) = flow_key (fp_flowst fp (hte_fid (fp_flowht fp l))) \<longrightarrow> k = l)"

lemma fss_loop_ok:
  assumes "\<forall>k. hte_valid (fp_flowht fp k) \<longrightarrow> fs_ok (hte_fid (fp_flowht fp k))"
  shows "\<exists>r. fss_loop fp h mt (of_nat j) n = Some r \<and>
    (case r of None \<Rightarrow> \<forall>q < n. \<not> (hte_valid (fp_flowht fp (slot h (j + q))) \<and> hte_flow_hash (fp_flowht fp (slot h (j + q))) = h \<and>
          mt (fp_flowst fp (hte_fid (fp_flowht fp (slot h (j + q))))))
      | Some f \<Rightarrow> \<exists>k. hte_valid (fp_flowht fp k) \<and> hte_fid (fp_flowht fp k) = f \<and> mt (fp_flowst fp f))"
proof (induction n arbitrary: j)
  case 0
  then show ?case by simp
next
  case (Suc n)
  have sl: "(h + of_nat j) mod HT_ENTRIES = slot h j" by (simp add: mod_entries slot_def)
  have nx: "of_nat j + 1 = (of_nat (Suc j) :: u32)" by simp
  obtain r where r: "fss_loop fp h mt (of_nat (Suc j)) n = Some r"
    "case r of None \<Rightarrow> \<forall>q < n. \<not> (hte_valid (fp_flowht fp (slot h (Suc j + q))) \<and> hte_flow_hash (fp_flowht fp (slot h (Suc j + q))) = h \<and>
          mt (fp_flowst fp (hte_fid (fp_flowht fp (slot h (Suc j + q))))))
      | Some f \<Rightarrow> \<exists>k. hte_valid (fp_flowht fp k) \<and> hte_fid (fp_flowht fp k) = f \<and> mt (fp_flowst fp f)" using Suc.IH [of "Suc j"] by blast
  let ?e = "fp_flowht fp (slot h j)"
  show ?case
  proof (cases "hte_valid ?e \<and> hte_flow_hash ?e = h \<and> mt (fp_flowst fp (hte_fid ?e))")
    case True
    then have "fss_loop fp h mt (of_nat j) (Suc n) = Some (Some (hte_fid ?e))" using assms by (simp add: sl fs_get_def)
    then show ?thesis using True by auto
  next
    case False
    then have "fss_loop fp h mt (of_nat j) (Suc n) = Some r"
      using assms r(1) unfolding fss_loop.simps sl nx by (auto simp: Let_def fs_get_def)
    moreover have "\<not> (hte_valid (fp_flowht fp (slot h (j + q))) \<and> hte_flow_hash (fp_flowht fp (slot h (j + q))) = h \<and>
          mt (fp_flowst fp (hte_fid (fp_flowht fp (slot h (j + q))))))" if "r = None" "q < Suc n" for q
      using that r(2) False by (cases q) auto
    ultimately show ?thesis using r(2) by (cases r) auto
  qed
qed

definition lookup :: "fp_env \<Rightarrow> fp_mem \<Rightarrow> flow_key \<Rightarrow> u32 option option" where
  "lookup env fp K = fss_loop fp (key_hash env K) (\<lambda>fs. flow_key fs = K) 0 FLEXNIC_PL_FLOWHT_NBSZ"

lemma lookup_iff:
  assumes ok: "table_ok env fp"
  shows "\<exists>r. lookup env fp K = Some r \<and> (\<forall>f. r = Some f \<longleftrightarrow> flow_entry fp K f)"
proof -
  let ?h = "key_hash env K"
  have T: "hte_valid (fp_flowht fp k) \<Longrightarrow> fs_ok (hte_fid (fp_flowht fp k))" "all_near (fp_flowht fp)"
    "hte_valid (fp_flowht fp k) \<Longrightarrow> hte_flow_hash (fp_flowht fp k) = key_hash env (flow_key (fp_flowst fp (hte_fid (fp_flowht fp k))))"
    "hte_valid (fp_flowht fp k) \<Longrightarrow> hte_valid (fp_flowht fp l) \<Longrightarrow>
      flow_key (fp_flowst fp (hte_fid (fp_flowht fp k))) = flow_key (fp_flowst fp (hte_fid (fp_flowht fp l))) \<Longrightarrow> k = l" for k l
    using ok by (auto simp: table_ok_def)
  have z: "(of_nat 0 :: u32) = 0" by simp
  have fs: "\<forall>k. hte_valid (fp_flowht fp k) \<longrightarrow> fs_ok (hte_fid (fp_flowht fp k))" using T(1) by blast
  obtain r where r: "lookup env fp K = Some r"
    "case r of None \<Rightarrow> \<forall>q < 4. \<not> (hte_valid (fp_flowht fp (slot ?h q)) \<and> hte_flow_hash (fp_flowht fp (slot ?h q)) = ?h \<and>
          flow_key (fp_flowst fp (hte_fid (fp_flowht fp (slot ?h q)))) = K)
      | Some f \<Rightarrow> \<exists>k. hte_valid (fp_flowht fp k) \<and> hte_fid (fp_flowht fp k) = f \<and> flow_key (fp_flowst fp f) = K"
    using fss_loop_ok [OF fs, of ?h "\<lambda>fs. flow_key fs = K" 0 4] unfolding lookup_def FLEXNIC_PL_FLOWHT_NBSZ_def add_0 z
    by blast
  have "r = Some f \<longleftrightarrow> flow_entry fp K f" for f
  proof
    assume "flow_entry fp K f"
    then obtain k where k: "hte_valid (fp_flowht fp k)" "hte_fid (fp_flowht fp k) = f" "flow_key (fp_flowst fp f) = K"
      by (auto simp: flow_entry_def)
    have h: "hte_flow_hash (fp_flowht fp k) = ?h" using T(3) [OF k(1)] k by simp
    obtain q where q: "q < 4" "k = slot ?h q" using T(2) k(1) h by (auto simp: all_near_def near_def)
    show "r = Some f"
    proof (cases r)
      case None
      then show ?thesis using r(2) q k h by auto
    next
      case (Some f')
      then obtain l where "hte_valid (fp_flowht fp l)" "hte_fid (fp_flowht fp l) = f'" "flow_key (fp_flowst fp f') = K" using r(2) by auto
      then have "k = l" using T(4) [of k l] k by simp
      then show ?thesis using Some k \<open>hte_fid (fp_flowht fp l) = f'\<close> by simp
    qed
  qed (use r(2) in \<open>auto simp: flow_entry_def\<close>)
  then show ?thesis using r(1) by blast
qed

definition pkt_key :: "pkt_tcp \<Rightarrow> flow_key" where
  "pkt_key p = (ip_dest (p_ip p), ip_src (p_ip p), tcp_dest (p_tcp p), tcp_src (p_tcp p))"

lemma packet_fss_lookup:
  assumes "pkt_tcp_load (nb_buf nb) (unat (nb_off nb)) = Some p"
  shows "packet_fss env fp nb = lookup env fp (pkt_key p)"
proof -
  have "match_tcp p = (\<lambda>fs. flow_key fs = pkt_key p)" by (auto simp: match_tcp_def flow_key_def pkt_key_def fun_eq_iff)
  then show ?thesis using assms by (simp add: packet_fss_def lookup_def pkt_key_def)
qed

section \<open>Identifiers\<close>

fun ids_path :: "(u32 \<Rightarrow> u32 option) \<Rightarrow> u32 option \<Rightarrow> u32 list \<Rightarrow> bool" where
  "ids_path nx h [] \<longleftrightarrow> h = None"
| "ids_path nx h (x # xs) \<longleftrightarrow> h = Some x \<and> ids_path nx (nx x) xs"

lemma ids_path_upd [simp]: "y \<notin> set xs \<Longrightarrow> ids_path (nx(y := v)) h xs = ids_path nx h xs"
  by (induction xs arbitrary: h) auto

text \<open>The free identifiers are valid, distinct, and not used by an entry of the table.\<close>

definition ids_ok :: "nicif \<Rightarrow> u32 list \<Rightarrow> bool" where
  "ids_ok st xs \<longleftrightarrow> ids_path (fi_next (ni_ids st)) (fi_free (ni_ids st)) xs \<and> distinct xs \<and> (\<forall>x \<in> set xs. fs_ok x) \<and>
     (\<forall>k. hte_valid (fp_flowht (ni_fp st) k) \<longrightarrow> hte_fid (fp_flowht (ni_fp st) k) \<notin> set xs)"

definition nicif_ok :: "fp_env \<Rightarrow> nicif \<Rightarrow> bool" where
  "nicif_ok env st \<longleftrightarrow> table_ok env (ni_fp st) \<and> (\<exists>xs. ids_ok st xs)"

lemma fs_ok_lt: "fs_ok f \<Longrightarrow> f < 0x20000000"
  by (simp add: fs_ok_def FLEXNIC_PL_FLOWST_NUM_def word_less_nat_alt)

section \<open>Hashes\<close>

fun st64 :: "u64 \<Rightarrow> bytes" where
  "st64 w = st32 (ucast w) @ st32 (ucast (drop_bit 32 w))"

text \<open>The hypothesis about DPDK: the CRC over a byte array is computed from its words, eight bytes first.\<close>

definition crc_agrees :: "fp_env \<Rightarrow> (bytes \<Rightarrow> u32) \<Rightarrow> bool" where
  "crc_agrees env crc \<longleftrightarrow> (\<forall>a b. crc (st64 a @ st32 b) = env_crc_u32 env b (env_crc_u64 env a 0))"

lemma st64_join: "st64 (ucast a OR push_bit 32 (ucast b)) = st32 a @ st32 (b :: u32)"
proof -
  have "ucast (ucast a OR push_bit 32 (ucast b) :: u64) = a" "ucast (drop_bit 32 (ucast a OR push_bit 32 (ucast b) :: u64)) = b" for a b :: u32
    by (rule bit_word_eqI; auto simp: bit_simps dest: bit_imp_le_length)+
  then show ?thesis by (simp only: st64.simps)
qed

lemma st32_join: "st32 (ucast a OR push_bit 16 (ucast b)) = st16 a @ st16 (b :: u16)"
proof -
  have "ucast (ucast a OR push_bit 16 (ucast b) :: u32) = (ucast a :: u8)" "ucast (drop_bit 8 (ucast a OR push_bit 16 (ucast b) :: u32)) = (ucast (drop_bit 8 a) :: u8)"
    "ucast (drop_bit 16 (ucast a OR push_bit 16 (ucast b) :: u32)) = (ucast b :: u8)" "ucast (drop_bit 24 (ucast a OR push_bit 16 (ucast b) :: u32)) = (ucast (drop_bit 8 b) :: u8)" for a b :: u16
    by (rule bit_word_eqI; auto simp: bit_simps dest: bit_imp_le_length)+
  then show ?thesis by (simp only: st32.simps st16.simps append.simps)
qed

lemma slow_flow_hash_eq:
  assumes "crc_agrees env crc"
  shows "slow_flow_hash crc lip lp rip rp = key_hash env (lip, rip, lp, rp)"
  using assms unfolding crc_agrees_def slow_flow_hash_def key_hash.simps flow_hash_def
  by (metis append_assoc st32_join st64_join)

section \<open>Updates of the map\<close>

lemma lookup_cong:
  assumes "table_ok env fp" "table_ok env fp'" "\<And>f. flow_entry fp' K f = flow_entry fp K f"
  shows "lookup env fp' K = lookup env fp K"
proof -
  obtain r r' where r: "lookup env fp K = Some r" "\<forall>f. r = Some f \<longleftrightarrow> flow_entry fp K f"
    "lookup env fp' K = Some r'" "\<forall>f. r' = Some f \<longleftrightarrow> flow_entry fp' K f"
    using lookup_iff [OF assms(1), of K] lookup_iff [OF assms(2), of K] by blast
  then have "r = r'" using assms(3) by (metis option.exhaust)
  then show ?thesis using r by simp
qed

lemma lookup_entry: "table_ok env fp \<Longrightarrow> flow_entry fp K f \<Longrightarrow> lookup env fp K = Some (Some f)"
  using lookup_iff [of env fp K] by auto

lemma lookup_no_entry: "table_ok env fp \<Longrightarrow> \<forall>f. \<not> flow_entry fp K f \<Longrightarrow> lookup env fp K = Some None"
  using lookup_iff [of env fp K] by (metis option.exhaust)

lemma table_moved:
  assumes ok: "table_ok env fp" and se: "same_entries (fp_flowht fp) ht'" and an: "all_near ht'"
  shows "table_ok env (fp\<lparr>fp_flowht := ht'\<rparr>)" "flow_entry (fp\<lparr>fp_flowht := ht'\<rparr>) K f = flow_entry fp K f"
proof -
  let ?ht = "fp_flowht fp"
  obtain g where g: "bij g" "\<And>k. hte_valid (ht' (g k)) = hte_valid (?ht k)"
      "\<And>k. hte_valid (?ht k) \<Longrightarrow> hte_fid (ht' (g k)) = hte_fid (?ht k)"
      "\<And>k. hte_valid (?ht k) \<Longrightarrow> hte_flow_hash (ht' (g k)) = hte_flow_hash (?ht k)"
    using se by (auto simp: same_entries_def)
  have sur: "\<exists>l. k = g l" for k using bij_is_surj [OF g(1)] by (metis surjD)
  have inj: "g k = g l \<longleftrightarrow> k = l" for k l using bij_is_inj [OF g(1)] by (metis injD)
  have A: "(\<forall>k. hte_valid (ht' k) \<longrightarrow> P (ht' k) k) = (\<forall>k. hte_valid (?ht k) \<longrightarrow> P (ht' (g k)) (g k))" for P
    using sur g(2) by metis
  have B: "(\<forall>k l. hte_valid (ht' k) \<and> hte_valid (ht' l) \<and> Q (hte_fid (ht' k)) (hte_fid (ht' l)) \<longrightarrow> k = l) =
    (\<forall>k l. hte_valid (?ht k) \<and> hte_valid (?ht l) \<and> Q (hte_fid (?ht k)) (hte_fid (?ht l)) \<longrightarrow> k = l)" for Q
    using sur g inj by metis
  show "table_ok env (fp\<lparr>fp_flowht := ht'\<rparr>)"
    using ok an g(3,4) unfolding table_ok_def A
      A [of "\<lambda>e k. fs_ok (hte_fid e) \<and> hte_flow_hash e = key_hash env (flow_key (fp_flowst fp (hte_fid e)))"]
    by (simp add: A [of "\<lambda>e k. fs_ok (hte_fid e) \<and> hte_flow_hash e = key_hash env (flow_key (fp_flowst fp (hte_fid e)))"]
      B [of "\<lambda>a b. flow_key (fp_flowst fp a) = flow_key (fp_flowst fp b)"])
  show "flow_entry (fp\<lparr>fp_flowht := ht'\<rparr>) K f = flow_entry fp K f"
    unfolding flow_entry_def using sur g by (simp, metis)
qed

lemma table_insert:
  assumes ok: "table_ok env fp" and i: "\<not> hte_valid (fp_flowht fp i)" and f: "fs_ok f"
    and free: "\<And>k. hte_valid (fp_flowht fp k) \<Longrightarrow> hte_fid (fp_flowht fp k) \<noteq> f"
    and new: "\<And>g. \<not> flow_entry fp (flow_key fs) g"
    and e: "hte_valid e" "hte_fid e = f" "hte_flow_hash e = key_hash env (flow_key fs)" "near e i"
    and fp': "fp' = (fs_put fp f fs)\<lparr>fp_flowht := (fp_flowht fp)(i := e)\<rparr>"
  shows "table_ok env fp'" "flow_entry fp' K g = (if K = flow_key fs then g = f else flow_entry fp K g)"
proof -
  have ht: "fp_flowht fp' = (fp_flowht fp)(i := e)" "fp_flowst fp' = (fp_flowst fp)(f := fs)" by (simp_all add: fp' fs_put_def)
  have old: "hte_valid (fp_flowht fp k) \<Longrightarrow> flow_key (fp_flowst fp (hte_fid (fp_flowht fp k))) \<noteq> flow_key fs" for k
    using new by (auto simp: flow_entry_def)
  show "table_ok env fp'" using ok i f free e old unfolding table_ok_def all_near_def ht by (auto split: if_splits) metis+
  show "flow_entry fp' K g = (if K = flow_key fs then g = f else flow_entry fp K g)"
    using i free e old unfolding flow_entry_def ht by (auto split: if_splits) metis
qed

lemma table_remove:
  assumes ok: "table_ok env fp" and i: "hte_valid (fp_flowht fp i)" and e: "\<not> hte_valid e"
    and fs: "flow_key fs = flow_key (fp_flowst fp f)"
    and fp': "fp' = (fs_put fp f fs)\<lparr>fp_flowht := (fp_flowht fp)(i := e)\<rparr>"
  shows "table_ok env fp'"
    "flow_entry fp' K g = (K \<noteq> flow_key (fp_flowst fp (hte_fid (fp_flowht fp i))) \<and> flow_entry fp K g)"
proof -
  have ht: "fp_flowht fp' = (fp_flowht fp)(i := e)" "\<And>g. flow_key (fp_flowst fp' g) = flow_key (fp_flowst fp g)"
    using fs by (simp_all add: fp' fs_put_def)
  show "table_ok env fp'" using ok e unfolding table_ok_def all_near_def ht by (auto split: if_splits)
  show "flow_entry fp' K g = (K \<noteq> flow_key (fp_flowst fp (hte_fid (fp_flowht fp i))) \<and> flow_entry fp K g)"
    using ok i e unfolding flow_entry_def table_ok_def ht by (auto split: if_splits)
qed

section \<open>Adding and removing connections\<close>

definition conn_key :: "conn_params \<Rightarrow> flow_key" where
  "conn_key c = (t_beui32 (cp_out_ip_local c), t_beui32 (cp_out_ip_remote c), t_beui16 (cp_port_local c), t_beui16 (cp_port_remote c))"

lemma flow_key_conn: "flow_key (conn_flowst_tcp c fs) = conn_key c"
  by (simp add: flow_key_def conn_flowst_tcp_def conn_flowst_def conn_key_def)

lemma ids_okD:
  assumes "ids_ok st xs"
  shows "ids_path (fi_next (ni_ids st)) (fi_free (ni_ids st)) xs" "distinct xs" "x \<in> set xs \<Longrightarrow> fs_ok x"
    "hte_valid (fp_flowht (ni_fp st) k) \<Longrightarrow> hte_fid (fp_flowht (ni_fp st) k) \<notin> set xs"
  using assms by (auto simp: ids_ok_def)

lemma same_entries_fid:
  assumes "same_entries ht ht'" "hte_valid (ht' k)"
  shows "\<exists>l. hte_valid (ht l) \<and> hte_fid (ht l) = hte_fid (ht' k)"
proof -
  obtain g where g: "bij g" "\<forall>k. hte_valid (ht' (g k)) = hte_valid (ht k) \<and> (hte_valid (ht k) \<longrightarrow>
        hte_fid (ht' (g k)) = hte_fid (ht k) \<and> hte_flow_hash (ht' (g k)) = hte_flow_hash (ht k))"
    using assms(1) unfolding same_entries_def by blast
  obtain l where "k = g l" using bij_is_surj [OF g(1)] by (metis surjD)
  then show ?thesis using g(2) assms(2) by metis
qed

lemma flow_slot_alloc_cases:
  assumes ex: "all_exact (fp_flowht fp)" and ok: "table_ok env fp"
  obtains ht where "flow_slot_alloc (fp_flowht fp) h = Some (None, ht)" "table_ok env (fp\<lparr>fp_flowht := ht\<rparr>)"
      "\<And>K f. flow_entry (fp\<lparr>fp_flowht := ht\<rparr>) K f = flow_entry fp K f"
      "\<And>k. hte_valid (ht k) \<Longrightarrow> \<exists>l. hte_valid (fp_flowht fp l) \<and> hte_fid (fp_flowht fp l) = hte_fid (ht k)"
  | e ht where "flow_slot_alloc (fp_flowht fp) h = Some (Some (slot h e, of_nat e), ht)" "e < 4" "\<not> hte_valid (ht (slot h e))"
      "table_ok env (fp\<lparr>fp_flowht := ht\<rparr>)" "\<And>K f. flow_entry (fp\<lparr>fp_flowht := ht\<rparr>) K f = flow_entry fp K f"
      "\<And>k. hte_valid (ht k) \<Longrightarrow> \<exists>l. hte_valid (fp_flowht fp l) \<and> hte_fid (fp_flowht fp l) = hte_fid (ht k)"
proof -
  obtain r ht where a: "flow_slot_alloc (fp_flowht fp) h = Some (r, ht)" "same_entries (fp_flowht fp) ht" "all_near ht"
      "case r of None \<Rightarrow> True | Some (i, d) \<Rightarrow> \<exists>e < 4. i = slot h e \<and> d = of_nat e \<and> \<not> hte_valid (ht i)"
    using flow_slot_alloc_ok [of "fp_flowht fp" h] ex by blast
  note m = table_moved [OF ok a(2,3)] same_entries_fid [OF a(2)]
  show thesis
  proof (cases r)
    case None
    then show thesis using that(1) a(1) m by blast
  next
    case (Some p)
    then obtain e where "r = Some (slot h e, of_nat e)" "e < 4" "\<not> hte_valid (ht (slot h e))" using a(4) by (cases p) auto
    then show thesis using that(2) a(1) m by blast
  qed
qed

definition add_spec :: "fp_env \<Rightarrow> nicif \<Rightarrow> flow_key \<Rightarrow> u32 option \<Rightarrow> nicif \<Rightarrow> bool" where
  "add_spec env st K r st' \<longleftrightarrow> nicif_ok env st' \<and>
     (\<forall>K'. lookup env (ni_fp st') K' = (if K' = K \<and> r \<noteq> None then Some r else lookup env (ni_fp st) K'))"

lemma conn_add_ok:
  assumes ok: "nicif_ok env st" and ex: "all_exact (fp_flowht (ni_fp st))"
    and new: "lookup env (ni_fp st) K = Some None" and key: "\<And>fs. flow_key (fs_of fs) = K"
  shows "\<exists>r st'. conn_add (key_hash env K) fs_of st = Some (r, st') \<and> add_spec env st K r st'"
proof -
  obtain xs where tb: "table_ok env (ni_fp st)" and xs: "ids_ok st xs" using ok by (auto simp: nicif_ok_def)
  note I = ids_okD [OF xs]
  have no: "\<not> flow_entry (ni_fp st) K g" for g using lookup_entry [OF tb] new by fastforce
  show ?thesis
  proof (cases xs)
    case Nil
    then have "conn_add (key_hash env K) fs_of st = Some (None, st)" using I(1) by (simp add: conn_add_def flow_id_alloc_def)
    then show ?thesis using ok by (simp add: add_spec_def)
  next
    case (Cons f ys)
    then have fr: "fi_free (ni_ids st) = Some f" "ids_path (fi_next (ni_ids st)) (fi_next (ni_ids st) f) ys" and f: "fs_ok f" "f \<notin> set ys" "distinct ys"
      using I by auto
    let ?ids = "(ni_ids st)\<lparr>fi_free := fi_next (ni_ids st) f\<rparr>"
    have al: "flow_id_alloc (ni_ids st) = Some (f, ?ids)" by (simp add: flow_id_alloc_def fr)
    show ?thesis
    proof (cases rule: flow_slot_alloc_cases [OF ex tb, of "key_hash env K"])
      case (1 ht)
      let ?st = "st\<lparr>ni_ids := flow_id_free ?ids f, ni_fp := (ni_fp st)\<lparr>fp_flowht := ht\<rparr>\<rparr>"
      have "conn_add (key_hash env K) fs_of st = Some (None, ?st)" by (simp add: conn_add_def al 1(1))
      moreover have "hte_valid (ht k) \<Longrightarrow> hte_fid (ht k) \<notin> set xs" for k using 1(4) I(4) by metis
      then have "ids_ok ?st xs" using I(2,3) f fr(2) Cons by (auto simp: ids_ok_def flow_id_free_def)
      ultimately show ?thesis using 1 lookup_cong [OF tb 1(2)] by (auto simp: add_spec_def nicif_ok_def)
    next
      case (2 e ht)
      let ?fp = "(ni_fp st)\<lparr>fp_flowht := ht\<rparr>"
      define fs where "fs = fs_of (fp_flowst (ni_fp st) f)"
      define en where "en = \<lparr>hte_flow_id = FLEXNIC_PL_FLOWHTE_VALID OR push_bit FLEXNIC_PL_FLOWHTE_POSSHIFT (of_nat e) OR f,
                 hte_flow_hash = key_hash env K\<rparr>"
      define fp' where "fp' = (fs_put ?fp f fs)\<lparr>fp_flowht := ht(slot (key_hash env K) e := en)\<rparr>"
      have d: "(of_nat e :: u32) < 4" using 2(2) by (simp add: word_less_nat_alt unsigned_of_nat take_bit_eq_mod)
      have E: "hte_valid en" "hte_fid en = f" "hte_flow_hash en = key_hash env K"
        using hte_parts [OF d fs_ok_lt [OF f(1)], of en] by (simp_all add: en_def)
      have nr: "near en (slot (key_hash env K) e)" using 2(2) E(3) by (auto simp: near_def)
      have fk: "flow_key fs = K" by (simp add: fs_def key)
      have un: "hte_valid (ht k) \<Longrightarrow> hte_fid (ht k) \<notin> set xs" for k using 2(6) I(4) by metis
      have "conn_add (key_hash env K) fs_of st = Some (Some f, st\<lparr>ni_ids := ?ids, ni_fp := fp'\<rparr>)"
        using d f(1) by (simp add: conn_add_def al 2(1) slot_lt HT_NBSZ_def fs_get_def fs_put_def fp'_def fs_def en_def)
      moreover have T: "table_ok env fp'" "flow_entry fp' K' g = (if K' = K then g = f else flow_entry (ni_fp st) K' g)" for K' g
        using table_insert [OF 2(4) _ f(1), of "slot (key_hash env K) e" fs en fp'] un E nr 2(3,5) no Cons fk
        by (auto simp: fp'_def)
      moreover have "ids_ok (st\<lparr>ni_ids := ?ids, ni_fp := fp'\<rparr>) ys" using fr(2) f I(3) un E Cons
        by (auto simp: ids_ok_def fp'_def)
      moreover have "lookup env fp' K' = (if K' = K then Some (Some f) else lookup env (ni_fp st) K')" for K'
        using T lookup_entry [OF T(1)] lookup_cong [OF tb T(1)] by auto
      ultimately show ?thesis by (auto simp: add_spec_def nicif_ok_def)
    qed
  qed
qed

lemma slot_clear_ok:
  "\<exists>r ht'. slot_clear_loop ht h f (of_nat j) n = (r, ht') \<and>
    ((\<exists>q. j \<le> q \<and> q < j + n \<and> hte_valid (ht (slot h q)) \<and> hte_flow_hash (ht (slot h q)) = h \<and> hte_fid (ht (slot h q)) = f \<and>
        r = 0 \<and> (\<exists>e. ht' = ht(slot h q := e) \<and> \<not> hte_valid e)) \<or>
     (r = - 1 \<and> ht' = ht \<and> (\<forall>q. j \<le> q \<and> q < j + n \<longrightarrow>
        \<not> (hte_valid (ht (slot h q)) \<and> hte_flow_hash (ht (slot h q)) = h \<and> hte_fid (ht (slot h q)) = f))))"
proof (induction n arbitrary: j)
  case 0
  then show ?case by auto
next
  case (Suc n)
  have sl: "(h + of_nat j) mod HT_ENTRIES = slot h j" by (simp add: mod_entries slot_def)
  have nx: "of_nat j + 1 = (of_nat (Suc j) :: u32)" by simp
  let ?e = "ht (slot h j)"
  show ?case
  proof (cases "hte_valid ?e \<and> hte_flow_hash ?e = h \<and> hte_fid ?e = f")
    case True
    let ?e' = "?e\<lparr>hte_flow_id := hte_flow_id ?e AND NOT FLEXNIC_PL_FLOWHTE_VALID\<rparr>"
    have "(hte_flow_id ?e AND NOT FLEXNIC_PL_FLOWHTE_VALID) AND FLEXNIC_PL_FLOWHTE_VALID = 0"
      by (intro bit_word_eqI) (auto simp: bit_and_iff bit_not_iff)
    then have "\<not> hte_valid ?e'" by (simp add: hte_valid_def)
    moreover have "slot_clear_loop ht h f (of_nat j) (Suc n) = (0, ht(slot h j := ?e'))" using True by (simp add: sl Let_def)
    ultimately show ?thesis using True by force
  next
    case False
    then have "slot_clear_loop ht h f (of_nat j) (Suc n) = slot_clear_loop ht h f (of_nat (Suc j)) n"
      unfolding slot_clear_loop.simps sl nx Let_def by (subst if_not_P) simp_all
    moreover have "j \<le> q \<and> q < j + Suc n \<longleftrightarrow> q = j \<or> Suc j \<le> q \<and> q < Suc j + n" for q by auto
    ultimately show ?thesis using Suc.IH [of "Suc j"] False by (metis (no_types, lifting))
  qed
qed

text \<open>A flow that is neither in the table nor in the list of free identifiers.\<close>

definition freed :: "nicif \<Rightarrow> u32 \<Rightarrow> bool" where
  "freed st f \<longleftrightarrow> fs_ok f \<and> (\<forall>k. hte_valid (fp_flowht (ni_fp st) k) \<longrightarrow> hte_fid (fp_flowht (ni_fp st) k) \<noteq> f) \<and>
     (\<forall>xs. ids_ok st xs \<longrightarrow> f \<notin> set xs)"

lemma ids_path_unique: "ids_path nx h xs \<Longrightarrow> ids_path nx h ys \<Longrightarrow> xs = ys"
  by (induction xs arbitrary: h ys) (case_tac ys; auto)+

lemma nicif_free_ok:
  assumes "nicif_ok env st" "freed st f"
  shows "\<exists>st'. nicif_connection_free st f = Some st' \<and> nicif_ok env st' \<and> ni_fp st' = ni_fp st \<and> fi_free (ni_ids st') = Some f"
proof -
  obtain xs where xs: "table_ok env (ni_fp st)" "ids_ok st xs" using assms(1) by (auto simp: nicif_ok_def)
  then have "ids_ok (st\<lparr>ni_ids := flow_id_free (ni_ids st) f\<rparr>) (f # xs)"
    using assms(2) by (auto simp: ids_ok_def flow_id_free_def freed_def)
  then show ?thesis using assms(2) xs(1) unfolding nicif_connection_free_def nicif_ok_def
    by (intro exI [where x = "st\<lparr>ni_ids := flow_id_free (ni_ids st) f\<rparr>"]) (auto simp: freed_def flow_id_free_def)
qed

lemma nicif_disable_ok:
  assumes ok: "nicif_ok env st" and crc: "crc_agrees env crc" and en: "flow_entry (ni_fp st) K f"
  shows "\<exists>r st'. nicif_connection_disable crc st f = Some (r, st') \<and> nicif_ok env st' \<and>
    (\<forall>K'. lookup env (ni_fp st') K' = (if K' = K then Some None else lookup env (ni_fp st) K')) \<and> freed st' f"
proof -
  let ?fp = "ni_fp st" let ?ht = "fp_flowht (ni_fp st)" let ?fs = "fp_flowst (ni_fp st) f"
  obtain xs where tb: "table_ok env ?fp" and xs: "ids_ok st xs" using ok by (auto simp: nicif_ok_def)
  obtain k where k: "hte_valid (?ht k)" "hte_fid (?ht k) = f" "flow_key ?fs = K" using en by (auto simp: flow_entry_def)
  have T: "fs_ok f" "hte_flow_hash (?ht k) = key_hash env K" "near (?ht k) k" using tb k by (auto simp: table_ok_def all_near_def)
  have z: "(of_nat 0 :: u32) = 0" by simp
  obtain q0 where q0: "q0 < 4" "k = slot (key_hash env K) q0" using T(2,3) by (auto simp: near_def)
  obtain q r e where c: "slot_clear_loop ?ht (key_hash env K) f 0 4 = (r, ?ht(slot (key_hash env K) q := e))" "\<not> hte_valid e"
      "hte_valid (?ht (slot (key_hash env K) q))" "hte_fid (?ht (slot (key_hash env K) q)) = f"
    using slot_clear_ok [of ?ht "key_hash env K" f 0 4] q0 k T(2) unfolding z by auto
  define fs where "fs = ?fs\<lparr>fs_rx_base_sp := fs_rx_base_sp ?fs OR FLEXNIC_PL_FLOWST_SLOWPATH\<rparr>"
  define fp' where "fp' = (fs_put ?fp f fs)\<lparr>fp_flowht := ?ht(slot (key_hash env K) q := e)\<rparr>"
  have fk: "flow_key fs = flow_key ?fs" by (simp add: flow_key_def fs_def)
  have h: "slow_flow_hash crc (fs_out_local_ip fs) (fs_local_port fs) (fs_out_remote_ip fs) (fs_remote_port fs) = key_hash env K"
    using slow_flow_hash_eq [OF crc] fk k(3) by (auto simp: flow_key_def)
  have "fs_get ?fp f = Some ?fs" "fp_flowht (fs_put ?fp f fs) = ?ht" using T(1) by (simp_all add: fs_get_def fs_put_def)
  then have "\<exists>r. nicif_connection_disable crc st f = Some (r, st\<lparr>ni_fp := fp'\<rparr>)"
    using c(1) h unfolding nicif_connection_disable_def Let_def flow_slot_clear_def FLEXNIC_PL_FLOWHT_NBSZ_def
    by (simp add: fp'_def fs_def)
  moreover have R: "table_ok env fp'" "flow_entry fp' K' g = (K' \<noteq> K \<and> flow_entry ?fp K' g)" for K' g
    using table_remove [OF tb c(3,2) fk fp'_def] c(4) k(3) by simp_all
  moreover have "ids_ok (st\<lparr>ni_fp := fp'\<rparr>) xs" using xs c(2) by (auto simp: ids_ok_def fp'_def fs_put_def)
  moreover have "freed (st\<lparr>ni_fp := fp'\<rparr>) f"
  proof -
    have "f \<notin> set ys" if "ids_ok (st\<lparr>ni_fp := fp'\<rparr>) ys" for ys
      using that ids_okD(1) [OF xs] ids_okD(4) [OF xs k(1)] k(2) by (auto simp: ids_ok_def dest: ids_path_unique)
    moreover have "hte_fid (fp_flowht fp' l) \<noteq> f" if "hte_valid (fp_flowht fp' l)" for l
      using R(2) [of K f] that fk k(3) by (auto simp: flow_entry_def fp'_def fs_put_def)
    ultimately show ?thesis using T(1) by (simp add: freed_def)
  qed
  moreover have "lookup env fp' K' = (if K' = K then Some None else lookup env ?fp K')" for K'
    using R lookup_no_entry [OF R(1)] lookup_cong [OF tb R(1)] by auto
  ultimately show ?thesis by (auto simp: nicif_ok_def)
qed

text \<open>Without moves the recorded distances stay right.\<close>

lemma conn_add_exact:
  assumes ex: "all_exact (fp_flowht (ni_fp st))" and q: "\<exists>q < 4. \<not> hte_valid (fp_flowht (ni_fp st) (slot h q))"
    and ids: "ids_ok st xs" and r: "conn_add h fs_of st = Some (r, st')"
  shows "all_exact (fp_flowht (ni_fp st'))" "xs \<noteq> [] \<Longrightarrow> r \<noteq> None"
proof -
  let ?ht = "fp_flowht (ni_fp st)"
  obtain e where a: "flow_slot_alloc ?ht h = Some (Some (slot h e, of_nat e), ?ht)" "e < 4"
    using flow_slot_alloc_ok [of ?ht h] q by (auto split: option.splits)
  have d: "(of_nat e :: u32) < 4" using a(2) by (simp add: word_less_nat_alt unsigned_of_nat take_bit_eq_mod)
  note I = ids_okD [OF ids]
  show "all_exact (fp_flowht (ni_fp st'))"
  proof (cases xs)
    case Nil
    then show ?thesis using r ex I(1) by (auto simp: conn_add_def flow_id_alloc_def)
  next
    case (Cons f ys)
    then have f: "fi_free (ni_ids st) = Some f" "fs_ok f" using I by auto
    let ?e = "\<lparr>hte_flow_id = FLEXNIC_PL_FLOWHTE_VALID OR push_bit FLEXNIC_PL_FLOWHTE_POSSHIFT (of_nat e) OR f, hte_flow_hash = h\<rparr>"
    have "hte_dist ?e = of_nat e" using hte_parts [OF d fs_ok_lt [OF f(2)], of ?e] by simp
    then have "exact ?e (slot h e)" using a(2) by (auto simp: exact_def)
    moreover have "fp_flowht (ni_fp st') = ?ht(slot h e := ?e)"
      using r f a d by (auto simp: conn_add_def flow_id_alloc_def slot_lt HT_NBSZ_def fs_get_def fs_put_def)
    ultimately show ?thesis using ex by (simp add: all_exact_def)
  qed
  show "r \<noteq> None" if "xs \<noteq> []"
  proof (cases xs)
    case (Cons f ys)
    then have f: "fi_free (ni_ids st) = Some f" "fs_ok f" using I by auto
    then have "r = Some f" using r a d by (simp add: conn_add_def flow_id_alloc_def slot_lt HT_NBSZ_def fs_get_def fs_put_def)
    then show ?thesis by simp
  qed (use that in simp)
qed

section \<open>Initial state\<close>

lemma flow_id_init_path:
  assumes "i + n < 2 ^ 32" "fi_next s p = None" "\<forall>k. i \<le> k \<and> k < i + n \<longrightarrow> p \<noteq> of_nat k"
  shows "ids_path (fi_next (flow_id_init_loop i n (Some p) s)) (fi_next (flow_id_init_loop i n (Some p) s) p) (map of_nat [i..<i + n]) \<and>
    fi_free (flow_id_init_loop i n (Some p) s) = fi_free s \<and>
    (\<forall>x. x \<noteq> p \<and> (\<forall>k. i \<le> k \<and> k < i + n \<longrightarrow> x \<noteq> of_nat k) \<longrightarrow> fi_next (flow_id_init_loop i n (Some p) s) x = fi_next s x)"
  using assms
proof (induction n arbitrary: i p s)
  case 0
  then show ?case by simp
next
  case (Suc n)
  define s1 where "s1 = s\<lparr>fi_next := (fi_next s)(of_nat i := None, p := Some (of_nat i))\<rparr>"
  have step: "flow_id_init_loop i (Suc n) (Some p) s = flow_id_init_loop (Suc i) n (Some (of_nat i)) s1" by (simp add: s1_def Let_def)
  have pi: "p \<noteq> of_nat i" using Suc.prems(3) by simp
  have ne: "(of_nat i :: u32) \<noteq> of_nat k" if "Suc i \<le> k" "k < Suc i + n" for k
    using that Suc.prems(1) of_nat_inverse [of i "of_nat i :: u32"] by (auto simp: word_of_nat_eq_iff take_bit_eq_mod)
  note IH = Suc.IH [of "Suc i" s1 "of_nat i"]
  have P: "ids_path (fi_next (flow_id_init_loop (Suc i) n (Some (of_nat i)) s1)) (fi_next (flow_id_init_loop (Suc i) n (Some (of_nat i)) s1) (of_nat i)) (map of_nat [Suc i..<Suc i + n]) \<and>
    fi_free (flow_id_init_loop (Suc i) n (Some (of_nat i)) s1) = fi_free s1 \<and>
    (\<forall>x. x \<noteq> of_nat i \<and> (\<forall>k. Suc i \<le> k \<and> k < Suc i + n \<longrightarrow> x \<noteq> of_nat k) \<longrightarrow> fi_next (flow_id_init_loop (Suc i) n (Some (of_nat i)) s1) x = fi_next s1 x)"
    using Suc.prems(1) pi ne by (intro IH) (simp_all add: s1_def)
  have up: "[i..<i + Suc n] = i # [Suc i..<Suc i + n]" by (simp add: upt_rec)
  have "fi_next (flow_id_init_loop (Suc i) n (Some (of_nat i)) s1) p = Some (of_nat i)"
    using P Suc.prems(3) pi by (simp add: s1_def)
  then show ?case unfolding step up using P by (auto simp: s1_def)
qed

lemma distinct_of_nat: "n < 2 ^ 32 \<Longrightarrow> distinct (map of_nat [0..<n] :: u32 list)"
  by (auto simp: distinct_map inj_on_def word_of_nat_eq_iff take_bit_eq_mod)

lemma flow_id_alloc_init_path:
  "ids_path (fi_next (flow_id_alloc_init s)) (fi_free (flow_id_alloc_init s)) (map of_nat [0..<FLEXNIC_PL_FLOWST_NUM])"
proof -
  let ?n = "FLEXNIC_PL_FLOWST_NUM - 1"
  define s1 where "s1 = s\<lparr>fi_next := (fi_next s)(0 := None), fi_free := Some 0\<rparr>"
  have n: "FLEXNIC_PL_FLOWST_NUM = Suc ?n" by (simp add: FLEXNIC_PL_FLOWST_NUM_def)
  have "flow_id_alloc_init s = flow_id_init_loop 1 ?n (Some 0) s1"
    unfolding flow_id_alloc_init_def by (subst n) (simp add: s1_def Let_def)
  moreover have "[0..<FLEXNIC_PL_FLOWST_NUM] = 0 # [1..<1 + ?n]" by (subst n) (simp add: upt_rec)
  moreover have "ids_path (fi_next (flow_id_init_loop 1 ?n (Some 0) s1)) (fi_next (flow_id_init_loop 1 ?n (Some 0) s1) 0) (map of_nat [1..<1 + ?n]) \<and>
    fi_free (flow_id_init_loop 1 ?n (Some 0) s1) = fi_free s1"
  proof -
    have "1 + ?n < 2 ^ 32" "fi_next s1 0 = None" by (simp_all add: FLEXNIC_PL_FLOWST_NUM_def s1_def)
    moreover have "\<forall>k. 1 \<le> k \<and> k < 1 + ?n \<longrightarrow> (0 :: u32) \<noteq> of_nat k"
      by (auto simp: FLEXNIC_PL_FLOWST_NUM_def word_of_nat_eq_0_iff dest: dvd_imp_le)
    ultimately show ?thesis using flow_id_init_path by blast
  qed
  ultimately show ?thesis by (simp add: s1_def)
qed

lemma nicif_init_ok:
  assumes "\<And>k. \<not> hte_valid (fp_flowht (ni_fp st) k)" "ni_ids st = flow_id_alloc_init s"
  shows "ids_ok st (map of_nat [0..<FLEXNIC_PL_FLOWST_NUM])" "nicif_ok env st" "all_exact (fp_flowht (ni_fp st))"
proof -
  show "ids_ok st (map of_nat [0..<FLEXNIC_PL_FLOWST_NUM])"
    using assms flow_id_alloc_init_path [of s] distinct_of_nat [of FLEXNIC_PL_FLOWST_NUM]
    by (auto simp: ids_ok_def fs_ok_def FLEXNIC_PL_FLOWST_NUM_def unsigned_of_nat take_bit_eq_mod)
  then show "nicif_ok env st" using assms by (auto simp: nicif_ok_def table_ok_def all_near_def)
  show "all_exact (fp_flowht (ni_fp st))" using assms by (simp add: all_exact_def)
qed

end
