(* ===== verification/Nicif_Props.thy ===== *)
theory Nicif_Props
  imports Nicif_Table Flow_Props
begin

text \<open>
  The slow path's flow registration is right: it refines a map from connections to flow identifiers, which is the
  one the fast path's lookup reads.
\<close>

unbundle bit_operations_syntax

section \<open>A concrete state\<close>

text \<open>An instance of the hash functions in which the low byte of the remote port is the hash.\<close>

definition port_env :: fp_env where
  "port_env = demo_env\<lparr>env_crc_u32 := (\<lambda>a b. drop_bit 24 a), env_crc_u64 := (\<lambda>a b. 0)\<rparr>"

definition port_crc :: "bytes \<Rightarrow> u32" where
  "port_crc bs = ucast (bs ! 11)"

definition nicif_with :: "flow_ids \<Rightarrow> nicif" where
  "nicif_with ids = \<lparr>ni_fp = demo_fp, ni_ids = ids,
     ni_rxq_len = 4, ni_txq_len = 4, ni_txq = (\<lambda>c i. \<lparr>ktx_msg_of = KtxConnretran 0, ktx_type = 0\<rparr>),
     ni_txbufs = (\<lambda>c i. 0), ni_txq_tail = (\<lambda>c. 0), ni_budgets = (\<lambda>c v. 0)\<rparr>"

definition demo_nicif :: nicif where
  "demo_nicif = nicif_with (flow_id_alloc_init \<lparr>fi_free = None, fi_next = (\<lambda>i. None)\<rparr>)"

definition demo_params :: "u16 \<Rightarrow> u16 \<Rightarrow> conn_params" where
  "demo_params lp rp = \<lparr>cp_db = 0, cp_vm_id = 1, cp_app_id = 0, cp_tunnel_id = 0, cp_mac_remote = 0x112233445566,
     cp_out_ip_local = 0x0A000001, cp_out_ip_remote = 0x0A000002, cp_in_ip_local = 0, cp_in_ip_remote = 0,
     cp_port_local = lp, cp_port_remote = rp, cp_rx_base = 64, cp_rx_len = 32, cp_tx_base = 96, cp_tx_len = 32,
     cp_remote_seq = 7, cp_local_seq = 9, cp_app_opaque = 1, cp_flags = 0, cp_rate = 100, cp_flow_group = 0\<rparr>"

lemma port_crc_agrees: "crc_agrees port_env port_crc"
proof -
  have "ucast (ucast (drop_bit 24 b) :: u8) = drop_bit 24 (b :: u32)" for b
    by (rule bit_word_eqI) (auto simp: bit_simps dest: bit_imp_le_length)
  then show ?thesis by (simp add: crc_agrees_def port_env_def port_crc_def)
qed

lemma demo_nicif_ok: "nicif_ok env demo_nicif" "all_exact (fp_flowht (ni_fp demo_nicif))"
  "\<not> hte_valid (fp_flowht (ni_fp demo_nicif) k)"
proof -
  have v: "\<not> hte_valid (fp_flowht (ni_fp demo_nicif) k)" for k by (simp add: demo_nicif_def nicif_with_def demo_fp_def hte_valid_def)
  then show "\<not> hte_valid (fp_flowht (ni_fp demo_nicif) k)" .
  have i: "ni_ids demo_nicif = flow_id_alloc_init \<lparr>fi_free = None, fi_next = (\<lambda>i. None)\<rparr>" by (simp add: demo_nicif_def nicif_with_def)
  show "nicif_ok env demo_nicif" "all_exact (fp_flowht (ni_fp demo_nicif))" using nicif_init_ok [OF v i] by simp_all
qed

lemma demo_lookup_none: "lookup env (ni_fp demo_nicif) K = Some None"
  using lookup_no_entry [of env "ni_fp demo_nicif" K] demo_nicif_ok by (auto simp: nicif_ok_def flow_entry_def)

section \<open>Properties\<close>



text \<open>
  C7: Removing a connection refines the removal from the map: for a registered connection, \<open>nicif_connection_disable\<close>
  followed by \<open>nicif_connection_free\<close> is total, reports the sequence numbers of the flow, keeps the state consistent, makes
  the flow identifier the next one to be allocated, and afterwards packets of the connection find no flow while packets of all others are looked up as before.
\<close>

theorem nicif_connection_remove_refines:
  assumes "nicif_ok env st" "crc_agrees env crc" "lookup env (ni_fp st) K = Some (Some f)"
  shows "\<exists>tc rc st' st''. nicif_connection_disable crc st f =
      Some ((fs_tx_next_seq (fp_flowst (ni_fp st) f), fs_rx_next_seq (fp_flowst (ni_fp st) f), tc, rc), st') \<and>
    nicif_connection_free st' f = Some st'' \<and> nicif_ok env st'' \<and> fi_free (ni_ids st'') = Some f \<and>
    (\<forall>nb p. pkt_tcp_load (nb_buf nb) (unat (nb_off nb)) = Some p \<longrightarrow>
       packet_fss env (ni_fp st'') nb = (if pkt_key p = K then Some None else packet_fss env (ni_fp st) nb))"
proof -
  have en: "flow_entry (ni_fp st) K f"
    using assms(1,3) lookup_iff [of env "ni_fp st" K] by (auto simp: nicif_ok_def)
  obtain r st' where a: "nicif_connection_disable crc st f = Some (r, st')" "nicif_ok env st'"
      "\<And>K'. lookup env (ni_fp st') K' = (if K' = K then Some None else lookup env (ni_fp st) K')" "freed st' f"
    using nicif_disable_ok [OF assms(1,2) en] by blast
  have r: "fst r = fs_tx_next_seq (fp_flowst (ni_fp st) f)" "fst (snd r) = fs_rx_next_seq (fp_flowst (ni_fp st) f)"
    using a(1) by (auto simp: nicif_connection_disable_def Let_def fs_get_def split: bind_splits if_splits)
  obtain st'' where f: "nicif_connection_free st' f = Some st''" "nicif_ok env st''" "ni_fp st'' = ni_fp st'" "fi_free (ni_ids st'') = Some f"
    using nicif_free_ok [OF a(2,4)] by blast
  show ?thesis using a f r packet_fss_lookup by (cases r) auto
qed

lemma demo_registered:
  obtains st f where "nicif_ok port_env st" "lookup port_env (ni_fp st) (conn_key (demo_params 80 3)) = Some (Some f)"
proof -
  let ?K = "conn_key (demo_params 80 3)" let ?xs = "map of_nat [0..<FLEXNIC_PL_FLOWST_NUM] :: u32 list"
  obtain r st where a: "conn_add (key_hash port_env ?K) (conn_flowst_tcp (demo_params 80 3)) demo_nicif = Some (r, st)" "add_spec port_env demo_nicif ?K r st"
    using conn_add_ok [OF demo_nicif_ok(1,2) demo_lookup_none, of "conn_flowst_tcp (demo_params 80 3)", OF flow_key_conn] by blast
  have ids: "ids_ok demo_nicif ?xs" using nicif_init_ok(1) [OF demo_nicif_ok(3)] by (simp add: demo_nicif_def nicif_with_def)
  have "?xs \<noteq> []" by (simp add: FLEXNIC_PL_FLOWST_NUM_def)
  then have "r \<noteq> None" using conn_add_exact(2) [OF demo_nicif_ok(2) _ ids a(1)] demo_nicif_ok(3) by (metis zero_less_numeral)
  then show thesis using a(2) that [of st] by (auto simp: add_spec_def simp del: split_paired_All)
qed

theorem nicif_connection_remove_refines_witness:
  "\<exists>st f r st' st''. lookup port_env (ni_fp st) (conn_key (demo_params 80 3)) = Some (Some f) \<and>
     nicif_connection_disable port_crc st f = Some (r, st') \<and> nicif_connection_free st' f = Some st'' \<and> nicif_ok port_env st''"
proof -
  obtain st f where st: "nicif_ok port_env st" "lookup port_env (ni_fp st) (conn_key (demo_params 80 3)) = Some (Some f)"
    using demo_registered by blast
  then show ?thesis using nicif_connection_remove_refines [OF st(1) port_crc_agrees st(2)] by blast
qed

section \<open>The recorded distance of a moved entry\<close>

fun add_all :: "(bytes \<Rightarrow> u32) \<Rightarrow> nicif \<Rightarrow> conn_params list \<Rightarrow> (u32 option list \<times> nicif) option" where
  "add_all crc st [] = Some ([], st)"
| "add_all crc st (c # cs) = do {
     (r, st) \<leftarrow> nicif_connection_add crc st c;
     (rs, st) \<leftarrow> add_all crc st cs;
     Some (r # rs, st) }"

lemma fs_ok_code [code]: "fs_ok f \<longleftrightarrow> f < 0x20000"
  by (simp add: fs_ok_def FLEXNIC_PL_FLOWST_NUM_def word_less_nat_alt)

declare slot_scan.simps [code]
declare slot_swap.simps [code]
declare slot_shift.simps [code]

definition small_nicif :: nicif where
  "small_nicif = nicif_with \<lparr>fi_free = Some 0, fi_next = (\<lambda>i. if i < 7 then Some (i + 1) else None)\<rparr>"


end
