(* ===== verification/Fast_Appctx.thy ===== *)
theory Fast_Appctx
  imports Flow_Table
begin

text \<open>
  Polling of the application queues in the fast path (\<open>src/tas/fast/fast_appctx.c\<close>): the queue entries in
  shared memory, fetching entries from the contexts of the VMs, the receive queues, and the two levels of rings
  of active VMs and contexts. The functions that only prefetch are left out.
\<close>

unbundle bit_operations_syntax

section \<open>State\<close>

definition FLEXNIC_PL_APPST_CTX_MCS :: nat where "FLEXNIC_PL_APPST_CTX_MCS = 32"
definition FLEXNIC_PL_APPCTX_NUM :: nat where "FLEXNIC_PL_APPCTX_NUM = 32"
definition FLEXNIC_PL_APPST_CTX_NUM :: nat where "FLEXNIC_PL_APPST_CTX_NUM = 62"

text \<open>
  The shared state with the registers of the application and kernel contexts, and the registered VMs and contexts: an
  array with its count is a list.
\<close>

record fastpath =
  fa_mem :: fp_mem
  fa_appctx :: "u16 \<Rightarrow> u32 \<Rightarrow> u32 \<Rightarrow> flextcp_pl_appctx"
  fa_kctx :: "u16 \<Rightarrow> flextcp_pl_appctx"
  fa_vm_ids :: "u16 list"
  fa_ctx_ids :: "u32 \<Rightarrow> u16 list"

definition actx_ok :: "u16 \<Rightarrow> u32 \<Rightarrow> u32 \<Rightarrow> bool" where
  "actx_ok core vm cid \<longleftrightarrow> unat core < FLEXNIC_PL_APPST_CTX_MCS \<and> unat vm < FLEXNIC_PL_VMST_NUM \<and> unat cid < FLEXNIC_PL_APPCTX_NUM"

definition actx_get :: "fastpath \<Rightarrow> u16 \<Rightarrow> u32 \<Rightarrow> u32 \<Rightarrow> flextcp_pl_appctx option" where
  "actx_get fa core vm cid = (if actx_ok core vm cid then Some (fa_appctx fa core vm cid) else None)"

definition actx_put :: "fastpath \<Rightarrow> u16 \<Rightarrow> u32 \<Rightarrow> u32 \<Rightarrow> flextcp_pl_appctx \<Rightarrow> fastpath" where
  "actx_put fa core vm cid a = fa\<lparr>fa_appctx := (fa_appctx fa)(core := (fa_appctx fa core)(vm := (fa_appctx fa core vm)(cid := a)))\<rparr>"

definition pvm_ok :: "u32 \<Rightarrow> bool" where "pvm_ok vm \<longleftrightarrow> unat vm < FLEXNIC_PL_VMST_NUM"
definition pctx_ok :: "u32 \<Rightarrow> bool" where "pctx_ok cid \<longleftrightarrow> unat cid < FLEXNIC_PL_APPST_CTX_NUM"

definition pvm_get :: "dataplane_context \<Rightarrow> u32 \<Rightarrow> polled_vm option" where
  "pvm_get ctx vm = (if pvm_ok vm then Some (dc_polled_vms ctx vm) else None)"

definition pvm_put :: "dataplane_context \<Rightarrow> u32 \<Rightarrow> polled_vm \<Rightarrow> dataplane_context" where
  "pvm_put ctx vm v = ctx\<lparr>dc_polled_vms := (dc_polled_vms ctx)(vm := v)\<rparr>"

definition pctx_get :: "polled_vm \<Rightarrow> u32 \<Rightarrow> polled_context option" where
  "pctx_get v cid = (if pctx_ok cid then Some (pv_ctxs v cid) else None)"

definition pctx_put :: "polled_vm \<Rightarrow> u32 \<Rightarrow> polled_context \<Rightarrow> polled_vm" where
  "pctx_put v cid c = v\<lparr>pv_ctxs := (pv_ctxs v)(cid := c)\<rparr>"

section \<open>Queue entries in memory\<close>

definition sizeof_atx :: u32 where "sizeof_atx = 16"
definition sizeof_arx :: u32 where "sizeof_arx = 32"

definition atx_load :: "bytes \<Rightarrow> nat \<Rightarrow> flextcp_pl_atx" where
  "atx_load b i = \<lparr>atx_rx_bump = ld32 b i, atx_tx_bump = ld32 b (i + 4), atx_flow_id = ld32 b (i + 8),
     atx_bump_seq = ld16 b (i + 12), atx_flags = ld8 b (i + 14), atx_type = ld8 b (i + 15)\<rparr>"

definition atx_store :: "flextcp_pl_atx \<Rightarrow> bytes" where
  "atx_store a = st32 (atx_rx_bump a) @ st32 (atx_tx_bump a) @ st32 (atx_flow_id a) @ st16 (atx_bump_seq a) @
     [atx_flags a, atx_type a]"

section \<open>Active rings\<close>

text \<open>The ring of the active contexts of a VM.\<close>

definition enqueue_ctx_to_active :: "polled_vm \<Rightarrow> u32 \<Rightarrow> polled_vm option" where
  "enqueue_ctx_to_active v cid = do {
     c \<leftarrow> pctx_get v cid;
     if pv_act_ctx_tail v = IDXLIST_INVAL then do {
       let v = v\<lparr>pv_act_ctx_head := cid, pv_act_ctx_tail := cid\<rparr>;
       Some (pctx_put v cid (c\<lparr>pc_prev := cid, pc_next := cid, pc_flags := pc_flags c OR FLAG_ACTIVE\<rparr>)) }
     else do {
       t \<leftarrow> pctx_get v (pv_act_ctx_tail v);
       let v = pctx_put v (pv_act_ctx_tail v) (t\<lparr>pc_next := cid\<rparr>);
       h \<leftarrow> pctx_get v (pv_act_ctx_head v);
       let v = pctx_put v (pv_act_ctx_head v) (h\<lparr>pc_prev := cid\<rparr>);
       c \<leftarrow> pctx_get v cid;
       let v = pctx_put v cid (c\<lparr>pc_prev := pv_act_ctx_tail v, pc_next := pv_act_ctx_head v, pc_flags := pc_flags c OR FLAG_ACTIVE\<rparr>);
       Some (v\<lparr>pv_act_ctx_tail := cid\<rparr>) } }"

definition ctx_inactive :: "polled_context \<Rightarrow> polled_context" where
  "ctx_inactive c = c\<lparr>pc_next := IDXLIST_INVAL, pc_prev := IDXLIST_INVAL, pc_flags := pc_flags c AND NOT FLAG_ACTIVE, pc_null_rounds := 0\<rparr>"

definition remove_ctx_from_active :: "polled_vm \<Rightarrow> u32 \<Rightarrow> polled_vm option" where
  "remove_ctx_from_active v cid = do {
     c \<leftarrow> pctx_get v cid;
     if pv_act_ctx_tail v = pv_act_ctx_head v then
       Some (pctx_put (v\<lparr>pv_act_ctx_head := IDXLIST_INVAL, pv_act_ctx_tail := IDXLIST_INVAL\<rparr>) cid (ctx_inactive c))
     else do {
       let v = (if pc_next c = pv_act_ctx_head v then v\<lparr>pv_act_ctx_tail := pc_prev c\<rparr>
                else if pc_prev c = pv_act_ctx_tail v then v\<lparr>pv_act_ctx_head := pc_next c\<rparr> else v);
       p \<leftarrow> pctx_get v (pc_prev c);
       let v = pctx_put v (pc_prev c) (p\<lparr>pc_next := pc_next c\<rparr>);
       n \<leftarrow> pctx_get v (pc_next c);
       let v = pctx_put v (pc_next c) (n\<lparr>pc_prev := pc_prev c\<rparr>);
       c \<leftarrow> pctx_get v cid;
       Some (pctx_put v cid (ctx_inactive c)) } }"

text \<open>The ring of the active VMs of a core.\<close>

definition enqueue_vm_to_active :: "dataplane_context \<Rightarrow> u32 \<Rightarrow> dataplane_context option" where
  "enqueue_vm_to_active ctx vmid = do {
     c \<leftarrow> pvm_get ctx vmid;
     if dc_act_tail ctx = IDXLIST_INVAL then do {
       let ctx = ctx\<lparr>dc_act_head := vmid, dc_act_tail := vmid\<rparr>;
       Some (pvm_put ctx vmid (c\<lparr>pv_prev := vmid, pv_next := vmid, pv_flags := pv_flags c OR FLAG_ACTIVE\<rparr>)) }
     else do {
       t \<leftarrow> pvm_get ctx (dc_act_tail ctx);
       let ctx = pvm_put ctx (dc_act_tail ctx) (t\<lparr>pv_next := vmid\<rparr>);
       h \<leftarrow> pvm_get ctx (dc_act_head ctx);
       let ctx = pvm_put ctx (dc_act_head ctx) (h\<lparr>pv_prev := vmid\<rparr>);
       c \<leftarrow> pvm_get ctx vmid;
       let ctx = pvm_put ctx vmid (c\<lparr>pv_prev := dc_act_tail ctx, pv_next := dc_act_head ctx, pv_flags := pv_flags c OR FLAG_ACTIVE\<rparr>);
       Some (ctx\<lparr>dc_act_tail := vmid\<rparr>) } }"

definition vm_inactive :: "polled_vm \<Rightarrow> polled_vm" where
  "vm_inactive c = c\<lparr>pv_next := IDXLIST_INVAL, pv_prev := IDXLIST_INVAL, pv_flags := pv_flags c AND NOT FLAG_ACTIVE\<rparr>"

definition remove_vm_from_active :: "dataplane_context \<Rightarrow> u32 \<Rightarrow> dataplane_context option" where
  "remove_vm_from_active ctx vmid = do {
     c \<leftarrow> pvm_get ctx vmid;
     if dc_act_tail ctx = dc_act_head ctx then
       Some (pvm_put (ctx\<lparr>dc_act_head := IDXLIST_INVAL, dc_act_tail := IDXLIST_INVAL\<rparr>) vmid (vm_inactive c))
     else do {
       let ctx = (if pv_next c = dc_act_head ctx then ctx\<lparr>dc_act_tail := pv_prev c\<rparr>
                  else if pv_prev c = dc_act_tail ctx then ctx\<lparr>dc_act_head := pv_next c\<rparr> else ctx);
       p \<leftarrow> pvm_get ctx (pv_prev c);
       let ctx = pvm_put ctx (pv_prev c) (p\<lparr>pv_next := pv_next c\<rparr>);
       n \<leftarrow> pvm_get ctx (pv_next c);
       let ctx = pvm_put ctx (pv_next c) (n\<lparr>pv_prev := pv_prev c\<rparr>);
       c \<leftarrow> pvm_get ctx vmid;
       Some (pvm_put ctx vmid (vm_inactive c)) } }"

fun remove_ctxs_from_active :: "dataplane_context \<Rightarrow> (u32 \<times> u32) list \<Rightarrow> dataplane_context option" where
  "remove_ctxs_from_active ctx [] = Some ctx"
| "remove_ctxs_from_active ctx ((vm, cid) # rs) = do {
     v \<leftarrow> pvm_get ctx vm;
     c \<leftarrow> pctx_get v cid;
     p_vm \<leftarrow> pvm_get ctx (pc_vmid c);
     p_vm \<leftarrow> remove_ctx_from_active p_vm (pc_id c);
     let ctx' = pvm_put ctx (pc_vmid c) p_vm;
     ctx' \<leftarrow> (if pv_act_ctx_head p_vm = IDXLIST_INVAL then remove_vm_from_active ctx' (pc_vmid c) else Some ctx');
     remove_ctxs_from_active ctx' rs }"

section \<open>Fetching queue entries\<close>

text \<open>
  The result is the address of the entry, or \<open>None\<close> inside the option for the return code -1. A queue entry that is
  fetched counts for the VM's budget.
\<close>

definition fast_appctx_poll_fetch ::
  "fp_env \<Rightarrow> fastpath \<Rightarrow> dataplane_context \<Rightarrow> u32 \<Rightarrow> u16 \<Rightarrow> bool \<Rightarrow> ((u16 \<times> u64) option \<times> fastpath \<times> dataplane_context) option" where
  "fast_appctx_poll_fetch env fa ctx actx_id vm_id spend_budget = do {
     actx \<leftarrow> actx_get fa (dc_id ctx) (ucast vm_id) actx_id;
     if ac_tx_len actx = 0 then Some (None, fa, ctx)
     else do {
       addr \<leftarrow> dma_pointer env (ac_tx_base actx + ucast (ac_tx_head actx)) (ucast sizeof_atx);
       m \<leftarrow> shm_get (fp_shm (fa_mem fa)) vm_id;
       b \<leftarrow> mem_read m (unat addr) (unat sizeof_atx);
       let atx = atx_load b 0;
       if atx_type atx = 0 then Some (None, fa, ctx)
       else do {
         c_assert (atx_type atx = FLEXTCP_PL_ATX_CONNUPDATE);
         c_assert (fs_ok (atx_flow_id atx));
         let h = ac_tx_head actx + sizeof_atx;
         let fa = actx_put fa (dc_id ctx) (ucast vm_id) actx_id
           (actx\<lparr>ac_tx_head := if h \<ge> ac_tx_len actx then h - ac_tx_len actx else h\<rparr>);
         let ctx = (if spend_budget then ctx\<lparr>dc_vm_counters := (dc_vm_counters ctx)
               (ucast vm_id := dc_vm_counters ctx (ucast vm_id) + atx_tx_bump atx),
               dc_counters_total := dc_counters_total ctx + atx_tx_bump atx\<rparr> else ctx);
         Some (Some (vm_id, addr), fa, ctx) } } }"

text \<open>
  What the polling loops thread through: \<open>fe_k\<close> is \<open>k\<close>, \<open>fe_rem\<close> the contexts in \<open>rem_ctxs\<close> with their number \<open>n_rem\<close>, and \<open>fe_aqes\<close>
  the fetched entries. A pointer to a context is the pair of the VM and the context.
\<close>

record fetch =
  fe_fa :: fastpath
  fe_ctx :: dataplane_context
  fe_k :: u16
  fe_total :: u32
  fe_rem :: "(u32 \<times> u32) list"
  fe_aqes :: "(u16 \<times> u64) list"

definition null_round :: "polled_context \<Rightarrow> polled_context" where
  "null_round c = c\<lparr>pc_null_rounds := if pc_null_rounds c = MAX_NULL_ROUNDS then MAX_NULL_ROUNDS else pc_null_rounds c + 1\<rparr>"

definition ctx_upd :: "dataplane_context \<Rightarrow> u32 \<Rightarrow> u32 \<Rightarrow> (polled_context \<Rightarrow> polled_context) \<Rightarrow> dataplane_context option" where
  "ctx_upd ctx vm cid f = do {
     v \<leftarrow> pvm_get ctx vm;
     c \<leftarrow> pctx_get v cid;
     Some (pvm_put ctx vm (pctx_put v cid (f c))) }"

definition aqe_add :: "fetch \<Rightarrow> u16 \<times> u64 \<Rightarrow> fetch option" where
  "aqe_add s qe = do {
     c_assert (length (fe_aqes s) < BATCH_SIZE);
     Some (s\<lparr>fe_aqes := fe_aqes s @ [qe], fe_k := fe_k s + 1\<rparr>) }"

text \<open>The loop over at most \<open>n\<close> entries of the active context \<open>cid\<close> of VM \<open>vm\<close>.\<close>

fun fetch_active_ctx_loop :: "fp_env \<Rightarrow> u32 \<Rightarrow> u32 \<Rightarrow> u16 \<Rightarrow> bool \<Rightarrow> nat \<Rightarrow> fetch \<Rightarrow> fetch option" where
  "fetch_active_ctx_loop env vm cid mx spend 0 s = Some s"
| "fetch_active_ctx_loop env vm cid mx spend (Suc n) s =
     (if \<not> fe_k s < mx then Some s
      else do {
        v \<leftarrow> pvm_get (fe_ctx s) vm;
        c \<leftarrow> pctx_get v cid;
        (r, fa, ctx) \<leftarrow> fast_appctx_poll_fetch env (fe_fa s) (fe_ctx s) (pc_id c) (ucast (pc_vmid c)) spend;
        let s = s\<lparr>fe_fa := fa\<rparr>;
        case r of
          Some qe \<Rightarrow> do {
            s \<leftarrow> aqe_add s qe;
            ctx \<leftarrow> ctx_upd ctx vm cid (\<lambda>c. c\<lparr>pc_null_rounds := 0\<rparr>);
            fetch_active_ctx_loop env vm cid mx spend n (s\<lparr>fe_ctx := ctx, fe_total := fe_total s + 1\<rparr>) }
        | None \<Rightarrow> do {
            ctx \<leftarrow> ctx_upd ctx vm cid null_round;
            let s = s\<lparr>fe_ctx := ctx\<rparr>;
            if pc_null_rounds (null_round c) \<ge> MAX_NULL_ROUNDS then do {
              c_assert (length (fe_rem s) < BATCH_SIZE);
              Some (s\<lparr>fe_rem := fe_rem s @ [(vm, cid)]\<rparr>) }
            else Some s } })"

definition fast_appctx_poll_fetch_active_ctx :: "fp_env \<Rightarrow> u32 \<Rightarrow> u32 \<Rightarrow> u16 \<Rightarrow> bool \<Rightarrow> fetch \<Rightarrow> fetch option" where
  "fast_appctx_poll_fetch_active_ctx env vm cid mx spend s = fetch_active_ctx_loop env vm cid mx spend BATCH_SIZE s"

text \<open>Once around the ring of active contexts, then its head moves on.\<close>

partial_function (option) fetch_active_vm_loop :: "fp_env \<Rightarrow> u32 \<Rightarrow> u16 \<Rightarrow> bool \<Rightarrow> u32 \<Rightarrow> fetch \<Rightarrow> fetch option" where
  "fetch_active_vm_loop env vm mx spend cid s = do {
     s \<leftarrow> fast_appctx_poll_fetch_active_ctx env vm cid mx spend s;
     v \<leftarrow> pvm_get (fe_ctx s) vm;
     c \<leftarrow> pctx_get v cid;
     if pc_next c \<noteq> pv_act_ctx_head v \<and> fe_k s < mx then fetch_active_vm_loop env vm mx spend (pc_next c) s
     else Some s }"

definition rotate_ctxs :: "polled_vm \<Rightarrow> polled_vm option" where
  "rotate_ctxs v = do {
     h \<leftarrow> pctx_get v (pv_act_ctx_head v);
     t \<leftarrow> pctx_get v (pv_act_ctx_tail v);
     Some (v\<lparr>pv_act_ctx_head := pc_next h, pv_act_ctx_tail := pc_next t\<rparr>) }"

definition fast_appctx_poll_fetch_active_vm :: "fp_env \<Rightarrow> u32 \<Rightarrow> u16 \<Rightarrow> bool \<Rightarrow> fetch \<Rightarrow> fetch option" where
  "fast_appctx_poll_fetch_active_vm env vm mx spend s = do {
     v \<leftarrow> pvm_get (fe_ctx s) vm;
     s \<leftarrow> fetch_active_vm_loop env vm mx spend (pv_act_ctx_head v) s;
     v \<leftarrow> pvm_get (fe_ctx s) vm;
     v \<leftarrow> rotate_ctxs v;
     Some (s\<lparr>fe_ctx := pvm_put (fe_ctx s) vm v\<rparr>) }"

text \<open>Once around the ring of active VMs; VMs without budget are put aside.\<close>

partial_function (option) fetch_active_loop :: "fp_env \<Rightarrow> u16 \<Rightarrow> u32 \<Rightarrow> u32 list \<Rightarrow> fetch \<Rightarrow> (u32 list \<times> fetch) option" where
  "fetch_active_loop env mx vmid oob s = do {
     v \<leftarrow> pvm_get (fe_ctx s) vmid;
     (oob, s) \<leftarrow> (if dc_budgets (fe_ctx s) vmid > 0 then do {
                 s \<leftarrow> fast_appctx_poll_fetch_active_vm env vmid mx True s;
                 Some (oob, s) }
               else do { c_assert (length oob < FLEXNIC_PL_VMST_NUM); Some (oob @ [vmid], s) });
     v \<leftarrow> pvm_get (fe_ctx s) vmid;
     if pv_next v \<noteq> dc_act_head (fe_ctx s) \<and> fe_k s < mx then fetch_active_loop env mx (pv_next v) oob s
     else Some (oob, s) }"

fun fetch_active_oob :: "fp_env \<Rightarrow> u16 \<Rightarrow> u32 list \<Rightarrow> fetch \<Rightarrow> fetch option" where
  "fetch_active_oob env mx [] s = Some s"
| "fetch_active_oob env mx (vm # vms) s = do {
     v \<leftarrow> pvm_get (fe_ctx s) vm;
     s \<leftarrow> (if fe_k s < mx then fast_appctx_poll_fetch_active_vm env vm mx False s else Some s);
     fetch_active_oob env mx vms s }"

definition fast_appctx_poll_fetch_active :: "fp_env \<Rightarrow> fastpath \<Rightarrow> dataplane_context \<Rightarrow> u16 \<Rightarrow> fetch option" where
  "fast_appctx_poll_fetch_active env fa ctx mx = do {
     (oob, s) \<leftarrow> fetch_active_loop env mx (dc_act_head ctx) []
       \<lparr>fe_fa = fa, fe_ctx = ctx, fe_k = 0, fe_total = 0, fe_rem = [], fe_aqes = []\<rparr>;
     if fe_k s = 0 then fetch_active_oob env mx oob s else Some s }"

section \<open>Fetching from all contexts\<close>

text \<open>The result of the first function is \<open>is_vm_active\<close>.\<close>

fun fetch_all_ctx_loop :: "fp_env \<Rightarrow> u32 \<Rightarrow> u32 \<Rightarrow> u16 \<Rightarrow> bool \<Rightarrow> nat \<Rightarrow> bool \<Rightarrow> fetch \<Rightarrow> (bool \<times> fetch) option" where
  "fetch_all_ctx_loop env vm cid mx spend 0 act s = Some (act, s)"
| "fetch_all_ctx_loop env vm cid mx spend (Suc n) act s =
     (if \<not> fe_k s < mx then Some (act, s)
      else do {
        (r, fa, ctx) \<leftarrow> fast_appctx_poll_fetch env (fe_fa s) (fe_ctx s) cid (ucast vm) spend;
        let s = s\<lparr>fe_fa := fa\<rparr>;
        case r of
          Some qe \<Rightarrow> do {
            ctx \<leftarrow> ctx_upd ctx vm cid (\<lambda>c. c\<lparr>pc_null_rounds := 0\<rparr>);
            s \<leftarrow> aqe_add s qe;
            v \<leftarrow> pvm_get ctx vm;
            c \<leftarrow> pctx_get v cid;
            v \<leftarrow> (if pc_flags c AND FLAG_ACTIVE = 0 then enqueue_ctx_to_active v cid else Some v);
            fetch_all_ctx_loop env vm cid mx spend n True (s\<lparr>fe_ctx := pvm_put ctx vm v, fe_total := fe_total s + 1\<rparr>) }
        | None \<Rightarrow> do {
            ctx \<leftarrow> ctx_upd ctx vm cid null_round;
            Some (act, s\<lparr>fe_ctx := ctx\<rparr>) } })"

definition fast_appctx_poll_fetch_all_ctx :: "fp_env \<Rightarrow> u32 \<Rightarrow> u32 \<Rightarrow> u16 \<Rightarrow> bool \<Rightarrow> fetch \<Rightarrow> (bool \<times> fetch) option" where
  "fast_appctx_poll_fetch_all_ctx env vm cid mx spend s = fetch_all_ctx_loop env vm cid mx spend BATCH_SIZE False s"

definition nth_checked :: "'a list \<Rightarrow> nat \<Rightarrow> 'a option" where
  "nth_checked xs i = (if i < length xs then Some (xs ! i) else None)"

text \<open>The loop over \<open>n\<close> of the \<open>cnt\<close> registered contexts of a VM.\<close>

fun fetch_all_vm_loop :: "fp_env \<Rightarrow> u32 \<Rightarrow> u32 \<Rightarrow> u16 \<Rightarrow> bool \<Rightarrow> nat \<Rightarrow> fetch \<Rightarrow> fetch option" where
  "fetch_all_vm_loop env vm cnt mx spend 0 s = Some s"
| "fetch_all_vm_loop env vm cnt mx spend (Suc n) s =
     (if \<not> fe_k s < mx then Some s
      else do {
        v \<leftarrow> pvm_get (fe_ctx s) vm;
        cid \<leftarrow> nth_checked (fa_ctx_ids (fe_fa s) vm) (unat (pv_poll_next_ctx v));
        (act, s) \<leftarrow> fast_appctx_poll_fetch_all_ctx env vm (ucast cid) mx spend s;
        v \<leftarrow> pvm_get (fe_ctx s) vm;
        ctx \<leftarrow> (if pv_flags v AND FLAG_ACTIVE = 0 \<and> act then enqueue_vm_to_active (fe_ctx s) vm else Some (fe_ctx s));
        v \<leftarrow> pvm_get ctx vm;
        let v = v\<lparr>pv_poll_next_ctx := (pv_poll_next_ctx v + 1) mod cnt\<rparr>;
        fetch_all_vm_loop env vm cnt mx spend n (s\<lparr>fe_ctx := pvm_put ctx vm v\<rparr>) })"

definition fast_appctx_poll_fetch_all_vm :: "fp_env \<Rightarrow> u32 \<Rightarrow> u16 \<Rightarrow> bool \<Rightarrow> fetch \<Rightarrow> fetch option" where
  "fast_appctx_poll_fetch_all_vm env vm mx spend s = do {
     v \<leftarrow> pvm_get (fe_ctx s) vm;
     let cnt = length (fa_ctx_ids (fe_fa s) vm);
     if cnt = 0 then Some s
     else do {
       let v = (if unat (pv_poll_next_ctx v) \<ge> cnt then v\<lparr>pv_poll_next_ctx := 0\<rparr> else v);
       fetch_all_vm_loop env vm (of_nat cnt) mx spend cnt (s\<lparr>fe_ctx := pvm_put (fe_ctx s) vm v\<rparr>) } }"

definition next_vm :: "nat \<Rightarrow> fetch \<Rightarrow> fetch" where
  "next_vm cnt s = s\<lparr>fe_ctx := (fe_ctx s)\<lparr>dc_poll_next_vm := (dc_poll_next_vm (fe_ctx s) + 1) mod of_nat cnt\<rparr>\<rparr>"

fun fetch_all_loop :: "fp_env \<Rightarrow> nat \<Rightarrow> u16 \<Rightarrow> nat \<Rightarrow> u32 list \<Rightarrow> fetch \<Rightarrow> (u32 list \<times> fetch) option" where
  "fetch_all_loop env cnt mx 0 oob s = Some (oob, s)"
| "fetch_all_loop env cnt mx (Suc n) oob s =
     (if \<not> fe_k s < mx then Some (oob, s)
      else do {
        vm \<leftarrow> nth_checked (fa_vm_ids (fe_fa s)) (unat (dc_poll_next_vm (fe_ctx s)));
        c_assert (pvm_ok (ucast vm));
        (oob, s) \<leftarrow> (if dc_budgets (fe_ctx s) (ucast vm) > 0 then do {
                    s \<leftarrow> fast_appctx_poll_fetch_all_vm env (ucast vm) mx True s;
                    Some (oob, s) }
                  else do { c_assert (length oob < FLEXNIC_PL_VMST_NUM); Some (oob @ [ucast vm], s) });
        fetch_all_loop env cnt mx n oob (next_vm cnt s) })"

fun fetch_all_oob :: "fp_env \<Rightarrow> nat \<Rightarrow> u16 \<Rightarrow> u32 list \<Rightarrow> fetch \<Rightarrow> fetch option" where
  "fetch_all_oob env cnt mx [] s = Some s"
| "fetch_all_oob env cnt mx (vm # vms) s = do {
     s \<leftarrow> (if fe_k s < mx then fast_appctx_poll_fetch_all_vm env vm mx False s else Some s);
     fetch_all_oob env cnt mx vms (next_vm cnt s) }"

definition fast_appctx_poll_fetch_all :: "fp_env \<Rightarrow> fastpath \<Rightarrow> dataplane_context \<Rightarrow> u16 \<Rightarrow> fetch option" where
  "fast_appctx_poll_fetch_all env fa ctx mx = do {
     let s = \<lparr>fe_fa = fa, fe_ctx = ctx, fe_k = 0, fe_total = 0, fe_rem = [], fe_aqes = []\<rparr>;
     let cnt = length (fa_vm_ids fa);
     if cnt = 0 then Some s
     else do {
       let ctx = (if unat (dc_poll_next_vm ctx) \<ge> cnt then ctx\<lparr>dc_poll_next_vm := 0\<rparr> else ctx);
       (oob, s) \<leftarrow> fetch_all_loop env cnt mx cnt [] (s\<lparr>fe_ctx := ctx\<rparr>);
       if fe_k s = 0 then fetch_all_oob env cnt mx oob s else Some s } }"

section \<open>Applying a queue entry\<close>

text \<open>The entry is read again. The result is 0 if a packet was made in the buffer, and 1 otherwise.\<close>

definition fast_appctx_poll_bump ::
  "fp_env \<Rightarrow> fp_mem \<Rightarrow> dataplane_context \<Rightarrow> u16 \<times> u64 \<Rightarrow> network_buf \<Rightarrow> u32 \<Rightarrow> (int \<times> fp_mem \<times> dataplane_context) option" where
  "fast_appctx_poll_bump env fp ctx pqe nb ts = do {
     m \<leftarrow> shm_get (fp_shm fp) (fst pqe);
     b \<leftarrow> mem_read m (unat (snd pqe)) (unat sizeof_atx);
     let atx = atx_load b 0;
     (ret, fp, ctx) \<leftarrow> fast_flows_bump env fp ctx (atx_flow_id atx) (atx_bump_seq atx) (atx_rx_bump atx) (atx_tx_bump atx)
       (atx_flags atx) nb ts;
     m \<leftarrow> shm_get (fp_shm fp) (fst pqe);
     m \<leftarrow> mem_write m (unat (snd pqe) + 15) [0];
     Some (if ret \<noteq> 0 then 1 else ret, fp\<lparr>fp_shm := (fp_shm fp)(fst pqe := m)\<rparr>, ctx) }"

section \<open>Receive queues of the applications\<close>

text \<open>The result is the address of the entry, or \<open>None\<close> inside the option for the return code -1.\<close>

definition fast_actx_rxq_alloc :: "fp_env \<Rightarrow> flextcp_pl_appctx \<Rightarrow> (u64 option \<times> flextcp_pl_appctx) option" where
  "fast_actx_rxq_alloc env actx =
     (if ac_rx_avail actx = 0 then Some (None, actx)
      else do {
        addr \<leftarrow> dma_pointer env (ac_rx_base actx + ucast (ac_rx_head actx)) (ucast sizeof_arx);
        let h = ac_rx_head actx + sizeof_arx;
        let h = (if h \<ge> ac_rx_len actx then h - ac_rx_len actx else h);
        Some (Some addr, actx\<lparr>ac_rx_head := h, ac_rx_avail := ac_rx_avail actx - sizeof_arx\<rparr>) })"

fun rxq_probe_loop :: "fp_env \<Rightarrow> bytes \<Rightarrow> u32 \<Rightarrow> nat \<Rightarrow> flextcp_pl_appctx \<Rightarrow> flextcp_pl_appctx option" where
  "rxq_probe_loop env m pos 0 actx = Some actx"
| "rxq_probe_loop env m pos (Suc n) actx =
     (if \<not> ac_rx_avail actx < ac_rx_len actx then Some actx
      else do {
        addr \<leftarrow> dma_pointer env (ac_rx_base actx + ucast pos) (ucast sizeof_arx);
        b \<leftarrow> mem_read m (unat addr) (unat sizeof_arx);
        if b ! 31 \<noteq> 0 then Some actx
        else do {
          let pos = pos + sizeof_arx;
          let pos = (if pos \<ge> ac_rx_len actx then pos - ac_rx_len actx else pos);
          rxq_probe_loop env m pos n (actx\<lparr>ac_rx_avail := ac_rx_avail actx + sizeof_arx\<rparr>) } })"

definition fast_actx_rxq_probe :: "fp_env \<Rightarrow> fastpath \<Rightarrow> u16 \<Rightarrow> u32 \<Rightarrow> u16 \<Rightarrow> fastpath option" where
  "fast_actx_rxq_probe env fa core cid vmid = do {
     actx \<leftarrow> actx_get fa core (ucast vmid) cid;
     if ac_rx_avail actx > ac_rx_len actx div 2 then Some fa
     else do {
       m \<leftarrow> shm_get (fp_shm (fa_mem fa)) vmid;
       let pos = ac_rx_head actx + ac_rx_avail actx;
       let pos = (if pos \<ge> ac_rx_len actx then pos - ac_rx_len actx else pos);
       actx \<leftarrow> rxq_probe_loop env m pos (2 * BATCH_SIZE) actx;
       Some (actx_put fa core (ucast vmid) cid actx) } }"

partial_function (option) rxq_probe_active_vm_loop :: "fp_env \<Rightarrow> u16 \<Rightarrow> polled_vm \<Rightarrow> u32 \<Rightarrow> fastpath \<Rightarrow> fastpath option" where
  "rxq_probe_active_vm_loop env core v cid fa = do {
     fa \<leftarrow> fast_actx_rxq_probe env fa core cid (ucast (pv_id v));
     c \<leftarrow> pctx_get v cid;
     if pc_next c \<noteq> pv_act_ctx_head v then rxq_probe_active_vm_loop env core v (pc_next c) fa else Some fa }"

definition fast_actx_rxq_probe_active_vm :: "fp_env \<Rightarrow> u16 \<Rightarrow> polled_vm \<Rightarrow> fastpath \<Rightarrow> fastpath option" where
  "fast_actx_rxq_probe_active_vm env core v fa = rxq_probe_active_vm_loop env core v (pv_act_ctx_head v) fa"

partial_function (option) rxq_probe_active_loop :: "fp_env \<Rightarrow> dataplane_context \<Rightarrow> u32 \<Rightarrow> fastpath \<Rightarrow> fastpath option" where
  "rxq_probe_active_loop env ctx vmid fa = do {
     v \<leftarrow> pvm_get ctx vmid;
     fa \<leftarrow> fast_actx_rxq_probe_active_vm env (dc_id ctx) v fa;
     if pv_next v \<noteq> dc_act_head ctx then rxq_probe_active_loop env ctx (pv_next v) fa else Some fa }"

definition fast_actx_rxq_probe_active :: "fp_env \<Rightarrow> dataplane_context \<Rightarrow> fastpath \<Rightarrow> fastpath option" where
  "fast_actx_rxq_probe_active env ctx fa = rxq_probe_active_loop env ctx (dc_act_head ctx) fa"

fun fast_actx_rxq_probe_all_vm :: "fp_env \<Rightarrow> u16 \<Rightarrow> u16 \<Rightarrow> u16 list \<Rightarrow> fastpath \<Rightarrow> fastpath option" where
  "fast_actx_rxq_probe_all_vm env core vmid [] fa = Some fa"
| "fast_actx_rxq_probe_all_vm env core vmid (cid # cids) fa = do {
     fa \<leftarrow> fast_actx_rxq_probe env fa core (ucast cid) vmid;
     fast_actx_rxq_probe_all_vm env core vmid cids fa }"

fun rxq_probe_all_loop :: "fp_env \<Rightarrow> u16 \<Rightarrow> u16 list \<Rightarrow> fastpath \<Rightarrow> fastpath option" where
  "rxq_probe_all_loop env core [] fa = Some fa"
| "rxq_probe_all_loop env core (vmid # vmids) fa = do {
     fa \<leftarrow> fast_actx_rxq_probe_all_vm env core vmid (fa_ctx_ids fa (ucast vmid)) fa;
     rxq_probe_all_loop env core vmids fa }"

definition fast_actx_rxq_probe_all :: "fp_env \<Rightarrow> dataplane_context \<Rightarrow> fastpath \<Rightarrow> fastpath option" where
  "fast_actx_rxq_probe_all env ctx fa = rxq_probe_all_loop env (dc_id ctx) (fa_vm_ids fa) fa"

end
