(* ===== verification/Fast_Kernel.thy ===== *)
theory Fast_Kernel
  imports Fast_Appctx Nicif
begin

text \<open>
  The fast path's side of the kernel queues (\<open>src/tas/fast/fast_kernel.c\<close>): it takes packets and requests for
  retransmission from the slow path, and hands packets without a flow to it. Waking the slow path is left out.
\<close>

unbundle bit_operations_syntax

section \<open>Queue entries in memory\<close>

definition SP_MEM_ID :: u16 where "SP_MEM_ID = of_nat FLEXNIC_PL_VMST_NUM"
definition sizeof_ktx :: u32 where "sizeof_ktx = 64"
definition sizeof_krx :: u32 where "sizeof_krx = 64"
definition FLEXTCP_PL_KRX_PACKET :: u8 where "FLEXTCP_PL_KRX_PACKET = 1"

definition ld64 :: "bytes \<Rightarrow> nat \<Rightarrow> u64" where
  "ld64 b i = ucast (ld32 b i) OR push_bit 32 (ucast (ld32 b (i + 4)))"

text \<open>The fields of \<open>flextcp_pl_ktx\<close>: the message is a union, so both readings of it are possible.\<close>

definition ktx_raw_type :: "bytes \<Rightarrow> u8" where "ktx_raw_type b = b ! 63"
definition ktx_raw_addr :: "bytes \<Rightarrow> u64" where "ktx_raw_addr b = ld64 b 0"
definition ktx_raw_len :: "bytes \<Rightarrow> u16" where "ktx_raw_len b = ld16 b 8"
definition ktx_raw_flow_id :: "bytes \<Rightarrow> u32" where "ktx_raw_flow_id b = ld32 b 0"

text \<open>The fields of \<open>flextcp_pl_krx\<close>; \<open>krx_packet\<close> are the bytes of the message that are written.\<close>

definition krx_raw_type :: "bytes \<Rightarrow> u8" where "krx_raw_type b = b ! 63"
definition krx_raw_addr :: "bytes \<Rightarrow> u64" where "krx_raw_addr b = ld64 b 0"

definition krx_packet :: "u16 \<Rightarrow> u16 \<Rightarrow> u16 \<Rightarrow> u16 \<Rightarrow> bytes" where
  "krx_packet len fn_core flow_group vmid = st16 len @ st16 fn_core @ st16 flow_group @ st16 vmid"

definition kctx_get :: "fastpath \<Rightarrow> u16 \<Rightarrow> flextcp_pl_appctx option" where
  "kctx_get fa core = (if unat core < FLEXNIC_PL_APPST_CTX_MCS then Some (fa_kctx fa core) else None)"

definition kctx_put :: "fastpath \<Rightarrow> u16 \<Rightarrow> flextcp_pl_appctx \<Rightarrow> fastpath" where
  "kctx_put fa core k = fa\<lparr>fa_kctx := (fa_kctx fa)(core := k)\<rparr>"

definition shm_read :: "fastpath \<Rightarrow> u16 \<Rightarrow> u64 \<Rightarrow> nat \<Rightarrow> bytes option" where
  "shm_read fa vm addr n = do { m \<leftarrow> shm_get (fp_shm (fa_mem fa)) vm; mem_read m (unat addr) n }"

definition shm_write :: "fastpath \<Rightarrow> u16 \<Rightarrow> nat \<Rightarrow> bytes \<Rightarrow> fastpath option" where
  "shm_write fa vm pos b = do {
     m \<leftarrow> shm_get (fp_shm (fa_mem fa)) vm;
     m \<leftarrow> mem_write m pos b;
     Some (fa\<lparr>fa_mem := (fa_mem fa)\<lparr>fp_shm := (fp_shm (fa_mem fa))(vm := m)\<rparr>\<rparr>) }"

section \<open>Timestamps of packets from the slow path\<close>

definition inject_tcp_ts :: "fp_env \<Rightarrow> network_buf \<Rightarrow> u16 \<Rightarrow> u32 \<Rightarrow> network_buf option" where
  "inject_tcp_ts env nb len ts =
     (if ucast len < sizeof_pkt_tcp then Some nb
      else do {
        p \<leftarrow> pkt_tcp_load (nb_buf nb) 0;
        if f_beui16 (eth_type (p_eth p)) \<noteq> ETH_TYPE_IP \<or> ip_proto (p_ip p) \<noteq> IP_PROTO_TCP then Some nb
        else do {
          (ret, off) \<leftarrow> tcp_parse_options p (drop (unat sizeof_pkt_tcp) (nb_buf nb)) len;
          if ret \<noteq> 0 then Some nb
          else case off of None \<Rightarrow> Some nb
          | Some off \<Rightarrow> do {
              nb \<leftarrow> network_buf_write nb (unat sizeof_pkt_tcp + unat off + 2) (be32_store (t_beui32 ts));
              let (p, nb) = fast_flows_kernelxsums env nb p (drop (unat sizeof_pkt_tcp) (nb_buf nb));
              network_buf_write nb 0 (pkt_tcp_store p) } } })"

definition inject_tcp_ts_gre :: "fp_env \<Rightarrow> network_buf \<Rightarrow> u16 \<Rightarrow> u32 \<Rightarrow> network_buf option" where
  "inject_tcp_ts_gre env nb len ts =
     (if ucast len < sizeof_pkt_gre then Some nb
      else do {
        p \<leftarrow> pkt_gre_load (nb_buf nb) 0;
        if f_beui16 (eth_type (g_eth p)) \<noteq> ETH_TYPE_IP \<or> ip_proto (g_out_ip p) \<noteq> IP_PROTO_GRE \<or>
          ip_proto (g_in_ip p) \<noteq> IP_PROTO_TCP then Some nb
        else do {
          (ret, off) \<leftarrow> tcp_parse_options_gre p (drop (unat sizeof_pkt_gre) (nb_buf nb)) len;
          if ret \<noteq> 0 then Some nb
          else case off of None \<Rightarrow> Some nb
          | Some off \<Rightarrow> do {
              nb \<leftarrow> network_buf_write nb (unat sizeof_pkt_gre + unat off + 2) (be32_store (t_beui32 ts));
              let (p, nb) = fast_flows_kernelxsums_gre env nb p (drop (unat sizeof_pkt_gre) (nb_buf nb));
              network_buf_write nb 0 (pkt_gre_store p) } } })"

section \<open>Requests from the slow path\<close>

text \<open>
  The result is 0 if the buffer was used, 1 if a request was handled without it, and -1 if there was none. Tunnels are
  switched off in the build.
\<close>

definition kernel_packet_send :: "fp_env \<Rightarrow> fastpath \<Rightarrow> dataplane_context \<Rightarrow> network_buf \<Rightarrow> u32 \<Rightarrow> bytes \<Rightarrow> bool \<Rightarrow> dataplane_context option" where
  "kernel_packet_send env fa ctx nb ts ktx with_ts = do {
     let len = ktx_raw_len ktx;
     b \<leftarrow> dma_read env (fp_shm (fa_mem fa)) (ktx_raw_addr ktx) (ucast len) SP_MEM_ID;
     nb \<leftarrow> network_buf_write nb 0 b;
     nb \<leftarrow> (if with_ts then inject_tcp_ts env nb len ts else Some nb);
     tx_send ctx nb 0 len }"

definition kernel_request ::
  "fp_env \<Rightarrow> fastpath \<Rightarrow> dataplane_context \<Rightarrow> network_buf \<Rightarrow> u32 \<Rightarrow> bytes \<Rightarrow> (int \<times> fastpath \<times> dataplane_context) option" where
  "kernel_request env fa ctx nb ts ktx =
     (if ktx_raw_type ktx = FLEXTCP_PL_KTX_PACKET then do {
        ctx \<leftarrow> kernel_packet_send env fa ctx nb ts ktx True;
        Some (0, fa, ctx) }
      else if ktx_raw_type ktx = FLEXTCP_PL_KTX_PACKET_NOTS then do {
        ctx \<leftarrow> kernel_packet_send env fa ctx nb ts ktx False;
        Some (0, fa, ctx) }
      else if ktx_raw_type ktx = FLEXTCP_PL_KTX_CONNRETRAN then do {
        c_assert (fs_ok (ktx_raw_flow_id ktx));
        (fp, ctx) \<leftarrow> fast_flows_retransmit (fa_mem fa) ctx (ktx_raw_flow_id ktx);
        Some (1, fa\<lparr>fa_mem := fp\<rparr>, ctx) }
      else if ktx_raw_type ktx = FLEXTCP_PL_KTX_WINRETRAN then do {
        c_assert (fs_ok (ktx_raw_flow_id ktx));
        ctx \<leftarrow> fast_flows_winretransmit env (fa_mem fa) ctx (ktx_raw_flow_id ktx) nb ts;
        Some (0, fa, ctx) }
      else None)"

definition fast_kernel_poll ::
  "fp_env \<Rightarrow> fastpath \<Rightarrow> dataplane_context \<Rightarrow> network_buf \<Rightarrow> u32 \<Rightarrow> (int \<times> fastpath \<times> dataplane_context) option" where
  "fast_kernel_poll env fa ctx nb ts = do {
     kctx \<leftarrow> kctx_get fa (dc_id ctx);
     if ac_tx_len kctx = 0 then Some (- 1, fa, ctx)
     else do {
       addr \<leftarrow> dma_pointer env (ac_tx_base kctx + ucast (ac_tx_head kctx)) (ucast sizeof_ktx);
       ktx \<leftarrow> shm_read fa SP_MEM_ID addr (unat sizeof_ktx);
       if ktx_raw_type ktx = 0 then Some (- 1, fa, ctx)
       else do {
         (ret, fa, ctx) \<leftarrow> kernel_request env fa ctx nb ts ktx;
         fa \<leftarrow> shm_write fa SP_MEM_ID (unat addr + 63) [0];
         let h = ac_tx_head kctx + sizeof_ktx;
         let h = (if h \<ge> ac_tx_len kctx then h - ac_tx_len kctx else h);
         Some (ret, kctx_put fa (dc_id ctx) (kctx\<lparr>ac_tx_head := h\<rparr>), ctx) } } }"

section \<open>Packets for the slow path\<close>

definition fast_kernel_packet ::
  "fp_env \<Rightarrow> u16 \<Rightarrow> fastpath \<Rightarrow> dataplane_context \<Rightarrow> network_buf \<Rightarrow> (fastpath \<times> dataplane_context) option" where
  "fast_kernel_packet env rss_reta_size fa ctx nb = do {
     kctx \<leftarrow> kctx_get fa (dc_id ctx);
     if ac_rx_len kctx = 0 then Some (fa, ctx)
     else do {
       addr \<leftarrow> dma_pointer env (ac_rx_base kctx + ucast (ac_rx_head kctx)) (ucast sizeof_krx);
       krx \<leftarrow> shm_read fa SP_MEM_ID addr (unat sizeof_krx);
       if krx_raw_type krx \<noteq> 0 then Some (fa, ctx\<lparr>dc_kernel_drop := dc_kernel_drop ctx + 1\<rparr>)
       else do {
         let h = ac_rx_head kctx + sizeof_krx;
         let h = (if h \<ge> ac_rx_len kctx then h - ac_rx_len kctx else h);
         let fa = kctx_put fa (dc_id ctx) (kctx\<lparr>ac_rx_head := h\<rparr>);
         let len = nb_len nb;
         shm \<leftarrow> dma_write env (fp_shm (fa_mem fa)) (krx_raw_addr krx) (ucast len) (drop (unat (nb_off nb)) (nb_buf nb)) SP_MEM_ID;
         let fa = fa\<lparr>fa_mem := (fa_mem fa)\<lparr>fp_shm := shm\<rparr>\<rparr>;
         fa \<leftarrow> shm_write fa SP_MEM_ID (unat addr + 8)
           (krx_packet len (dc_id ctx) (network_buf_flowgroup rss_reta_size nb (dc_id ctx)) (ucast (ac_vm_id kctx)));
         fa \<leftarrow> shm_write fa SP_MEM_ID (unat addr + 63) [FLEXTCP_PL_KRX_PACKET];
         Some (fa, ctx) } } }"

end
