(* ===== verification/Blocking.thy ===== *)
theory Blocking
  imports Tas_Prelude
begin

text \<open>
  Waking cores and deciding when a core may block (\<open>src/tas/blocking.c\<close>). Writing to the event file
  descriptor is the boolean result of \<open>notify_core\<close>; its failure, which aborts, is left out.
\<close>

definition notify_core :: "u64 \<Rightarrow> u64 \<Rightarrow> u64 \<Rightarrow> bool \<times> u64" where
  "notify_core last_ts tsc delta = (if delta = - 1 then (False, last_ts) else (tsc - last_ts > delta, tsc))"

record notify_blockstate =
  last_active_ts :: u64
  can_block :: bool
  second_bar :: bool

definition notify_canblock_reset :: "notify_blockstate \<Rightarrow> notify_blockstate" where
  "notify_canblock_reset nbs = nbs\<lparr>can_block := False, second_bar := False\<rparr>"

definition notify_canblock :: "u64 \<Rightarrow> notify_blockstate \<Rightarrow> bool \<Rightarrow> u64 \<Rightarrow> bool \<times> notify_blockstate" where
  "notify_canblock poll_cycle nbs had_data tsc =
     (if poll_cycle = - 1 then (False, nbs)
      else if had_data then (False, nbs\<lparr>can_block := False, second_bar := False, last_active_ts := tsc\<rparr>)
      else if second_bar nbs then (True, nbs\<lparr>can_block := False, second_bar := False, last_active_ts := tsc\<rparr>)
      else if can_block nbs \<and> tsc - last_active_ts nbs > poll_cycle then (False, nbs\<lparr>second_bar := True\<rparr>)
      else (False, nbs\<lparr>can_block := True\<rparr>))"

text \<open>The decisions for a sequence of rounds, each with its time and whether there was data.\<close>

fun canblock_run :: "u64 \<Rightarrow> notify_blockstate \<Rightarrow> (bool \<times> u64) list \<Rightarrow> bool list" where
  "canblock_run pc nbs [] = []"
| "canblock_run pc nbs ((d, t) # rs) = (let (b, nbs) = notify_canblock pc nbs d t in b # canblock_run pc nbs rs)"

end
