(* ===== verification/Fastemu.thy ===== *)
theory Fastemu
  imports Fast_Kernel Blocking Qman_Props
begin

text \<open>
  The main loop of a fast path core (\<open>src/tas/fast/fastemu.c\<close>): initialisation, receiving, polling of the
  queues, the cache of network buffers, transmission, notifications to the applications and the accounting of
  budgets. What the NIC delivers and accepts, what the buffer pool hands out, and the cycle counter are arguments.
  Prefetching, statistics, blocking and scaling the number of cores are left out.
\<close>

unbundle bit_operations_syntax

section \<open>Initialisation\<close>

definition polled_vm_init :: "polled_vm \<Rightarrow> u16 \<Rightarrow> polled_vm" where
  "polled_vm_init v i = v\<lparr>pv_id := ucast i, pv_next := IDXLIST_INVAL, pv_prev := IDXLIST_INVAL, pv_flags := 0,
     pv_poll_next_ctx := 0, pv_act_ctx_head := IDXLIST_INVAL, pv_act_ctx_tail := IDXLIST_INVAL\<rparr>"

definition polled_ctx_init :: "polled_context \<Rightarrow> u32 \<Rightarrow> u32 \<Rightarrow> polled_context" where
  "polled_ctx_init c i aid = c\<lparr>pc_id := i, pc_vmid := aid, pc_next := IDXLIST_INVAL, pc_prev := IDXLIST_INVAL,
     pc_flags := 0, pc_null_rounds := 0\<rparr>"

text \<open>The part of \<open>dataplane_context_init\<close> that concerns budgets and polling.\<close>

definition polled_vm_setup :: "polled_vm \<Rightarrow> u16 \<Rightarrow> polled_vm" where
  "polled_vm_setup v i = (let v = polled_vm_init v i in
     v\<lparr>pv_ctxs := (\<lambda>j. if unat j < FLEXNIC_PL_APPCTX_NUM then polled_ctx_init (pv_ctxs v j) j (ucast i) else pv_ctxs v j)\<rparr>)"

definition dataplane_context_init :: "fp_env \<Rightarrow> dataplane_context \<Rightarrow> dataplane_context" where
  "dataplane_context_init env ctx = ctx
     \<lparr>dc_budgets := (\<lambda>i. if pvm_ok i then env_max_budget env else dc_budgets ctx i),
      dc_vm_counters := (\<lambda>i. if pvm_ok i then 0 else dc_vm_counters ctx i),
      dc_polled_vms := (\<lambda>i. if pvm_ok i then polled_vm_setup (dc_polled_vms ctx i) (ucast i) else dc_polled_vms ctx i),
      dc_counters_total := 0, dc_poll_rounds := 0, dc_poll_next_vm := 0, dc_act_head := IDXLIST_INVAL,
      dc_act_tail := IDXLIST_INVAL\<rparr>"

section \<open>Buffer cache\<close>

text \<open>Storing buffers from position \<open>i\<close> on, around the end of the array.\<close>

fun cache_store :: "(u16 \<Rightarrow> network_buf) \<Rightarrow> u16 \<Rightarrow> network_buf list \<Rightarrow> (u16 \<Rightarrow> network_buf)" where
  "cache_store c i [] = c"
| "cache_store c i (b # bs) = cache_store (c(i AND (BUFCACHE_SIZE - 1) := b)) (i + 1) bs"

text \<open>\<open>alloc1 n\<close> and \<open>alloc2 n\<close> are what the pool gives for requests of \<open>n\<close> buffers. The result is the number of
  buffers that can be used from the head on.\<close>

definition bufcache_prealloc ::
  "(u16 \<Rightarrow> network_buf list) \<Rightarrow> (u16 \<Rightarrow> network_buf list) \<Rightarrow> dataplane_context \<Rightarrow> u16 \<Rightarrow> u8 \<times> dataplane_context" where
  "bufcache_prealloc alloc1 alloc2 ctx num =
     (let ctx = (if dc_bufcache_num ctx < num then
            let grow = BUFCACHE_SIZE - dc_bufcache_num ctx;
                head = (dc_bufcache_head ctx + dc_bufcache_num ctx) AND (BUFCACHE_SIZE - 1);
                bs = (if unat head + unat grow \<le> unat BUFCACHE_SIZE then alloc1 grow
                      else let g = BUFCACHE_SIZE - head; b1 = alloc1 g in
                        if length b1 = unat g then b1 @ alloc2 (grow - g) else b1)
            in ctx\<lparr>dc_bufcache := cache_store (dc_bufcache ctx) head bs, dc_bufcache_num := dc_bufcache_num ctx + of_nat (length bs)\<rparr>
          else ctx);
          avail = (if unat (dc_bufcache_head ctx) + unat (dc_bufcache_num ctx) \<le> unat BUFCACHE_SIZE
            then dc_bufcache_num ctx else BUFCACHE_SIZE - dc_bufcache_head ctx)
      in (ucast (min num avail), ctx))"

definition bufcache_alloc :: "dataplane_context \<Rightarrow> u16 \<Rightarrow> dataplane_context option" where
  "bufcache_alloc ctx num = do {
     c_assert (num \<le> dc_bufcache_num ctx);
     Some (ctx\<lparr>dc_bufcache_head := (dc_bufcache_head ctx + num) AND (BUFCACHE_SIZE - 1),
       dc_bufcache_num := dc_bufcache_num ctx - num\<rparr>) }"

definition bufcache_free :: "dataplane_context \<Rightarrow> network_buf \<Rightarrow> dataplane_context" where
  "bufcache_free ctx nb =
     (let num = dc_bufcache_num ctx in
      if num < BUFCACHE_SIZE then
        ctx\<lparr>dc_bufcache := (dc_bufcache ctx)((dc_bufcache_head ctx + num) AND (BUFCACHE_SIZE - 1) := network_buf_reset nb),
          dc_bufcache_num := num + 1\<rparr>
      else ctx)"

text \<open>The \<open>i\<close>-th of the buffers that \<open>bufcache_prealloc\<close> points to.\<close>

definition cache_handle :: "dataplane_context \<Rightarrow> u16 \<Rightarrow> network_buf option" where
  "cache_handle ctx i = (if unat (dc_bufcache_head ctx) + unat i < unat BUFCACHE_SIZE
     then Some (dc_bufcache ctx (dc_bufcache_head ctx + i)) else None)"

section \<open>Transmission and notification\<close>

text \<open>\<open>sent n\<close> is the number of packets that the NIC accepts out of \<open>n\<close>.\<close>

definition tx_flush :: "(nat \<Rightarrow> nat) \<Rightarrow> dataplane_context \<Rightarrow> dataplane_context" where
  "tx_flush sent ctx =
     (if dc_tx ctx = [] then ctx
      else let ret = sent (length (dc_tx ctx)) in
        if ret = length (dc_tx ctx) then ctx\<lparr>dc_tx := []\<rparr>
        else if ret > 0 then ctx\<lparr>dc_tx := drop ret (dc_tx ctx)\<rparr> else ctx)"

definition arx_store :: "flextcp_pl_arx \<Rightarrow> bytes" where
  "arx_store a = st32 (ucast (arx_opaque a)) @ st32 (ucast (drop_bit 32 (arx_opaque a))) @ st32 (arx_rx_bump a) @
     st32 (arx_rx_pos a) @ st32 (arx_tx_bump a) @ [arx_flags a] @ replicate 10 0 @ [arx_type a]"

fun arx_alloc_loop :: "fp_env \<Rightarrow> u16 \<Rightarrow> (u16 \<times> u16 \<times> flextcp_pl_arx) list \<Rightarrow> fastpath \<Rightarrow> (u64 list \<times> fastpath) option" where
  "arx_alloc_loop env core [] fa = Some ([], fa)"
| "arx_alloc_loop env core ((cid, vmid, a) # as) fa = do {
     actx \<leftarrow> actx_get fa core (ucast vmid) (ucast cid);
     (r, actx) \<leftarrow> fast_actx_rxq_alloc env actx;
     p \<leftarrow> r;
     (ps, fa) \<leftarrow> arx_alloc_loop env core as (actx_put fa core (ucast vmid) (ucast cid) actx);
     Some (p # ps, fa) }"

fun arx_write_loop :: "(u64 \<times> u16 \<times> u16 \<times> flextcp_pl_arx) list \<Rightarrow> fastpath \<Rightarrow> fastpath option" where
  "arx_write_loop [] fa = Some fa"
| "arx_write_loop ((p, cid, vmid, a) # as) fa = do {
     fa \<leftarrow> shm_write fa vmid (unat p) (arx_store a);
     arx_write_loop as fa }"

fun arx_notify_loop :: "u64 \<Rightarrow> u64 \<Rightarrow> u16 \<Rightarrow> (u16 \<times> u16 \<times> flextcp_pl_arx) list \<Rightarrow> fastpath \<Rightarrow> fastpath option" where
  "arx_notify_loop delta tsc core [] fa = Some fa"
| "arx_notify_loop delta tsc core ((cid, vmid, a) # as) fa = do {
     actx \<leftarrow> actx_get fa core (ucast vmid) (ucast cid);
     let actx = actx\<lparr>ac_last_ts := snd (notify_core (ac_last_ts actx) tsc delta)\<rparr>;
     arx_notify_loop delta tsc core as (actx_put fa core (ucast vmid) (ucast cid) actx) }"

text \<open>\<open>delta\<close> is \<open>poll_cycle_app\<close>. The padding of an entry is zero, as the context is allocated that way.\<close>

definition arx_cache_flush :: "fp_env \<Rightarrow> u64 \<Rightarrow> fastpath \<Rightarrow> dataplane_context \<Rightarrow> u64 \<Rightarrow> (fastpath \<times> dataplane_context) option" where
  "arx_cache_flush env delta fa ctx tsc = do {
     (ps, fa) \<leftarrow> arx_alloc_loop env (dc_id ctx) (dc_arx ctx) fa;
     fa \<leftarrow> arx_write_loop (zip ps (dc_arx ctx)) fa;
     fa \<leftarrow> arx_notify_loop delta tsc (dc_id ctx) (dc_arx ctx) fa;
     Some (fa, ctx\<lparr>dc_arx := []\<rparr>) }"

section \<open>Budgets\<close>

text \<open>\<open>s64\<close>: the value of a signed 64-bit integer after wrap-around.\<close>

definition s64 :: "int \<Rightarrow> int" where
  "s64 x = sint (word_of_int x :: u64)"

fun spend_loop :: "fp_env \<Rightarrow> u64 \<Rightarrow> u16 list \<Rightarrow> real \<Rightarrow> dataplane_context \<Rightarrow> (real \<times> dataplane_context) option" where
  "spend_loop env cycles [] acc ctx = Some (acc, ctx)"
| "spend_loop env cycles (vmid # vms) acc ctx = do {
     c_assert (pvm_ok (ucast vmid));
     let i = (ucast vmid :: u32);
     let counter = real_of_int (sint (dc_vm_counters ctx i));
     let total = real_of_int (sint (dc_counters_total ctx));
     let acc = env_double env (acc + counter);
     let ratio = env_double env (counter / total);
     c_assert (counter \<le> total);
     c_assert (0 \<le> ratio \<and> ratio \<le> 1);
     let vm_cycles = floor (env_double env (env_double env (real (unat cycles)) * ratio));
     spend_loop env cycles vms acc (ctx\<lparr>dc_budgets := (dc_budgets ctx)(i := s64 (dc_budgets ctx i - vm_cycles)),
       dc_vm_counters := (dc_vm_counters ctx)(i := 0)\<rparr>) }"

definition spend_budget :: "fp_env \<Rightarrow> u16 list \<Rightarrow> dataplane_context \<Rightarrow> u64 \<Rightarrow> dataplane_context option" where
  "spend_budget env vm_ids ctx cycles =
     (if dc_counters_total ctx = 0 then Some ctx
      else if vm_ids = [] then
        Some (ctx\<lparr>dc_vm_counters := (\<lambda>i. if pvm_ok i then 0 else dc_vm_counters ctx i), dc_counters_total := 0\<rparr>)
      else do {
        (sum, ctx') \<leftarrow> spend_loop env cycles vm_ids 0 ctx;
        c_assert (sum = real_of_int (sint (dc_counters_total ctx')));
        Some (ctx'\<lparr>dc_counters_total := 0\<rparr>) })"

section \<open>Receiving\<close>

fun rx_budget :: "fp_mem \<Rightarrow> dataplane_context \<Rightarrow> u32 option list \<Rightarrow> bool list option" where
  "rx_budget fp ctx [] = Some []"
| "rx_budget fp ctx (None # fss) = do { bs \<leftarrow> rx_budget fp ctx fss; Some (False # bs) }"
| "rx_budget fp ctx (Some f # fss) = do {
     fs \<leftarrow> fs_get fp f;
     c_assert (dc_vm_ok (fs_vm_id fs));
     bs \<leftarrow> rx_budget fp ctx fss;
     Some ((dc_budgets ctx (ucast (fs_vm_id fs)) > 0) # bs) }"

text \<open>For each packet: the buffer, whether it is dropped, whether it spends budget, its flow and its timestamp option. The
  results are the buffers that are to be freed.\<close>

fun rx_loop :: "fp_env \<Rightarrow> u16 \<Rightarrow> u32 \<Rightarrow> (network_buf \<times> bool \<times> bool \<times> u32 option \<times> u16 option) list \<Rightarrow> fastpath \<Rightarrow>
    dataplane_context \<Rightarrow> (network_buf list \<times> fastpath \<times> dataplane_context) option" where
  "rx_loop env reta ts [] fa ctx = Some ([], fa, ctx)"
| "rx_loop env reta ts ((nb, drp, spend, fs, tso) # ps) fa ctx = do {
     (ret, fp, ctx) \<leftarrow> (if drp then Some (0, fa_mem fa, ctx)
       else case fs of Some f \<Rightarrow> fast_flows_packet env (fa_mem fa) ctx nb f tso spend ts
         | None \<Rightarrow> Some (- 1, fa_mem fa, ctx));
     let fa = fa\<lparr>fa_mem := fp\<rparr>;
     (fa, ctx) \<leftarrow> (if ret < 0 then fast_kernel_packet env reta fa ctx nb else Some (fa, ctx));
     (free, fa, ctx) \<leftarrow> rx_loop env reta ts ps fa ctx;
     Some (if ret > 0 then free else nb # free, fa, ctx) }"

definition batch_max :: "dataplane_context \<Rightarrow> nat" where
  "batch_max ctx = min BATCH_SIZE (TXBUF_SIZE - length (dc_tx ctx))"

text \<open>\<open>rx n\<close> are the packets that the NIC delivers for a request of \<open>n\<close>.\<close>

definition poll_rx :: "fp_env \<Rightarrow> u64 \<Rightarrow> u16 \<Rightarrow> (nat \<Rightarrow> network_buf list) \<Rightarrow> fastpath \<Rightarrow> dataplane_context \<Rightarrow> u32 \<Rightarrow> u64 \<Rightarrow>
    (nat \<times> fastpath \<times> dataplane_context) option" where
  "poll_rx env delta reta rx fa ctx ts tsc = do {
     let bhs = rx (batch_max ctx);
     if bhs = [] then Some (0, fa, ctx)
     else do {
       fss \<leftarrow> fast_flows_packet_fss env (fa_mem fa) bhs;
       spends \<leftarrow> rx_budget (fa_mem fa) ctx fss;
       let drops = (if True \<in> set spends then map2 (\<lambda>f s. f \<noteq> None \<and> \<not> s) fss spends else map (\<lambda>f. False) fss);
       let fss = map2 (\<lambda>f d. if d then None else f) fss drops;
       pfs \<leftarrow> fast_flows_packet_parse (zip bhs (map (\<lambda>f. (f, None)) fss));
       (free, fa, ctx) \<leftarrow> rx_loop env reta ts (zip bhs (zip drops (zip spends pfs))) fa ctx;
       (fa, ctx) \<leftarrow> arx_cache_flush env delta fa ctx tsc;
       Some (length bhs, fa, fold (\<lambda>nb ctx. bufcache_free ctx nb) free ctx) } }"

section \<open>Application queues\<close>

fun bump_loop :: "fp_env \<Rightarrow> u32 \<Rightarrow> (u16 \<times> u64) list \<Rightarrow> u16 \<Rightarrow> fp_mem \<Rightarrow> dataplane_context \<Rightarrow> (u16 \<times> fp_mem \<times> dataplane_context) option" where
  "bump_loop env ts [] num_bufs fp ctx = Some (num_bufs, fp, ctx)"
| "bump_loop env ts (qe # qes) num_bufs fp ctx = do {
     nb \<leftarrow> cache_handle ctx num_bufs;
     (ret, fp, ctx) \<leftarrow> fast_appctx_poll_bump env fp ctx qe nb ts;
     bump_loop env ts qes (if ret = 0 then num_bufs + 1 else num_bufs) fp ctx }"

text \<open>The ring of active VMs moves on.\<close>

definition rotate_vms :: "dataplane_context \<Rightarrow> dataplane_context option" where
  "rotate_vms ctx = do {
     h \<leftarrow> pvm_get ctx (dc_act_head ctx);
     t \<leftarrow> pvm_get ctx (dc_act_tail ctx);
     Some (ctx\<lparr>dc_act_head := pv_next h, dc_act_tail := pv_next t\<rparr>) }"

definition poll_active_queues :: "fp_env \<Rightarrow> (u16 \<Rightarrow> network_buf list) \<Rightarrow> (u16 \<Rightarrow> network_buf list) \<Rightarrow> fastpath \<Rightarrow> dataplane_context \<Rightarrow> u32 \<Rightarrow>
    (u32 \<times> fastpath \<times> dataplane_context) option" where
  "poll_active_queues env alloc1 alloc2 fa ctx ts = do {
     let (mx, ctx) = bufcache_prealloc alloc1 alloc2 ctx (of_nat (batch_max ctx));
     s \<leftarrow> fast_appctx_poll_fetch_active env fa ctx (ucast mx);
     (n, fp, ctx) \<leftarrow> bump_loop env ts (fe_aqes s) 0 (fa_mem (fe_fa s)) (fe_ctx s);
     ctx \<leftarrow> bufcache_alloc ctx n;
     fa \<leftarrow> fast_actx_rxq_probe_active env ctx ((fe_fa s)\<lparr>fa_mem := fp\<rparr>);
     ctx \<leftarrow> rotate_vms ctx;
     ctx \<leftarrow> remove_ctxs_from_active ctx (fe_rem s);
     Some (fe_total s, fa, ctx) }"

definition poll_all_queues :: "fp_env \<Rightarrow> (u16 \<Rightarrow> network_buf list) \<Rightarrow> (u16 \<Rightarrow> network_buf list) \<Rightarrow> fastpath \<Rightarrow> dataplane_context \<Rightarrow> u32 \<Rightarrow>
    (u32 \<times> fastpath \<times> dataplane_context) option" where
  "poll_all_queues env alloc1 alloc2 fa ctx ts = do {
     let (mx, ctx) = bufcache_prealloc alloc1 alloc2 ctx (of_nat (batch_max ctx));
     s \<leftarrow> fast_appctx_poll_fetch_all env fa ctx (ucast mx);
     (n, fp, ctx) \<leftarrow> bump_loop env ts (fe_aqes s) 0 (fa_mem (fe_fa s)) (fe_ctx s);
     ctx \<leftarrow> bufcache_alloc ctx n;
     fa \<leftarrow> fast_actx_rxq_probe_all env ctx ((fe_fa s)\<lparr>fa_mem := fp\<rparr>);
     Some (fe_total s, fa, ctx) }"

definition poll_queues :: "fp_env \<Rightarrow> (u16 \<Rightarrow> network_buf list) \<Rightarrow> (u16 \<Rightarrow> network_buf list) \<Rightarrow> fastpath \<Rightarrow> dataplane_context \<Rightarrow> u32 \<Rightarrow>
    (u32 \<times> fastpath \<times> dataplane_context) option" where
  "poll_queues env alloc1 alloc2 fa ctx ts = do {
     (total, fa, ctx) \<leftarrow> (if dc_poll_rounds ctx mod MAX_POLL_ROUNDS = 0 \<or> dc_act_head ctx = IDXLIST_INVAL
       then poll_all_queues env alloc1 alloc2 fa ctx ts else poll_active_queues env alloc1 alloc2 fa ctx ts);
     Some (total, fa, ctx\<lparr>dc_poll_rounds := (dc_poll_rounds ctx + 1) mod MAX_POLL_ROUNDS\<rparr>) }"

section \<open>Kernel queue and queue manager\<close>

text \<open>Requests that need no buffer do not count, so this loop has no bound of its own.\<close>

partial_function (option) kernel_loop :: "fp_env \<Rightarrow> u32 \<Rightarrow> u16 \<Rightarrow> u16 \<Rightarrow> nat \<Rightarrow> fastpath \<Rightarrow> dataplane_context \<Rightarrow>
    (u16 \<times> nat \<times> fastpath \<times> dataplane_context) option" where
  "kernel_loop env ts mx k cnt fa ctx =
     (if \<not> k < mx then Some (k, cnt, fa, ctx)
      else do {
        nb \<leftarrow> cache_handle ctx k;
        (ret, fa, ctx) \<leftarrow> fast_kernel_poll env fa ctx nb ts;
        if ret < 0 then Some (k, cnt, fa, ctx)
        else kernel_loop env ts mx (if ret = 0 then k + 1 else k) (cnt + 1) fa ctx })"

definition poll_kernel :: "fp_env \<Rightarrow> (u16 \<Rightarrow> network_buf list) \<Rightarrow> (u16 \<Rightarrow> network_buf list) \<Rightarrow> fastpath \<Rightarrow> dataplane_context \<Rightarrow> u32 \<Rightarrow>
    (nat \<times> fastpath \<times> dataplane_context) option" where
  "poll_kernel env alloc1 alloc2 fa ctx ts = do {
     let (mx, ctx) = bufcache_prealloc alloc1 alloc2 ctx (of_nat (min 8 (batch_max ctx)));
     (k, total, fa, ctx) \<leftarrow> kernel_loop env ts (ucast mx) 0 0 fa ctx;
     ctx \<leftarrow> bufcache_alloc ctx k;
     Some (total, fa, ctx) }"

fun qman_loop :: "fp_env \<Rightarrow> u32 \<Rightarrow> poll_entry list \<Rightarrow> u16 \<Rightarrow> fp_mem \<Rightarrow> dataplane_context \<Rightarrow> (u16 \<times> fp_mem \<times> dataplane_context) option" where
  "qman_loop env ts [] off fp ctx = Some (off, fp, ctx)"
| "qman_loop env ts ((fq, bytes, vq) # qs) off fp ctx = do {
     nb \<leftarrow> cache_handle ctx off;
     (use, fp, ctx) \<leftarrow> fast_flows_qman env fp ctx vq fq nb ts;
     qman_loop env ts qs (if use = 0 then off + 1 else off) fp ctx }"

definition poll_qman :: "fp_env \<Rightarrow> (u16 \<Rightarrow> network_buf list) \<Rightarrow> (u16 \<Rightarrow> network_buf list) \<Rightarrow> u32 \<Rightarrow> skiplist_fstate \<Rightarrow> fp_mem \<Rightarrow> dataplane_context \<Rightarrow>
    u32 \<Rightarrow> (nat \<times> fp_mem \<times> dataplane_context) option" where
  "poll_qman env alloc1 alloc2 now sk fp ctx ts = do {
     let (mx, ctx) = bufcache_prealloc alloc1 alloc2 ctx (of_nat (batch_max ctx));
     (ctx, qs) \<leftarrow> tas_qman_poll ctx now sk (unat mx);
     if qs = [] then Some (0, fp, ctx)
     else do {
       (off, fp, ctx) \<leftarrow> qman_loop env ts qs 0 fp ctx;
       ctx \<leftarrow> bufcache_alloc ctx off;
       Some (length qs, fp, ctx) } }"

fun qman_fwd_loop :: "fp_mem \<Rightarrow> u32 list \<Rightarrow> dataplane_context \<Rightarrow> dataplane_context option" where
  "qman_fwd_loop fp [] ctx = Some ctx"
| "qman_fwd_loop fp (f # fs) ctx = do {
     (r, ctx) \<leftarrow> fast_flows_qman_fwd fp ctx f;
     qman_fwd_loop fp fs ctx }"

definition poll_qman_fwd :: "fp_mem \<Rightarrow> dataplane_context \<Rightarrow> (nat \<times> fp_mem \<times> dataplane_context) option" where
  "poll_qman_fwd fp ctx = do {
     let flows = take (4 * BATCH_SIZE) (fp_rings fp (dc_id ctx));
     let fp = fp\<lparr>fp_rings := (fp_rings fp)(dc_id ctx := drop (4 * BATCH_SIZE) (fp_rings fp (dc_id ctx)))\<rparr>;
     ctx \<leftarrow> qman_fwd_loop fp flows ctx;
     Some (length flows, fp, ctx) }"

section \<open>One round of the main loop\<close>

text \<open>
  What the environment contributes to a round: received packets, buffers from the pool for the \<open>i\<close>-th request, packets accepted by the NIC,
  the cycles of the four phases that are charged, the time stamps and the uninitialised variable of the queue manager.
\<close>

record round_in =
  ri_rx :: "nat \<Rightarrow> network_buf list"
  ri_alloc :: "nat \<Rightarrow> u16 \<Rightarrow> network_buf list"
  ri_sent :: "nat \<Rightarrow> nat \<Rightarrow> nat"
  ri_cycles :: "nat \<Rightarrow> u64"
  ri_tsc :: u64
  ri_ts :: u32
  ri_now :: u32
  ri_sk :: skiplist_fstate

definition dataplane_round :: "fp_env \<Rightarrow> u64 \<Rightarrow> u16 \<Rightarrow> round_in \<Rightarrow> fastpath \<Rightarrow> dataplane_context \<Rightarrow> (nat \<times> fastpath \<times> dataplane_context) option" where
  "dataplane_round env delta reta r fa ctx = do {
     (n1, fa, ctx) \<leftarrow> poll_rx env delta reta (ri_rx r) fa ctx (ri_ts r) (ri_tsc r);
     ctx \<leftarrow> spend_budget env (fa_vm_ids fa) ctx (ri_cycles r 0);
     let ctx = tx_flush (ri_sent r 0) ctx;
     (n2, fp, ctx) \<leftarrow> poll_qman_fwd (fa_mem fa) ctx;
     (n3, fp, ctx) \<leftarrow> poll_qman env (ri_alloc r 0) (ri_alloc r 1) (ri_now r) (ri_sk r) fp ctx (ri_ts r);
     ctx \<leftarrow> spend_budget env (fa_vm_ids fa) ctx (ri_cycles r 1);
     (n4, fa, ctx) \<leftarrow> poll_queues env (ri_alloc r 2) (ri_alloc r 3) (fa\<lparr>fa_mem := fp\<rparr>) ctx (ri_ts r);
     ctx \<leftarrow> spend_budget env (fa_vm_ids fa) ctx (ri_cycles r 2);
     (n5, fa, ctx) \<leftarrow> poll_kernel env (ri_alloc r 4) (ri_alloc r 5) fa ctx (ri_ts r);
     ctx \<leftarrow> spend_budget env (fa_vm_ids fa) ctx (ri_cycles r 3);
     Some (n1 + n2 + n3 + unat n4 + n5, fa, tx_flush (ri_sent r 1) ctx) }"

end
