(* ===== verification/Active_Ring.thy ===== *)
theory Active_Ring
  imports Idx_List
begin

text \<open>
  Doubly linked rings of array indices, as the fast path keeps its active VMs and their active contexts. \<open>ring_rep\<close>
  relates a ring to the list of its elements from the head on. The locale \<open>active_ring\<close> is the contract of an
  implementation: its operations are the ones on rings, so they are the ones on lists.
\<close>

record ring =
  rg_head :: u32
  rg_tail :: u32
  rg_next :: "u32 \<Rightarrow> u32"
  rg_prev :: "u32 \<Rightarrow> u32"
  rg_act :: "u32 \<Rightarrow> bool"

definition ring_enq :: "ring \<Rightarrow> u32 \<Rightarrow> ring" where
  "ring_enq r i =
     (if rg_tail r = IDXLIST_INVAL then
        r\<lparr>rg_head := i, rg_tail := i, rg_next := (rg_next r)(i := i), rg_prev := (rg_prev r)(i := i), rg_act := (rg_act r)(i := True)\<rparr>
      else r\<lparr>rg_tail := i, rg_next := (rg_next r)(rg_tail r := i, i := rg_head r),
        rg_prev := (rg_prev r)(rg_head r := i, i := rg_tail r), rg_act := (rg_act r)(i := True)\<rparr>)"

definition ring_del :: "ring \<Rightarrow> u32 \<Rightarrow> ring" where
  "ring_del r i =
     (let n = rg_next r i; p = rg_prev r i in
      if rg_tail r = rg_head r then
        r\<lparr>rg_head := IDXLIST_INVAL, rg_tail := IDXLIST_INVAL, rg_next := (rg_next r)(i := IDXLIST_INVAL),
          rg_prev := (rg_prev r)(i := IDXLIST_INVAL), rg_act := (rg_act r)(i := False)\<rparr>
      else r\<lparr>rg_tail := if n = rg_head r then p else rg_tail r,
        rg_head := if n \<noteq> rg_head r \<and> p = rg_tail r then n else rg_head r,
        rg_next := (rg_next r)(p := n, i := IDXLIST_INVAL), rg_prev := (rg_prev r)(n := p, i := IDXLIST_INVAL),
        rg_act := (rg_act r)(i := False)\<rparr>)"

definition ring_rot :: "ring \<Rightarrow> ring" where
  "ring_rot r = r\<lparr>rg_head := rg_next r (rg_head r), rg_tail := rg_next r (rg_tail r)\<rparr>"

abbreviation linked :: "ring \<Rightarrow> u32 list \<Rightarrow> bool" where
  "linked r xs \<equiv> successively (\<lambda>a b. rg_next r a = b \<and> rg_prev r b = a) xs"

definition ring_rep :: "ring \<Rightarrow> u32 list \<Rightarrow> bool" where
  "ring_rep r xs \<longleftrightarrow> distinct xs \<and> IDXLIST_INVAL \<notin> set xs \<and> (\<forall>i. rg_act r i \<longleftrightarrow> i \<in> set xs) \<and>
     (if xs = [] then rg_head r = IDXLIST_INVAL \<and> rg_tail r = IDXLIST_INVAL
      else rg_head r = hd xs \<and> rg_tail r = last xs \<and> linked r (xs @ [hd xs]))"

lemma ring_repD:
  assumes "ring_rep r xs"
  shows "distinct xs" "IDXLIST_INVAL \<notin> set xs" "\<forall>k. rg_act r k \<longleftrightarrow> k \<in> set xs"
    "xs \<noteq> [] \<Longrightarrow> rg_head r = hd xs" "xs \<noteq> [] \<Longrightarrow> rg_tail r = last xs" "xs \<noteq> [] \<Longrightarrow> linked r (xs @ [hd xs])"
    "xs = [] \<Longrightarrow> rg_head r = IDXLIST_INVAL" "xs = [] \<Longrightarrow> rg_tail r = IDXLIST_INVAL"
  using assms unfolding ring_rep_def by simp_all

lemma linked_cong:
  assumes "linked r xs" "\<And>a. a \<in> set (butlast xs) \<Longrightarrow> rg_next r' a = rg_next r a" "\<And>b. b \<in> set (tl xs) \<Longrightarrow> rg_prev r' b = rg_prev r b"
  shows "linked r' xs"
  using assms
proof (induction xs)
  case (Cons x xs)
  show ?case
  proof (cases xs)
    case (Cons y ys)
    have "linked r' xs" using Cons.IH Cons.prems Cons by auto
    then show ?thesis using Cons.prems Cons by auto
  qed simp
qed simp

lemma ring_rep_enq:
  assumes rep: "ring_rep r xs" and i: "i \<notin> set xs" "i \<noteq> IDXLIST_INVAL"
  shows "ring_rep (ring_enq r i) (xs @ [i])"
proof (cases xs rule: rev_cases)
  case Nil
  then show ?thesis using rep i by (auto simp: ring_rep_def ring_enq_def)
next
  case (snoc ys t)
  have ne: "xs \<noteq> []" and lt: "last xs = t" "t \<in> set xs" using snoc by simp_all
  have t: "rg_tail r = t" "t \<noteq> IDXLIST_INVAL" using ring_repD(5) [OF rep ne] ring_repD(2) [OF rep] lt by auto
  have t': "rg_head r = hd xs" "linked r (xs @ [hd xs])" "distinct xs" "\<forall>k. rg_act r k \<longleftrightarrow> k \<in> set xs"
    using ring_repD(4) [OF rep ne] ring_repD(6) [OF rep ne] ring_repD(1) [OF rep] ring_repD(3) [OF rep] by blast+
  have m: "hd xs \<in> set xs" "t \<in> set xs" "xs \<noteq> []" "last xs = t" using ne lt hd_in_set [OF ne] by simp_all
  have I: "i \<noteq> t" "i \<noteq> hd xs" using i m by auto
  have r': "rg_next (ring_enq r i) = (rg_next r)(t := i, i := hd xs)" "rg_prev (ring_enq r i) = (rg_prev r)(hd xs := i, i := t)"
    "rg_head (ring_enq r i) = hd xs" "rg_tail (ring_enq r i) = i" "rg_act (ring_enq r i) = (rg_act r)(i := True)"
    using t t'(1) by (simp_all add: ring_enq_def)
  have "linked r xs" using t'(2) by (simp add: successively_append_iff)
  then have l: "linked (ring_enq r i) xs"
  proof (rule linked_cong)
    show "rg_next (ring_enq r i) a = rg_next r a" if "a \<in> set (butlast xs)" for a
      using that t'(3) i(1) snoc by (auto simp: r')
    show "rg_prev (ring_enq r i) b = rg_prev r b" if "b \<in> set (tl xs)" for b
      using that t'(3) i(1) m(3) by (cases xs) (auto simp: r')
  qed
  have "linked (ring_enq r i) ((xs @ [i]) @ [hd (xs @ [i])])"
    using l m I by (simp add: successively_append_iff r')
  moreover have "distinct (xs @ [i])" "IDXLIST_INVAL \<notin> set (xs @ [i])" using rep i by (auto simp: ring_rep_def)
  ultimately show ?thesis using t'(4) m(3) unfolding ring_rep_def by (simp add: r')
qed

lemma linked_rot: "linked r (x # ys @ [x]) \<Longrightarrow> ys \<noteq> [] \<Longrightarrow> linked r (ys @ [x, hd ys])"
  using successively_append_iff [of _ "ys @ [x]" "[hd ys]"] by (cases ys) auto

lemma linked_ends:
  assumes "linked r (xs @ [hd xs])" "xs = as @ i # bs"
  shows "rg_next r i = hd (bs @ [hd xs])" "rg_prev r i = last (last xs # as)"
proof -
  show "rg_next r i = hd (bs @ [hd xs])" using assms by (cases bs) (auto simp: successively_append_iff)
  show "rg_prev r i = last (last xs # as)"
  proof (cases as rule: rev_cases)
    case Nil
    then show ?thesis using assms by (cases bs rule: rev_cases) (auto simp: successively_append_iff successively_Cons)
  next
    case (snoc cs c)
    then show ?thesis using assms by (simp add: successively_append_iff)
  qed
qed

lemma ring_rep_rot:
  assumes rep: "ring_rep r xs" and ne: "xs \<noteq> []"
  shows "ring_rep (ring_rot r) (rotate1 xs)"
proof -
  obtain x ys where xs: "xs = x # ys" using ne by (cases xs) auto
  have R: "distinct xs" "IDXLIST_INVAL \<notin> set xs" "\<forall>k. rg_act r k \<longleftrightarrow> k \<in> set xs" "rg_head r = x" "rg_tail r = last xs" "linked r (x # ys @ [x])"
    using rep xs by (auto simp: ring_rep_def)
  have h: "rg_next r x = hd (ys @ [x])" using linked_ends(1) [of r xs "[]" x ys] R(6) xs by simp
  have t: "rg_next r (last xs) = x"
    using linked_ends(1) [of r xs "butlast xs" "last xs" "[]"] R(6) xs by simp
  have "linked r (rotate1 xs @ [hd (rotate1 xs)])"
    using R(6) linked_rot [of r x ys] xs by (cases ys) simp_all
  then show ?thesis using R h t xs by (auto simp: ring_rep_def ring_rot_def)
qed

lemma split_ends:
  assumes "distinct xs" "xs = as @ i # bs"
  shows "as \<noteq> [] \<Longrightarrow> hd as \<in> set as \<and> last as \<in> set as \<and> hd xs = hd as" "bs \<noteq> [] \<Longrightarrow> hd bs \<in> set bs \<and> last bs \<in> set bs \<and> last xs = last bs"
    "as = [] \<Longrightarrow> hd xs = i" "bs = [] \<Longrightarrow> last xs = i" "i \<notin> set as" "i \<notin> set bs" "set as \<inter> set bs = {}"
    "as \<noteq> [] \<Longrightarrow> hd as \<noteq> i \<and> last as \<noteq> i \<and> hd as \<notin> set bs \<and> last as \<notin> set bs"
    "bs \<noteq> [] \<Longrightarrow> hd bs \<noteq> i \<and> last bs \<noteq> i \<and> hd bs \<notin> set as \<and> last bs \<notin> set as"
    "as \<noteq> [] \<Longrightarrow> bs \<noteq> [] \<Longrightarrow> last bs \<noteq> last as \<and> hd as \<noteq> hd bs \<and> last bs \<noteq> hd as"
proof -
  have d: "i \<notin> set as" "i \<notin> set bs" "set as \<inter> set bs = {}" using assms by auto
  show "as \<noteq> [] \<Longrightarrow> hd as \<in> set as \<and> last as \<in> set as \<and> hd xs = hd as" "bs \<noteq> [] \<Longrightarrow> hd bs \<in> set bs \<and> last bs \<in> set bs \<and> last xs = last bs"
    "as = [] \<Longrightarrow> hd xs = i" "bs = [] \<Longrightarrow> last xs = i" "i \<notin> set as" "i \<notin> set bs" "set as \<inter> set bs = {}" using assms(2) d by auto
  show "hd as \<noteq> i \<and> last as \<noteq> i \<and> hd as \<notin> set bs \<and> last as \<notin> set bs" if "as \<noteq> []"
    using that d hd_in_set [OF that] last_in_set [OF that] by blast
  show "hd bs \<noteq> i \<and> last bs \<noteq> i \<and> hd bs \<notin> set as \<and> last bs \<notin> set as" if "bs \<noteq> []"
    using that d hd_in_set [OF that] last_in_set [OF that] by blast
  show "last bs \<noteq> last as \<and> hd as \<noteq> hd bs \<and> last bs \<noteq> hd as" if "as \<noteq> []" "bs \<noteq> []"
    using d hd_in_set [OF that(1)] last_in_set [OF that(1)] hd_in_set [OF that(2)] last_in_set [OF that(2)] by (metis disjoint_iff)
qed

lemma butlast_not_last: "distinct xs \<Longrightarrow> a \<in> set (butlast xs) \<Longrightarrow> a \<in> set xs \<and> a \<noteq> last xs"
  by (cases xs rule: rev_cases) auto

lemma tl_not_hd: "distinct xs \<Longrightarrow> a \<in> set (tl xs) \<Longrightarrow> a \<in> set xs \<and> a \<noteq> hd xs"
  by (cases xs) auto

lemma linked_del:
  assumes l: "linked r (xs @ [hd xs])" and d: "distinct xs" and xs: "xs = as @ i # bs" and ne: "as \<noteq> [] \<or> bs \<noteq> []"
    and r': "rg_next r' = (rg_next r)(rg_prev r i := rg_next r i, i := e)" "rg_prev r' = (rg_prev r)(rg_next r i := rg_prev r i, i := e)"
  shows "linked r' ((as @ bs) @ [hd (as @ bs)])"
proof -
  note S = split_ends [OF d xs]
  have n: "rg_next r i = (if bs = [] then hd xs else hd bs)" and p: "rg_prev r i = (if as = [] then last xs else last as)"
    using linked_ends [OF l xs] by auto
  have la: "linked r as" "linked r bs" using l xs by (auto simp: successively_append_iff successively_Cons)
  have dd: "distinct as" "distinct bs" using d xs by auto
  have A: "linked r' as" if ne: "as \<noteq> []"
  proof (rule linked_cong [OF la(1)])
    show "rg_next r' a = rg_next r a" if "a \<in> set (butlast as)" for a
      using butlast_not_last [OF dd(1) that] S ne by (auto simp: r' p)
    show "rg_prev r' b = rg_prev r b" if "b \<in> set (tl as)" for b
      using tl_not_hd [OF dd(1) that] S ne by (auto simp: r' n)
  qed
  have B: "linked r' bs" if ne: "bs \<noteq> []"
  proof (rule linked_cong [OF la(2)])
    show "rg_next r' a = rg_next r a" if "a \<in> set (butlast bs)" for a
      using butlast_not_last [OF dd(2) that] S ne by (auto simp: r' p)
    show "rg_prev r' b = rg_prev r b" if "b \<in> set (tl bs)" for b
      using tl_not_hd [OF dd(2) that] S ne by (auto simp: r' n)
  qed
  have lh: "as \<noteq> [] \<Longrightarrow> bs \<noteq> [] \<Longrightarrow> rg_next r (last bs) = hd as \<and> rg_prev r (hd as) = last bs"
    using l xs by (auto simp: successively_append_iff successively_Cons hd_append)
  consider "as = []" "bs \<noteq> []" | "as \<noteq> []" "bs = []" | "as \<noteq> []" "bs \<noteq> []" using ne by blast
  then show ?thesis
  proof cases
    case 1
    have "hd bs \<noteq> i" "last bs \<noteq> i" using S(9) 1 by simp_all
    then show ?thesis using 1 B S(2) by (simp add: successively_append_iff r' n p)
  next
    case 2
    have "hd as \<noteq> i" "last as \<noteq> i" using S(8) 2 by simp_all
    then show ?thesis using 2 A S(1) by (simp add: successively_append_iff r' n p)
  next
    case 3
    have "last bs \<noteq> i" "hd as \<noteq> i" "last bs \<noteq> last as" "hd as \<noteq> hd bs" "last as \<noteq> i" "hd bs \<noteq> i"
      using S(8-10) 3 by simp_all
    then show ?thesis using 3 A B lh by (simp add: successively_append_iff r' n p)
  qed
qed

lemma ring_rep_del:
  assumes rep: "ring_rep r xs" and i: "i \<in> set xs"
  shows "ring_rep (ring_del r i) (remove1 i xs)"
proof -
  obtain as bs where xs: "xs = as @ i # bs" "i \<notin> set as" using split_list_first [OF i] by blast
  have R: "distinct xs" "IDXLIST_INVAL \<notin> set xs" "\<forall>k. rg_act r k \<longleftrightarrow> k \<in> set xs" "rg_head r = hd xs" "rg_tail r = last xs" "linked r (xs @ [hd xs])"
    using rep xs by (auto simp: ring_rep_def split: if_splits)
  note S = split_ends [OF R(1) xs(1)]
  have n: "rg_next r i = (if bs = [] then hd xs else hd bs)" and p: "rg_prev r i = (if as = [] then last xs else last as)"
    using linked_ends [OF R(6) xs(1)] by auto
  have rm: "remove1 i xs = as @ bs" using xs by (simp add: remove1_append)
  show ?thesis
  proof (cases "as = [] \<and> bs = []")
    case True
    then show ?thesis using R xs by (auto simp: ring_rep_def ring_del_def rm)
  next
    case False
    then have ne: "as \<noteq> [] \<or> bs \<noteq> []" by blast
    have ht: "last xs \<noteq> hd xs" using S(1-4,8-10) ne by (cases "as = []"; cases "bs = []") auto
    have "hd (as @ bs) = (if rg_next r i \<noteq> hd xs \<and> rg_prev r i = last xs then rg_next r i else hd xs)"
      using S(1-4,8-10) ne by (cases "as = []"; cases "bs = []") (auto simp: n p)
    then have h: "rg_head (ring_del r i) = hd (as @ bs)" using ht R(4,5) by (simp add: ring_del_def Let_def)
    have "last (as @ bs) = (if rg_next r i = hd xs then rg_prev r i else last xs)"
      using S(1-4,8-10) ne by (cases "as = []"; cases "bs = []") (auto simp: n p)
    then have t: "rg_tail (ring_del r i) = last (as @ bs)" using ht R(4,5) by (simp add: ring_del_def Let_def)
    have l: "linked (ring_del r i) ((as @ bs) @ [hd (as @ bs)])"
      using ht R(4,5) by (intro linked_del [OF R(6,1) xs(1) ne]) (simp_all add: ring_del_def Let_def)
    have a: "\<forall>k. rg_act (ring_del r i) k \<longleftrightarrow> k \<in> set (as @ bs)"
      using R(3) S(5,6) xs(1) by (auto simp: ring_del_def Let_def)
    have "distinct (as @ bs)" "IDXLIST_INVAL \<notin> set (as @ bs)" "as @ bs \<noteq> []" using R(1,2) xs(1) ne by auto
    then show ?thesis using h t l a unfolding ring_rep_def rm by presburger
  qed
qed

section \<open>The contract\<close>

locale active_ring =
  fixes proj :: "'s \<Rightarrow> ring"
    and valid :: "u32 \<Rightarrow> bool"
    and enq :: "'s \<Rightarrow> u32 \<Rightarrow> 's option"
    and del :: "'s \<Rightarrow> u32 \<Rightarrow> 's option"
    and rot :: "'s \<Rightarrow> 's option"
  assumes valid_inval: "\<not> valid IDXLIST_INVAL"
    and enq_ring: "ring_rep (proj s) xs \<Longrightarrow> list_all valid xs \<Longrightarrow> valid i \<Longrightarrow> i \<notin> set xs \<Longrightarrow>
      \<exists>s'. enq s i = Some s' \<and> proj s' = ring_enq (proj s) i"
    and del_ring: "ring_rep (proj s) xs \<Longrightarrow> list_all valid xs \<Longrightarrow> i \<in> set xs \<Longrightarrow>
      \<exists>s'. del s i = Some s' \<and> proj s' = ring_del (proj s) i"
    and rot_ring: "ring_rep (proj s) xs \<Longrightarrow> list_all valid xs \<Longrightarrow> xs \<noteq> [] \<Longrightarrow>
      \<exists>s'. rot s = Some s' \<and> proj s' = ring_rot (proj s)"
begin

definition rep :: "'s \<Rightarrow> u32 list \<Rightarrow> bool" where
  "rep s xs \<longleftrightarrow> ring_rep (proj s) xs \<and> list_all valid xs"

lemma enq_list: "rep s xs \<Longrightarrow> valid i \<Longrightarrow> i \<notin> set xs \<Longrightarrow> \<exists>s'. enq s i = Some s' \<and> proj s' = ring_enq (proj s) i \<and> rep s' (xs @ [i])"
  using enq_ring [of s xs i] ring_rep_enq [of "proj s" xs i] valid_inval by (auto simp: rep_def) metis

lemma del_list: "rep s xs \<Longrightarrow> i \<in> set xs \<Longrightarrow> \<exists>s'. del s i = Some s' \<and> proj s' = ring_del (proj s) i \<and> rep s' (remove1 i xs)"
  using del_ring [of s xs i] ring_rep_del [of "proj s" xs i] set_remove1_subset [of i xs] unfolding rep_def list_all_iff by (metis subset_eq)

lemma rot_list: "rep s xs \<Longrightarrow> xs \<noteq> [] \<Longrightarrow> \<exists>s'. rot s = Some s' \<and> proj s' = ring_rot (proj s) \<and> rep s' (rotate1 xs)"
  using rot_ring [of s xs] ring_rep_rot [of "proj s" xs] by (auto simp: rep_def list_all_iff)

end

end
