(* ===== verification/Appctx_Rings.thy ===== *)
theory Appctx_Rings
  imports Fastemu Active_Ring
begin

text \<open>
  The rings of active VMs and of active contexts satisfy the contract of \<open>Active_Ring\<close>, and together they form the
  polling state of a core: a VM is active exactly if it has an active context.
\<close>

unbundle bit_operations_syntax

definition is_active :: "u16 \<Rightarrow> bool" where "is_active f \<longleftrightarrow> f AND FLAG_ACTIVE \<noteq> 0"

lemma is_active_simps [simp]: "is_active (f OR FLAG_ACTIVE)" "\<not> is_active (f AND NOT FLAG_ACTIVE)" "\<not> is_active 0"
proof -
  have "bit ((f OR FLAG_ACTIVE) AND FLAG_ACTIVE) 0" by (simp add: bit_simps FLAG_ACTIVE_def)
  then show "is_active (f OR FLAG_ACTIVE)" by (auto simp: is_active_def)
  have "(f AND NOT FLAG_ACTIVE) AND FLAG_ACTIVE = 0" by (rule bit_word_eqI) (auto simp: bit_and_iff bit_not_iff)
  then show "\<not> is_active (f AND NOT FLAG_ACTIVE)" by (simp add: is_active_def)
qed (simp add: is_active_def)

definition ctx_ring :: "polled_vm \<Rightarrow> ring" where
  "ctx_ring v = \<lparr>rg_head = pv_act_ctx_head v, rg_tail = pv_act_ctx_tail v, rg_next = (\<lambda>i. pc_next (pv_ctxs v i)),
     rg_prev = (\<lambda>i. pc_prev (pv_ctxs v i)), rg_act = (\<lambda>i. pctx_ok i \<and> is_active (pc_flags (pv_ctxs v i)))\<rparr>"

definition vm_ring :: "dataplane_context \<Rightarrow> ring" where
  "vm_ring ctx = \<lparr>rg_head = dc_act_head ctx, rg_tail = dc_act_tail ctx, rg_next = (\<lambda>i. pv_next (dc_polled_vms ctx i)),
     rg_prev = (\<lambda>i. pv_prev (dc_polled_vms ctx i)), rg_act = (\<lambda>i. pvm_ok i \<and> is_active (pv_flags (dc_polled_vms ctx i)))\<rparr>"

lemma ok_inval: "\<not> pctx_ok IDXLIST_INVAL" "\<not> pvm_ok IDXLIST_INVAL"
  by (simp_all add: pctx_ok_def pvm_ok_def IDXLIST_INVAL_def FLEXNIC_PL_APPST_CTX_NUM_def FLEXNIC_PL_VMST_NUM_def unsigned_minus_1_eq_mask mask_numeral)

lemma ring_rep_ends:
  assumes "ring_rep r xs" "list_all valid xs"
  shows "rg_tail r \<noteq> IDXLIST_INVAL \<Longrightarrow> valid (rg_tail r) \<and> valid (rg_head r) \<and> rg_tail r \<in> set xs \<and> rg_head r \<in> set xs"
    "i \<in> set xs \<Longrightarrow> valid (rg_next r i) \<and> valid (rg_prev r i)"
proof -
  note R = ring_repD [OF assms(1)]
  show "valid (rg_tail r) \<and> valid (rg_head r) \<and> rg_tail r \<in> set xs \<and> rg_head r \<in> set xs" if "rg_tail r \<noteq> IDXLIST_INVAL"
  proof -
    have "xs \<noteq> []" using that R(8) by blast
    then show ?thesis using R(4,5) assms(2) hd_in_set [of xs] last_in_set [of xs] by (simp add: list_all_iff)
  qed
  show "valid (rg_next r i) \<and> valid (rg_prev r i)" if i: "i \<in> set xs"
  proof -
    obtain as bs where xs: "xs = as @ i # bs" using split_list [OF i] by blast
    then have ne: "xs \<noteq> []" by simp
    have "hd (bs @ [hd xs]) \<in> set xs" "last (last xs # as) \<in> set xs"
      using xs hd_in_set [OF ne] last_in_set [OF ne] by (cases bs; simp) (cases as rule: rev_cases; simp add: xs)
    then show ?thesis using linked_ends [OF R(6) [OF ne] xs] assms(2) by (simp add: list_all_iff)
  qed
qed

lemma ctx_enq:
  assumes "ring_rep (ctx_ring v) xs" "list_all pctx_ok xs" "pctx_ok i" "i \<notin> set xs"
  shows "\<exists>v'. enqueue_ctx_to_active v i = Some v' \<and> ctx_ring v' = ring_enq (ctx_ring v) i"
proof (cases "pv_act_ctx_tail v = IDXLIST_INVAL")
  case True
  then show ?thesis using assms(3)
    by (auto simp: enqueue_ctx_to_active_def pctx_get_def pctx_put_def ctx_ring_def ring_enq_def fun_eq_iff)
next
  case False
  then have "pctx_ok (pv_act_ctx_tail v)" "pctx_ok (pv_act_ctx_head v)" "i \<noteq> pv_act_ctx_tail v" "i \<noteq> pv_act_ctx_head v"
    using ring_rep_ends(1) [OF assms(1,2)] assms(4) by (auto simp: ctx_ring_def)
  then show ?thesis using False assms(3)
    by (auto simp: enqueue_ctx_to_active_def pctx_get_def pctx_put_def ctx_ring_def ring_enq_def fun_eq_iff)
qed

lemma vm_enq:
  assumes "ring_rep (vm_ring v) xs" "list_all pvm_ok xs" "pvm_ok i" "i \<notin> set xs"
  shows "\<exists>v'. enqueue_vm_to_active v i = Some v' \<and> vm_ring v' = ring_enq (vm_ring v) i"
proof (cases "dc_act_tail v = IDXLIST_INVAL")
  case True
  then show ?thesis using assms(3)
    by (auto simp: enqueue_vm_to_active_def pvm_get_def pvm_put_def vm_ring_def ring_enq_def fun_eq_iff)
next
  case False
  then have "pvm_ok (dc_act_tail v)" "pvm_ok (dc_act_head v)" "i \<noteq> dc_act_tail v" "i \<noteq> dc_act_head v"
    using ring_rep_ends(1) [OF assms(1,2)] assms(4) by (auto simp: vm_ring_def)
  then show ?thesis using False assms(3)
    by (auto simp: enqueue_vm_to_active_def pvm_get_def pvm_put_def vm_ring_def ring_enq_def fun_eq_iff)
qed

text \<open>Removal writes the links of the two neighbours and clears the element.\<close>

definition unlink_ctx :: "polled_vm \<Rightarrow> u32 \<Rightarrow> u32 \<Rightarrow> u32 \<Rightarrow> polled_vm" where
  "unlink_ctx v p n i =
     (let c = (pv_ctxs v)(p := (pv_ctxs v p)\<lparr>pc_next := n\<rparr>); c = c(n := (c n)\<lparr>pc_prev := p\<rparr>) in v\<lparr>pv_ctxs := c(i := ctx_inactive (c i))\<rparr>)"

definition unlink_vm :: "dataplane_context \<Rightarrow> u32 \<Rightarrow> u32 \<Rightarrow> u32 \<Rightarrow> dataplane_context" where
  "unlink_vm v p n i =
     (let c = (dc_polled_vms v)(p := (dc_polled_vms v p)\<lparr>pv_next := n\<rparr>); c = c(n := (c n)\<lparr>pv_prev := p\<rparr>) in v\<lparr>dc_polled_vms := c(i := vm_inactive (c i))\<rparr>)"

lemma remove_ctx_eq:
  fixes v i defines "n \<equiv> pc_next (pv_ctxs v i)" and "p \<equiv> pc_prev (pv_ctxs v i)"
  assumes "pctx_ok i" "pctx_ok n" "pctx_ok p"
  shows "remove_ctx_from_active v i = Some
    (if pv_act_ctx_tail v = pv_act_ctx_head v then
       v\<lparr>pv_act_ctx_head := IDXLIST_INVAL, pv_act_ctx_tail := IDXLIST_INVAL, pv_ctxs := (pv_ctxs v)(i := ctx_inactive (pv_ctxs v i))\<rparr>
     else (unlink_ctx v p n i)\<lparr>pv_act_ctx_tail := (if n = pv_act_ctx_head v then p else pv_act_ctx_tail v),
       pv_act_ctx_head := (if n \<noteq> pv_act_ctx_head v \<and> p = pv_act_ctx_tail v then n else pv_act_ctx_head v)\<rparr>)"
proof (cases "pv_act_ctx_tail v = pv_act_ctx_head v")
  case False
  have i: "(if n = pv_act_ctx_head v then v\<lparr>pv_act_ctx_tail := p\<rparr> else if p = pv_act_ctx_tail v then v\<lparr>pv_act_ctx_head := n\<rparr> else v) =
      v\<lparr>pv_act_ctx_tail := (if n = pv_act_ctx_head v then p else pv_act_ctx_tail v),
       pv_act_ctx_head := (if n \<noteq> pv_act_ctx_head v \<and> p = pv_act_ctx_tail v then n else pv_act_ctx_head v)\<rparr>" by simp
  define t h where "t = (if n = pv_act_ctx_head v then p else pv_act_ctx_tail v)" and
    "h = (if n \<noteq> pv_act_ctx_head v \<and> p = pv_act_ctx_tail v then n else pv_act_ctx_head v)"
  have "remove_ctx_from_active v i = Some ((unlink_ctx v p n i)\<lparr>pv_act_ctx_tail := t, pv_act_ctx_head := h\<rparr>)"
    using assms(3-5) False unfolding remove_ctx_from_active_def pctx_get_def n_def [symmetric] p_def [symmetric]
    by (simp only: if_True if_False if_P bind.bind_lunit Let_def n_def [symmetric] p_def [symmetric] i t_def [symmetric] h_def [symmetric] refl)
      (simp add: pctx_put_def unlink_ctx_def Let_def)
  then show ?thesis using False by (simp only: t_def h_def if_False)
qed (use assms in \<open>simp add: remove_ctx_from_active_def pctx_get_def pctx_put_def\<close>)

lemma remove_vm_eq:
  fixes v i defines "n \<equiv> pv_next (dc_polled_vms v i)" and "p \<equiv> pv_prev (dc_polled_vms v i)"
  assumes "pvm_ok i" "pvm_ok n" "pvm_ok p"
  shows "remove_vm_from_active v i = Some
    (if dc_act_tail v = dc_act_head v then
       v\<lparr>dc_act_head := IDXLIST_INVAL, dc_act_tail := IDXLIST_INVAL, dc_polled_vms := (dc_polled_vms v)(i := vm_inactive (dc_polled_vms v i))\<rparr>
     else (unlink_vm v p n i)\<lparr>dc_act_tail := (if n = dc_act_head v then p else dc_act_tail v),
       dc_act_head := (if n \<noteq> dc_act_head v \<and> p = dc_act_tail v then n else dc_act_head v)\<rparr>)"
proof (cases "dc_act_tail v = dc_act_head v")
  case False
  have i: "(if n = dc_act_head v then v\<lparr>dc_act_tail := p\<rparr> else if p = dc_act_tail v then v\<lparr>dc_act_head := n\<rparr> else v) =
      v\<lparr>dc_act_tail := (if n = dc_act_head v then p else dc_act_tail v),
       dc_act_head := (if n \<noteq> dc_act_head v \<and> p = dc_act_tail v then n else dc_act_head v)\<rparr>" by simp
  define t h where "t = (if n = dc_act_head v then p else dc_act_tail v)" and
    "h = (if n \<noteq> dc_act_head v \<and> p = dc_act_tail v then n else dc_act_head v)"
  have "remove_vm_from_active v i = Some ((unlink_vm v p n i)\<lparr>dc_act_tail := t, dc_act_head := h\<rparr>)"
    using assms(3-5) False unfolding remove_vm_from_active_def pvm_get_def n_def [symmetric] p_def [symmetric]
    by (simp only: if_True if_False if_P bind.bind_lunit Let_def n_def [symmetric] p_def [symmetric] i t_def [symmetric] h_def [symmetric] refl)
      (simp add: pvm_put_def unlink_vm_def Let_def)
  then show ?thesis using False by (simp only: t_def h_def if_False)
qed (use assms in \<open>simp add: remove_vm_from_active_def pvm_get_def pvm_put_def\<close>)

lemma ctx_del:
  assumes "ring_rep (ctx_ring v) xs" "list_all pctx_ok xs" "i \<in> set xs"
  shows "\<exists>v'. remove_ctx_from_active v i = Some v' \<and> ctx_ring v' = ring_del (ctx_ring v) i"
proof -
  have ok: "pctx_ok i" "pctx_ok (pc_next (pv_ctxs v i))" "pctx_ok (pc_prev (pv_ctxs v i))"
    using ring_rep_ends(2) [OF assms] assms(2,3) by (auto simp: ctx_ring_def list_all_iff)
  show ?thesis
  proof (cases "pv_act_ctx_tail v = pv_act_ctx_head v")
    case True
    then show ?thesis unfolding remove_ctx_eq [OF ok]
      by (auto simp: ctx_inactive_def ctx_ring_def ring_del_def Let_def fun_eq_iff)
  next
    case False
    then show ?thesis unfolding remove_ctx_eq [OF ok]
      by (auto simp: ctx_inactive_def ctx_ring_def ring_del_def unlink_ctx_def Let_def fun_eq_iff)
  qed
qed

lemma vm_del:
  assumes "ring_rep (vm_ring v) xs" "list_all pvm_ok xs" "i \<in> set xs"
  shows "\<exists>v'. remove_vm_from_active v i = Some v' \<and> vm_ring v' = ring_del (vm_ring v) i"
proof -
  have ok: "pvm_ok i" "pvm_ok (pv_next (dc_polled_vms v i))" "pvm_ok (pv_prev (dc_polled_vms v i))"
    using ring_rep_ends(2) [OF assms] assms(2,3) by (auto simp: vm_ring_def list_all_iff)
  show ?thesis
  proof (cases "dc_act_tail v = dc_act_head v")
    case True
    then show ?thesis unfolding remove_vm_eq [OF ok]
      by (auto simp: vm_inactive_def vm_ring_def ring_del_def Let_def fun_eq_iff)
  next
    case False
    then show ?thesis unfolding remove_vm_eq [OF ok]
      by (auto simp: vm_inactive_def vm_ring_def ring_del_def unlink_vm_def Let_def fun_eq_iff)
  qed
qed

lemma ctx_rot:
  assumes "ring_rep (ctx_ring v) xs" "list_all pctx_ok xs" "xs \<noteq> []"
  shows "\<exists>v'. rotate_ctxs v = Some v' \<and> ctx_ring v' = ring_rot (ctx_ring v)"
proof -
  have "rg_tail (ctx_ring v) \<noteq> IDXLIST_INVAL" using ring_repD(2,5) [OF assms(1)] assms(3) last_in_set [OF assms(3)] by metis
  then show ?thesis using ring_rep_ends(1) [OF assms(1,2)] by (auto simp: rotate_ctxs_def pctx_get_def ctx_ring_def ring_rot_def)
qed

lemma vm_rot:
  assumes "ring_rep (vm_ring v) xs" "list_all pvm_ok xs" "xs \<noteq> []"
  shows "\<exists>v'. rotate_vms v = Some v' \<and> vm_ring v' = ring_rot (vm_ring v)"
proof -
  have "rg_tail (vm_ring v) \<noteq> IDXLIST_INVAL" using ring_repD(2,5) [OF assms(1)] assms(3) last_in_set [OF assms(3)] by metis
  then show ?thesis using ring_rep_ends(1) [OF assms(1,2)] by (auto simp: rotate_vms_def pvm_get_def vm_ring_def ring_rot_def)
qed

interpretation ctxs: active_ring ctx_ring pctx_ok enqueue_ctx_to_active remove_ctx_from_active rotate_ctxs
  by unfold_locales (use ok_inval ctx_enq ctx_del ctx_rot in blast)+

interpretation vms: active_ring vm_ring pvm_ok enqueue_vm_to_active remove_vm_from_active rotate_vms
  by unfold_locales (use ok_inval vm_enq vm_del vm_rot in blast)+

section \<open>The polling state\<close>

definition poll_inv :: "dataplane_context \<Rightarrow> u32 list \<Rightarrow> (u32 \<Rightarrow> u32 list) \<Rightarrow> bool" where
  "poll_inv ctx vs cs \<longleftrightarrow> vms.rep ctx vs \<and>
     (\<forall>v. pvm_ok v \<longrightarrow> ctxs.rep (dc_polled_vms ctx v) (cs v) \<and> (v \<in> set vs \<longleftrightarrow> cs v \<noteq> []) \<and>
       (\<forall>c \<in> set (cs v). unat c < FLEXNIC_PL_APPCTX_NUM) \<and>
       (\<forall>c. unat c < FLEXNIC_PL_APPCTX_NUM \<longrightarrow> pc_id (pv_ctxs (dc_polled_vms ctx v) c) = c \<and> pc_vmid (pv_ctxs (dc_polled_vms ctx v) c) = v))"

text \<open>The rings and the identifiers of the contexts, which is all that the invariant depends on.\<close>

definition same_rings :: "dataplane_context \<Rightarrow> dataplane_context \<Rightarrow> bool" where
  "same_rings ctx ctx' \<longleftrightarrow> vm_ring ctx' = vm_ring ctx \<and> dc_budgets ctx' = dc_budgets ctx \<and> dc_id ctx' = dc_id ctx \<and>
     (\<forall>v. ctx_ring (dc_polled_vms ctx' v) = ctx_ring (dc_polled_vms ctx v) \<and>
       (\<forall>c. pc_id (pv_ctxs (dc_polled_vms ctx' v) c) = pc_id (pv_ctxs (dc_polled_vms ctx v) c) \<and>
            pc_vmid (pv_ctxs (dc_polled_vms ctx' v) c) = pc_vmid (pv_ctxs (dc_polled_vms ctx v) c)))"

lemma same_rings_refl: "same_rings ctx ctx"
  by (simp add: same_rings_def)

lemma same_rings_trans: "same_rings a b \<Longrightarrow> same_rings b c \<Longrightarrow> same_rings a c"
  by (simp add: same_rings_def)

lemma poll_inv_same: "same_rings ctx ctx' \<Longrightarrow> poll_inv ctx vs cs \<Longrightarrow> poll_inv ctx' vs cs"
  by (simp add: same_rings_def poll_inv_def ctxs.rep_def vms.rep_def)

lemma ctx_upd_ok:
  assumes "pvm_ok v" "pctx_ok c"
  shows "\<exists>ctx'. ctx_upd ctx v c (\<lambda>p. p\<lparr>pc_null_rounds := g p\<rparr>) = Some ctx' \<and> same_rings ctx ctx'"
  using assms by (auto simp: ctx_upd_def pvm_get_def pctx_get_def pvm_put_def pctx_put_def same_rings_def vm_ring_def ctx_ring_def fun_eq_iff)

lemma poll_inv_init:
  assumes "\<And>v c. \<not> is_active (pc_flags (pv_ctxs (dc_polled_vms ctx v) c))"
  shows "poll_inv (dataplane_context_init env ctx) [] (\<lambda>v. [])"
proof -
  have "ring_rep (vm_ring (dataplane_context_init env ctx)) []"
    by (auto simp: ring_rep_def vm_ring_def dataplane_context_init_def polled_vm_setup_def polled_vm_init_def Let_def)
  moreover have "ring_rep (ctx_ring (dc_polled_vms (dataplane_context_init env ctx) v)) []" if "pvm_ok v" for v
    using that assms
    by (auto simp: ring_rep_def ctx_ring_def dataplane_context_init_def polled_vm_setup_def polled_vm_init_def polled_ctx_init_def Let_def)
  moreover have "(ucast (ucast v :: u16) :: u32) = v" if "pvm_ok v" for v
    using that by (simp add: pvm_ok_def FLEXNIC_PL_VMST_NUM_def word_unat_eq_iff unsigned_ucast_eq take_bit_eq_mod unat_mod)
  ultimately show ?thesis
    by (auto simp: poll_inv_def vms.rep_def ctxs.rep_def dataplane_context_init_def polled_vm_setup_def polled_vm_init_def polled_ctx_init_def Let_def)
qed

section \<open>Removing contexts\<close>

text \<open>Removal leaves the identifiers of the contexts and the links of the other level alone.\<close>

lemma remove_ctx_frame:
  assumes "ring_rep (ctx_ring v) xs" "list_all pctx_ok xs" "i \<in> set xs" "remove_ctx_from_active v i = Some v'"
  shows "pv_next v' = pv_next v \<and> pv_prev v' = pv_prev v \<and> pv_flags v' = pv_flags v"
    "pc_id (pv_ctxs v' c) = pc_id (pv_ctxs v c) \<and> pc_vmid (pv_ctxs v' c) = pc_vmid (pv_ctxs v c)"
proof -
  have ok: "pctx_ok i" "pctx_ok (pc_next (pv_ctxs v i))" "pctx_ok (pc_prev (pv_ctxs v i))"
    using ring_rep_ends(2) [OF assms(1-3)] assms(2,3) by (auto simp: ctx_ring_def list_all_iff)
  note e = assms(4) [unfolded remove_ctx_eq [OF ok], symmetric]
  show "pv_next v' = pv_next v \<and> pv_prev v' = pv_prev v \<and> pv_flags v' = pv_flags v"
    using e by (cases "pv_act_ctx_tail v = pv_act_ctx_head v") (simp_all add: unlink_ctx_def Let_def)
  show "pc_id (pv_ctxs v' c) = pc_id (pv_ctxs v c) \<and> pc_vmid (pv_ctxs v' c) = pc_vmid (pv_ctxs v c)"
    using e by (cases "pv_act_ctx_tail v = pv_act_ctx_head v") (simp_all add: unlink_ctx_def ctx_inactive_def Let_def)
qed

lemma remove_vm_frame:
  assumes "ring_rep (vm_ring v) xs" "list_all pvm_ok xs" "i \<in> set xs" "remove_vm_from_active v i = Some v'"
  shows "ctx_ring (dc_polled_vms v' w) = ctx_ring (dc_polled_vms v w) \<and> pv_ctxs (dc_polled_vms v' w) = pv_ctxs (dc_polled_vms v w)"
proof -
  have ok: "pvm_ok i" "pvm_ok (pv_next (dc_polled_vms v i))" "pvm_ok (pv_prev (dc_polled_vms v i))"
    using ring_rep_ends(2) [OF assms(1-3)] assms(2,3) by (auto simp: vm_ring_def list_all_iff)
  note e = assms(4) [unfolded remove_vm_eq [OF ok], symmetric]
  then show ?thesis by (cases "dc_act_tail v = dc_act_head v") (simp_all add: unlink_vm_def vm_inactive_def ctx_ring_def Let_def)
qed

lemma poll_invD:
  assumes "poll_inv ctx vs cs" "pvm_ok v"
  shows "vms.rep ctx vs" "ctxs.rep (dc_polled_vms ctx v) (cs v)" "v \<in> set vs \<longleftrightarrow> cs v \<noteq> []"
    "c \<in> set (cs v) \<Longrightarrow> unat c < FLEXNIC_PL_APPCTX_NUM" "c \<in> set (cs v) \<Longrightarrow> pctx_ok c"
    "c \<in> set (cs v) \<Longrightarrow> pc_id (pv_ctxs (dc_polled_vms ctx v) c) = c \<and> pc_vmid (pv_ctxs (dc_polled_vms ctx v) c) = v"
  using assms by (auto simp: poll_inv_def ctxs.rep_def list_all_iff)

lemma vms_rep_ok: "vms.rep ctx vs \<Longrightarrow> v \<in> set vs \<Longrightarrow> pvm_ok v"
  by (auto simp: vms.rep_def list_all_iff)

definition drop_ctx :: "u32 \<Rightarrow> u32 \<Rightarrow> (u32 \<Rightarrow> u32 list) \<Rightarrow> (u32 \<Rightarrow> u32 list)" where
  "drop_ctx v c cs = cs(v := remove1 c (cs v))"

lemma remove_one:
  assumes inv: "poll_inv ctx vs cs" and v: "pvm_ok v" and c: "c \<in> set (cs v)"
  shows "\<exists>ctx' vs'. remove_ctxs_from_active ctx ((v, c) # rs) = remove_ctxs_from_active ctx' rs \<and> poll_inv ctx' vs' (drop_ctx v c cs)"
proof -
  note I = poll_invD [OF inv v]
  obtain pv where p: "remove_ctx_from_active (dc_polled_vms ctx v) c = Some pv" "ctxs.rep pv (remove1 c (cs v))"
    using ctxs.del_list [OF I(2) c] by blast
  let ?ctx = "pvm_put ctx v pv"
  have fr: "pv_next pv = pv_next (dc_polled_vms ctx v) \<and> pv_prev pv = pv_prev (dc_polled_vms ctx v) \<and> pv_flags pv = pv_flags (dc_polled_vms ctx v)"
      "\<forall>c. pc_id (pv_ctxs pv c) = pc_id (pv_ctxs (dc_polled_vms ctx v) c) \<and> pc_vmid (pv_ctxs pv c) = pc_vmid (pv_ctxs (dc_polled_vms ctx v) c)"
    using remove_ctx_frame [OF _ _ c p(1)] I(2) by (auto simp: ctxs.rep_def)
  have vr: "vm_ring ?ctx = vm_ring ctx" using fr by (auto simp: vm_ring_def pvm_put_def fun_eq_iff)
  have head: "pv_act_ctx_head pv = IDXLIST_INVAL \<longleftrightarrow> remove1 c (cs v) = []"
  proof -
    have r: "ring_rep (ctx_ring pv) (remove1 c (cs v))" using p(2) by (simp add: ctxs.rep_def)
    have "pv_act_ctx_head pv = rg_head (ctx_ring pv)" by (simp add: ctx_ring_def)
    then show ?thesis using ring_repD(2,4,7) [OF r] hd_in_set [of "remove1 c (cs v)"] by metis
  qed
  have step: "remove_ctxs_from_active ctx ((v, c) # rs) =
      do { ctx' \<leftarrow> (if pv_act_ctx_head pv = IDXLIST_INVAL then remove_vm_from_active ?ctx v else Some ?ctx); remove_ctxs_from_active ctx' rs }"
    using v I(5,6) [OF c] p(1) by (simp add: pvm_get_def pctx_get_def)
  have base: "poll_inv ctx' vs' (drop_ctx v c cs)"
    if "vms.rep ctx' vs'" "\<forall>w. ctx_ring (dc_polled_vms ctx' w) = ctx_ring (dc_polled_vms ?ctx w) \<and> pv_ctxs (dc_polled_vms ctx' w) = pv_ctxs (dc_polled_vms ?ctx w)"
      "\<forall>w. pvm_ok w \<longrightarrow> (w \<in> set vs' \<longleftrightarrow> drop_ctx v c cs w \<noteq> [])" for ctx' vs'
    using that inv p(2) fr set_remove1_subset [of c "cs v"] unfolding poll_inv_def ctxs.rep_def drop_ctx_def
    by (auto simp: pvm_put_def)
  show ?thesis
  proof (cases "remove1 c (cs v) = []")
    case True
    have vs: "v \<in> set vs" using I(3) c by auto
    obtain ctx' where x: "remove_vm_from_active ?ctx v = Some ctx'" "vms.rep ctx' (remove1 v vs)"
      using vms.del_list [of ?ctx vs v] I(1) vr vs by (auto simp: vms.rep_def)
    have d: "distinct vs" using I(1) ring_repD(1) by (auto simp: vms.rep_def)
    have "poll_inv ctx' (remove1 v vs) (drop_ctx v c cs)"
      using x(2) remove_vm_frame [OF _ _ vs x(1)] I(1) vr inv True d by (intro base) (auto simp: poll_inv_def drop_ctx_def vms.rep_def)
    then show ?thesis using step head True x(1) by auto
  next
    case False
    have "v \<in> set vs" using I(3) c by auto
    then have "poll_inv ?ctx vs (drop_ctx v c cs)"
      using I(1) vr inv False by (intro base) (auto simp: poll_inv_def drop_ctx_def vms.rep_def)
    then show ?thesis using step head False by auto
  qed
qed

lemma remove_ctxs_ok:
  assumes "poll_inv ctx vs cs" "distinct rs" "\<forall>(v, c) \<in> set rs. pvm_ok v \<and> c \<in> set (cs v)"
  shows "\<exists>ctx' vs' cs'. remove_ctxs_from_active ctx rs = Some ctx' \<and> poll_inv ctx' vs' cs' \<and>
    (\<forall>v. set (cs' v) = {c \<in> set (cs v). (v, c) \<notin> set rs} \<or> \<not> pvm_ok v)"
  using assms
proof (induction rs arbitrary: ctx vs cs)
  case Nil
  then show ?case by auto
next
  case (Cons r rs)
  obtain v c where r: "r = (v, c)" by (cases r)
  have vc: "pvm_ok v" "c \<in> set (cs v)" using Cons.prems r by auto
  obtain ctx' vs' where s: "remove_ctxs_from_active ctx ((v, c) # rs) = remove_ctxs_from_active ctx' rs" "poll_inv ctx' vs' (drop_ctx v c cs)"
    using remove_one [where rs = rs, OF Cons.prems(1) vc] by blast
  have d: "pvm_ok w \<Longrightarrow> distinct (cs w)" for w
    using Cons.prems(1) ring_repD(1) by (auto simp: poll_inv_def ctxs.rep_def)
  have m: "\<forall>(w, e) \<in> set rs. pvm_ok w \<and> e \<in> set (drop_ctx v c cs w)"
    using Cons.prems(2,3) r d by (auto simp: drop_ctx_def)
  obtain ctx'' vs'' cs'' where t: "remove_ctxs_from_active ctx' rs = Some ctx''" "poll_inv ctx'' vs'' cs''"
      "\<forall>w. set (cs'' w) = {e \<in> set (drop_ctx v c cs w). (w, e) \<notin> set rs} \<or> \<not> pvm_ok w"
    using Cons.IH [OF s(2) _ m] Cons.prems(2) unfolding distinct.simps by blast
  have "set (cs'' w) = {e \<in> set (cs w). (w, e) \<notin> set ((v, c) # rs)} \<or> \<not> pvm_ok w" for w
  proof (cases "pvm_ok w")
    case True
    then have "set (cs'' w) = {e \<in> set (drop_ctx v c cs w). (w, e) \<notin> set rs}" using t(3) by blast
    then show ?thesis using d [OF True] by (auto simp: drop_ctx_def)
  qed simp
  then show ?case unfolding r s(1) t(1) using t(2) by blast
qed

end
