(* ===== verification/Appctx_Poll.thy ===== *)
theory Appctx_Poll
  imports Appctx_Rings Flow_Props
begin

text \<open>Polling the active contexts returns, stays within its buffers and keeps the rings consistent.\<close>

unbundle bit_operations_syntax

section \<open>Queues\<close>

definition atx_at :: "fastpath \<Rightarrow> u32 \<Rightarrow> nat \<Rightarrow> flextcp_pl_atx" where
  "atx_at fa v pos = atx_load (take 16 (drop pos (fp_shm (fa_mem fa) (ucast v)))) 0"

text \<open>A transmit queue is switched off, or it lies in the memory of its VM, its head is at an entry, and every entry
  is free or names a flow.\<close>

definition txq_ok :: "fp_env \<Rightarrow> fastpath \<Rightarrow> u16 \<Rightarrow> u32 \<Rightarrow> u32 \<Rightarrow> bool" where
  "txq_ok env fa core v c \<longleftrightarrow> (let a = fa_appctx fa core v c in ac_tx_len a = 0 \<or>
     (16 dvd unat (ac_tx_len a) \<and> 16 dvd unat (ac_tx_head a) \<and> ac_tx_head a < ac_tx_len a \<and> in_shm env (ac_tx_base a) (ac_tx_len a) \<and>
      (\<forall>h < unat (ac_tx_len a). 16 dvd h \<longrightarrow> atx_type (atx_at fa v (unat (ac_tx_base a) + h)) = 0 \<or>
         (atx_type (atx_at fa v (unat (ac_tx_base a) + h)) = FLEXTCP_PL_ATX_CONNUPDATE \<and> fs_ok (atx_flow_id (atx_at fa v (unat (ac_tx_base a) + h)))))))"

definition txqs_ok :: "fp_env \<Rightarrow> fastpath \<Rightarrow> u16 \<Rightarrow> bool" where
  "txqs_ok env fa core \<longleftrightarrow> shm_ok env (fp_shm (fa_mem fa)) \<and> unat core < FLEXNIC_PL_APPST_CTX_MCS \<and>
     (\<forall>v c. pvm_ok v \<and> unat c < FLEXNIC_PL_APPCTX_NUM \<longrightarrow> txq_ok env fa core v c)"

lemma ring_step:
  assumes "16 dvd unat len" "16 dvd unat h" "(h :: u32) < len"
  shows "16 dvd unat (if h + 16 \<ge> len then h + 16 - len else h + 16)" "(if h + 16 \<ge> len then h + 16 - len else h + 16) < len" "unat h + 16 \<le> unat len"
proof -
  have lt: "unat h < unat len" using assms(3) by (simp add: word_less_nat_alt)
  then show le: "unat h + 16 \<le> unat len" using assms(1,2) by (metis dvd_def add_mult_distrib2 le_simps(3) linorder_not_less mult_Suc_right mult_le_mono2 mult_less_cancel1 add.commute nat_mult_less_cancel_disj)
  have u: "unat (h + 16) = unat h + 16" using le unat_lt_u32 [of len] by (subst unat_add_no_wrap) (simp_all del: unat_lt_u32)
  have "h + 16 \<ge> len \<Longrightarrow> h + 16 = len" using le u by (simp add: word_le_nat_alt word_unat_eq_iff)
  then show "16 dvd unat (if h + 16 \<ge> len then h + 16 - len else h + 16)" "(if h + 16 \<ge> len then h + 16 - len else h + 16) < len"
    using assms(2,3) u by (auto simp: not_le dvd_add word_less_nat_alt)
qed

lemma txq_ok_put:
  assumes "txqs_ok env fa core" "pvm_ok v" "unat c < FLEXNIC_PL_APPCTX_NUM"
    and "ac_tx_len a = ac_tx_len (fa_appctx fa core v c)" "ac_tx_base a = ac_tx_base (fa_appctx fa core v c)"
    and "ac_tx_len a \<noteq> 0 \<Longrightarrow> 16 dvd unat (ac_tx_head a) \<and> ac_tx_head a < ac_tx_len a"
  shows "txqs_ok env (actx_put fa core v c a) core"
proof -
  have "fa_mem (actx_put fa core v c a) = fa_mem fa" by (simp add: actx_put_def)
  moreover have "txq_ok env (actx_put fa core v c a) core w d" if "pvm_ok w" "unat d < FLEXNIC_PL_APPCTX_NUM" for w d
  proof (cases "w = v \<and> d = c")
    case True
    then show ?thesis using assms(1,4,5,6) that unfolding txqs_ok_def txq_ok_def Let_def by (auto simp: actx_put_def atx_at_def)
  next
    case False
    then have "fa_appctx (actx_put fa core v c a) core w d = fa_appctx fa core w d" by (auto simp: actx_put_def)
    then show ?thesis using assms(1) that unfolding txqs_ok_def txq_ok_def Let_def by (simp add: actx_put_def atx_at_def)
  qed
  ultimately show ?thesis using assms(1) by (simp add: txqs_ok_def)
qed

lemma pvm_ucast: "pvm_ok v \<Longrightarrow> (ucast (ucast v :: u16) :: u32) = v" "pvm_ok v \<Longrightarrow> unat (ucast v :: u16) = unat v"
  by (simp_all add: pvm_ok_def FLEXNIC_PL_VMST_NUM_def word_unat_eq_iff unsigned_ucast_eq take_bit_eq_mod unat_mod)

text \<open>Fetching succeeds, changes nothing but the head of the queue and the counters, and keeps the queues well-formed.\<close>

lemma poll_fetch_ok:
  assumes q: "txqs_ok env fa (dc_id ctx)" and v: "pvm_ok v" and c: "unat c < FLEXNIC_PL_APPCTX_NUM"
  shows "\<exists>r fa' ctx'. fast_appctx_poll_fetch env fa ctx c (ucast v) spend = Some (r, fa', ctx') \<and> txqs_ok env fa' (dc_id ctx) \<and>
    fa_mem fa' = fa_mem fa \<and> same_rings ctx ctx' \<and> dc_polled_vms ctx' = dc_polled_vms ctx"
proof -
  let ?a = "fa_appctx fa (dc_id ctx) v c"
  have g: "actx_get fa (dc_id ctx) (ucast (ucast v :: u16)) c = Some ?a"
    using q v c by (simp add: actx_get_def actx_ok_def txqs_ok_def pvm_ucast pvm_ok_def)
  show ?thesis
  proof (cases "ac_tx_len ?a = 0")
    case True
    then show ?thesis using g q same_rings_refl by (simp add: fast_appctx_poll_fetch_def)
  next
    case False
    let ?h = "ac_tx_head ?a" let ?addr = "ac_tx_base ?a + ucast ?h"
    have Q: "16 dvd unat (ac_tx_len ?a)" "16 dvd unat ?h" "?h < ac_tx_len ?a" "in_shm env (ac_tx_base ?a) (ac_tx_len ?a)"
        "atx_type (atx_at fa v (unat (ac_tx_base ?a) + unat ?h)) = 0 \<or> (atx_type (atx_at fa v (unat (ac_tx_base ?a) + unat ?h)) = FLEXTCP_PL_ATX_CONNUPDATE \<and>
           fs_ok (atx_flow_id (atx_at fa v (unat (ac_tx_base ?a) + unat ?h))))" and sh: "shm_ok env (fp_shm (fa_mem fa))"
      using q v c False unfolding txqs_ok_def txq_ok_def Let_def by (auto simp: word_less_nat_alt)
    note st = ring_step [OF Q(1,2,3)]
    have u: "unat ?addr = unat (ac_tx_base ?a) + unat ?h"
      using Q(4) st(3) sh by (subst unat_add_no_wrap) (auto simp: in_shm_def unat_ucast_up shm_ok_def word_le_nat_alt)
    have rng: "dma_pointer env ?addr (ucast sizeof_atx) = Some ?addr"
      using dma_range_in [of env ?addr "ucast sizeof_atx"] sh Q(4) st(3) u
      by (simp add: dma_pointer_def shm_ok_def sizeof_atx_def in_shm_def)
    have m: "shm_get (fp_shm (fa_mem fa)) (ucast v) = Some (fp_shm (fa_mem fa) (ucast v))"
      using v by (simp add: shm_get_def pvm_ucast pvm_ok_def)
    have rd: "mem_read (fp_shm (fa_mem fa) (ucast v)) (unat ?addr) (unat sizeof_atx) = Some (take 16 (drop (unat ?addr) (fp_shm (fa_mem fa) (ucast v))))"
      using sh Q(4) st(3) u by (simp add: mem_read_def sizeof_atx_def shm_ok_def in_shm_def)
    have at: "atx_load (take 16 (drop (unat ?addr) (fp_shm (fa_mem fa) (ucast v)))) 0 = atx_at fa v (unat (ac_tx_base ?a) + unat ?h)"
      by (simp add: atx_at_def u)
    note unf = fast_appctx_poll_fetch_def g rng m rd at
    show ?thesis
    proof (cases "atx_type (atx_at fa v (unat (ac_tx_base ?a) + unat ?h)) = 0")
      case True
      then show ?thesis using q same_rings_refl False by (simp add: unf)
    next
      case ne: False
      let ?a' = "?a\<lparr>ac_tx_head := if ?h + sizeof_atx \<ge> ac_tx_len ?a then ?h + sizeof_atx - ac_tx_len ?a else ?h + sizeof_atx\<rparr>"
      have "txqs_ok env (actx_put fa (dc_id ctx) v c ?a') (dc_id ctx)"
        using st(1,2) by (intro txq_ok_put [OF q v c]) (auto simp: sizeof_atx_def split: if_splits)
      moreover have "same_rings ctx (ctx\<lparr>dc_vm_counters := k, dc_counters_total := t\<rparr>)" for k t
        by (simp add: same_rings_def vm_ring_def)
      moreover have "fa_mem (actx_put fa (dc_id ctx) v c ?a') = fa_mem fa" by (simp add: actx_put_def)
      moreover have "\<exists>k t. fast_appctx_poll_fetch env fa ctx c (ucast v) spend = Some (Some (ucast v, ?addr), actx_put fa (dc_id ctx) v c ?a',
          if spend then ctx\<lparr>dc_vm_counters := k, dc_counters_total := t\<rparr> else ctx)"
        using ne Q(5) False unfolding unf bind.bind_lunit Let_def pvm_ucast(1) [OF v]
        by (cases spend) (simp_all add: g [unfolded pvm_ucast(1) [OF v]] rng m rd at, blast)
      ultimately show ?thesis using same_rings_refl by (cases spend) auto
    qed
  qed
qed

section \<open>One context\<close>

definition fe_ok :: "fp_env \<Rightarrow> u16 \<Rightarrow> fetch \<Rightarrow> bool" where
  "fe_ok env mx s \<longleftrightarrow> txqs_ok env (fe_fa s) (dc_id (fe_ctx s)) \<and> length (fe_aqes s) = unat (fe_k s) \<and> fe_k s \<le> mx \<and> unat mx \<le> BATCH_SIZE"

lemma null_round_eq: "null_round = (\<lambda>c. c\<lparr>pc_null_rounds := if pc_null_rounds c = MAX_NULL_ROUNDS then MAX_NULL_ROUNDS else pc_null_rounds c + 1\<rparr>)"
  by (simp add: null_round_def fun_eq_iff)

lemma fetch_active_ctx_loop_ok:
  assumes "fe_ok env mx s" "poll_inv (fe_ctx s) vs cs" "pvm_ok v" "c \<in> set (cs v)" "length (fe_rem s) < BATCH_SIZE"
  shows "\<exists>s'. fetch_active_ctx_loop env v c mx spend n s = Some s' \<and> fe_ok env mx s' \<and> same_rings (fe_ctx s) (fe_ctx s') \<and>
    fa_mem (fe_fa s') = fa_mem (fe_fa s) \<and> (fe_rem s' = fe_rem s \<or> fe_rem s' = fe_rem s @ [(v, c)])"
  using assms
proof (induction n arbitrary: s)
  case 0
  then show ?case using same_rings_refl by auto
next
  case (Suc n)
  note I = poll_invD [OF Suc.prems(2,3)]
  have c: "pctx_ok c" "unat c < FLEXNIC_PL_APPCTX_NUM" "pc_id (pv_ctxs (dc_polled_vms (fe_ctx s) v) c) = c" "pc_vmid (pv_ctxs (dc_polled_vms (fe_ctx s) v) c) = v"
    using I(4,5,6) [OF Suc.prems(4)] by auto
  show ?case
  proof (cases "fe_k s < mx")
    case False
    then show ?thesis using Suc.prems same_rings_refl by auto
  next
    case True
    obtain r fa ctx where f: "fast_appctx_poll_fetch env (fe_fa s) (fe_ctx s) c (ucast v) spend = Some (r, fa, ctx)"
        "txqs_ok env fa (dc_id (fe_ctx s))" "fa_mem fa = fa_mem (fe_fa s)" "same_rings (fe_ctx s) ctx"
      using poll_fetch_ok [of env "fe_fa s" "fe_ctx s" v c spend] Suc.prems(1,3) c(2) by (auto simp: fe_ok_def)
    note unf = fetch_active_ctx_loop.simps(2) pvm_get_def pctx_get_def if_P [OF Suc.prems(3)] if_P [OF c(1)] bind.bind_lunit c(3,4) f(1) prod.case
      if_not_P [OF not_not [THEN iffD2, OF True]] option.case Let_def
    show ?thesis
    proof (cases r)
      case (Some qe)
      obtain ctx' where u: "ctx_upd ctx v c (\<lambda>c. c\<lparr>pc_null_rounds := 0\<rparr>) = Some ctx'" "same_rings ctx ctx'"
        using ctx_upd_ok [OF Suc.prems(3) c(1), of ctx "\<lambda>_. 0"] by auto
      let ?s = "s\<lparr>fe_fa := fa, fe_aqes := fe_aqes s @ [qe], fe_k := fe_k s + 1, fe_ctx := ctx', fe_total := fe_total s + 1\<rparr>"
      have lt: "unat (fe_k s) < unat mx" "unat mx \<le> 16" "length (fe_aqes s) = unat (fe_k s)"
        using True Suc.prems(1) by (auto simp: fe_ok_def word_less_nat_alt BATCH_SIZE_def)
      have k1: "unat (fe_k s + 1) = unat (fe_k s) + 1" using lt by (subst unat_add_no_wrap) simp_all
      have k: "unat (fe_k s + 1) = unat (fe_k s) + 1" "length (fe_aqes s) < BATCH_SIZE" "fe_k s + 1 \<le> mx"
        using k1 lt by (simp_all add: word_le_nat_alt BATCH_SIZE_def)
      have aq: "aqe_add (s\<lparr>fe_fa := fa\<rparr>) qe = Some (s\<lparr>fe_fa := fa, fe_aqes := fe_aqes s @ [qe], fe_k := fe_k s + 1\<rparr>)"
        using k by (simp add: aqe_add_def)
      have sr: "same_rings (fe_ctx s) ctx'" using same_rings_trans [OF f(4) u(2)] .
      have "fe_ok env mx ?s" using Suc.prems(1) k f(2) sr by (simp add: fe_ok_def same_rings_def)
      then obtain s' where s': "fetch_active_ctx_loop env v c mx spend n ?s = Some s'" "fe_ok env mx s'" "same_rings ctx' (fe_ctx s')"
          "fa_mem (fe_fa s') = fa_mem (fe_fa s)" "fe_rem s' = fe_rem s \<or> fe_rem s' = fe_rem s @ [(v, c)]"
        using Suc.IH [of ?s] poll_inv_same [OF sr Suc.prems(2)] Suc.prems(3-5) f(3) by auto
      moreover have "fetch_active_ctx_loop env v c mx spend (Suc n) s = fetch_active_ctx_loop env v c mx spend n ?s"
        unfolding unf Some by (simp add: aq u(1))
      ultimately show ?thesis using same_rings_trans [OF sr] by auto
    next
      case None
      obtain ctx' where u: "ctx_upd ctx v c null_round = Some ctx'" "same_rings ctx ctx'"
        using ctx_upd_ok [OF Suc.prems(3) c(1), of ctx "\<lambda>c. if pc_null_rounds c = MAX_NULL_ROUNDS then MAX_NULL_ROUNDS else pc_null_rounds c + 1"]
        unfolding null_round_eq by auto
      have sr: "same_rings (fe_ctx s) ctx'" using same_rings_trans [OF f(4) u(2)] .
      let ?s = "s\<lparr>fe_fa := fa, fe_ctx := ctx'\<rparr>"
      have "fe_ok env mx ?s" "fe_ok env mx (?s\<lparr>fe_rem := fe_rem s @ [(v, c)]\<rparr>)" using Suc.prems(1) f(2) sr by (simp_all add: fe_ok_def same_rings_def)
      moreover have "fetch_active_ctx_loop env v c mx spend (Suc n) s =
          (if pc_null_rounds (null_round (pv_ctxs (dc_polled_vms (fe_ctx s) v) c)) \<ge> MAX_NULL_ROUNDS then Some (?s\<lparr>fe_rem := fe_rem s @ [(v, c)]\<rparr>) else Some ?s)"
        unfolding unf None using Suc.prems(5) by (simp add: u(1))
      ultimately show ?thesis using sr f(3) by auto
    qed
  qed
qed

section \<open>The contexts of a VM\<close>

text \<open>\<open>adds rem rem' v ds\<close>: the contexts added to the list are some of \<open>ds\<close> of VM \<open>v\<close>, in order.\<close>

definition adds :: "(u32 \<times> u32) list \<Rightarrow> (u32 \<times> u32) list \<Rightarrow> u32 \<Rightarrow> u32 list \<Rightarrow> bool" where
  "adds rem rem' v ds \<longleftrightarrow> (\<exists>es. rem' = rem @ map (Pair v) es \<and> distinct es \<and> set es \<subseteq> set ds \<and> length es \<le> length ds)"

lemma adds_Cons:
  assumes "rem1 = rem \<or> rem1 = rem @ [(v, d)]" "adds rem1 rem' v ds" "d \<notin> set ds"
  shows "adds rem rem' v (d # ds)"
proof -
  obtain es where e: "rem' = rem1 @ map (Pair v) es" "distinct es" "set es \<subseteq> set ds" "length es \<le> length ds"
    using assms(2) by (auto simp: adds_def)
  show ?thesis
  proof (cases "rem1 = rem")
    case True
    then show ?thesis unfolding adds_def using e by (intro exI [where x = es]) auto
  next
    case False
    then show ?thesis unfolding adds_def using e assms(1,3) by (intro exI [where x = "d # es"]) auto
  qed
qed

lemma adds_one: "rem' = rem \<or> rem' = rem @ [(v, d)] \<Longrightarrow> adds rem rem' v (d # ds)"
  unfolding adds_def by (elim disjE) (rule exI [where x = "[]"], simp, rule exI [where x = "[d]"], simp)

lemma ctxs_rep_next:
  assumes "ctxs.rep pv xs" "xs = as @ c # bs"
  shows "pc_next (pv_ctxs pv c) = hd (bs @ [pv_act_ctx_head pv])" "pv_act_ctx_head pv = hd xs"
proof -
  have r: "ring_rep (ctx_ring pv) xs" and ne: "xs \<noteq> []" using assms by (auto simp: ctxs.rep_def)
  show h: "pv_act_ctx_head pv = hd xs" using ring_repD(4) [OF r ne] by (simp add: ctx_ring_def)
  show "pc_next (pv_ctxs pv c) = hd (bs @ [pv_act_ctx_head pv])"
    using linked_ends(1) [OF ring_repD(6) [OF r ne] assms(2)] h by (simp add: ctx_ring_def)
qed

lemma same_rings_rep: "same_rings ctx ctx' \<Longrightarrow> ctxs.rep (dc_polled_vms ctx v) xs \<Longrightarrow> ctxs.rep (dc_polled_vms ctx' v) xs"
  by (simp add: same_rings_def ctxs.rep_def)

lemma fetch_active_vm_loop_ok:
  assumes "fe_ok env mx s" "poll_inv (fe_ctx s) vs cs" "pvm_ok v" "cs v = pre @ c # ds" "length (fe_rem s) + length (c # ds) \<le> BATCH_SIZE"
  shows "\<exists>s'. fetch_active_vm_loop env v mx spend c s = Some s' \<and> fe_ok env mx s' \<and> same_rings (fe_ctx s) (fe_ctx s') \<and>
    fa_mem (fe_fa s') = fa_mem (fe_fa s) \<and> adds (fe_rem s) (fe_rem s') v (c # ds)"
  using assms
proof (induction ds arbitrary: pre c s)
  case Nil
  have c: "c \<in> set (cs v)" "pctx_ok c" using Nil.prems poll_invD(5) [OF Nil.prems(2,3)] by auto
  obtain s1 where s1: "fast_appctx_poll_fetch_active_ctx env v c mx spend s = Some s1" "fe_ok env mx s1" "same_rings (fe_ctx s) (fe_ctx s1)"
      "fa_mem (fe_fa s1) = fa_mem (fe_fa s)" "fe_rem s1 = fe_rem s \<or> fe_rem s1 = fe_rem s @ [(v, c)]"
    using fetch_active_ctx_loop_ok [OF Nil.prems(1-3) c(1)] Nil.prems(5) by (auto simp: fast_appctx_poll_fetch_active_ctx_def)
  have "ctxs.rep (dc_polled_vms (fe_ctx s1) v) (cs v)" using same_rings_rep [OF s1(3) poll_invD(2) [OF Nil.prems(2,3)]] .
  then have "pc_next (pv_ctxs (dc_polled_vms (fe_ctx s1) v) c) = pv_act_ctx_head (dc_polled_vms (fe_ctx s1) v)"
    using ctxs_rep_next(1) Nil.prems(4) by fastforce
  then have "fetch_active_vm_loop env v mx spend c s = Some s1"
    using Nil.prems(3) c(2) s1(1) by (subst fetch_active_vm_loop.simps) (simp add: pvm_get_def pctx_get_def)
  then show ?case using s1 adds_one by auto
next
  case (Cons d ds)
  have c: "c \<in> set (cs v)" "pctx_ok c" using Cons.prems poll_invD(5) [OF Cons.prems(2,3)] by auto
  obtain s1 where s1: "fast_appctx_poll_fetch_active_ctx env v c mx spend s = Some s1" "fe_ok env mx s1" "same_rings (fe_ctx s) (fe_ctx s1)"
      "fa_mem (fe_fa s1) = fa_mem (fe_fa s)" "fe_rem s1 = fe_rem s \<or> fe_rem s1 = fe_rem s @ [(v, c)]"
    using fetch_active_ctx_loop_ok [OF Cons.prems(1-3) c(1)] Cons.prems(5) by (auto simp: fast_appctx_poll_fetch_active_ctx_def)
  have rep: "ctxs.rep (dc_polled_vms (fe_ctx s1) v) (cs v)" using same_rings_rep [OF s1(3) poll_invD(2) [OF Cons.prems(2,3)]] .
  have dist: "distinct (cs v)" using rep ring_repD(1) by (auto simp: ctxs.rep_def)
  have nx: "pc_next (pv_ctxs (dc_polled_vms (fe_ctx s1) v) c) = d" "pv_act_ctx_head (dc_polled_vms (fe_ctx s1) v) = hd (cs v)"
    using ctxs_rep_next [OF rep Cons.prems(4)] by simp_all
  have ne: "d \<noteq> hd (cs v)" using dist Cons.prems(4) by (cases pre) auto
  have step: "fetch_active_vm_loop env v mx spend c s = (if fe_k s1 < mx then fetch_active_vm_loop env v mx spend d s1 else Some s1)"
    using Cons.prems(3) c(2) s1(1) nx ne by (subst fetch_active_vm_loop.simps) (simp add: pvm_get_def pctx_get_def)
  show ?case
  proof (cases "fe_k s1 < mx")
    case True
    have len: "length (fe_rem s1) + length (d # ds) \<le> BATCH_SIZE" using s1(5) Cons.prems(5) by auto
    obtain s2 where s2: "fetch_active_vm_loop env v mx spend d s1 = Some s2" "fe_ok env mx s2" "same_rings (fe_ctx s1) (fe_ctx s2)"
        "fa_mem (fe_fa s2) = fa_mem (fe_fa s1)" "adds (fe_rem s1) (fe_rem s2) v (d # ds)"
      using Cons.IH [OF s1(2) poll_inv_same [OF s1(3) Cons.prems(2)] Cons.prems(3) _ len, of "pre @ [c]"] Cons.prems(4) by auto
    have "c \<notin> set (d # ds)" using dist Cons.prems(4) by auto
    then show ?thesis using step True s2 s1(3,4,5) same_rings_trans [OF s1(3) s2(3)] adds_Cons [OF s1(5) s2(5)] by auto
  next
    case False
    then show ?thesis using step s1 adds_one by auto
  qed
qed

lemma poll_inv_rotate:
  assumes "poll_inv ctx vs cs" "pvm_ok v" "v \<in> set vs"
  shows "\<exists>pv. rotate_ctxs (dc_polled_vms ctx v) = Some pv \<and> poll_inv (pvm_put ctx v pv) vs (cs(v := rotate1 (cs v))) \<and>
    vm_ring (pvm_put ctx v pv) = vm_ring ctx \<and> pv_ctxs pv = pv_ctxs (dc_polled_vms ctx v)"
proof -
  note I = poll_invD [OF assms(1,2)]
  have ne: "cs v \<noteq> []" using I(3) assms(3) by blast
  obtain pv where p: "rotate_ctxs (dc_polled_vms ctx v) = Some pv" "ctxs.rep pv (rotate1 (cs v))"
    using ctxs.rot_list [OF I(2) ne] by blast
  have fr: "pv_next pv = pv_next (dc_polled_vms ctx v)" "pv_prev pv = pv_prev (dc_polled_vms ctx v)" "pv_flags pv = pv_flags (dc_polled_vms ctx v)"
      "pv_ctxs pv = pv_ctxs (dc_polled_vms ctx v)"
    using p(1) by (auto simp: rotate_ctxs_def pctx_get_def split: if_splits bind_splits)
  then have vr: "vm_ring (pvm_put ctx v pv) = vm_ring ctx" by (auto simp: vm_ring_def pvm_put_def fun_eq_iff)
  have "poll_inv (pvm_put ctx v pv) vs (cs(v := rotate1 (cs v)))"
    using assms(1) p(2) fr vr unfolding poll_inv_def vms.rep_def by (auto simp: pvm_put_def)
  then show ?thesis using p(1) vr fr by blast
qed

section \<open>The active VMs\<close>

definition same_sets :: "(u32 \<Rightarrow> u32 list) \<Rightarrow> (u32 \<Rightarrow> u32 list) \<Rightarrow> bool" where
  "same_sets cs cs' \<longleftrightarrow> (\<forall>v. set (cs' v) = set (cs v) \<and> length (cs' v) = length (cs v))"

definition tot :: "(u32 \<Rightarrow> u32 list) \<Rightarrow> u32 list \<Rightarrow> nat" where
  "tot cs vs = sum_list (map (\<lambda>v. length (cs v)) vs)"

lemma same_sets_refl: "same_sets cs cs"
  by (simp add: same_sets_def)

lemma same_sets_trans: "same_sets a b \<Longrightarrow> same_sets b c \<Longrightarrow> same_sets a c"
  by (simp add: same_sets_def)

lemma same_sets_rotate: "same_sets cs (cs(v := rotate1 (cs v)))"
  by (simp add: same_sets_def)

lemma tot_simps [simp]: "tot cs [] = 0" "tot cs (v # vs) = length (cs v) + tot cs vs" "tot cs (xs @ ys) = tot cs xs + tot cs ys"
  by (simp_all add: tot_def)

lemma tot_same: "same_sets cs cs' \<Longrightarrow> tot cs' vs = tot cs vs"
  by (simp add: same_sets_def tot_def)

text \<open>What polling keeps: the queues and the entries fetched, the rings of VMs, the budgets and the shared memory.\<close>

definition polled :: "fp_env \<Rightarrow> u16 \<Rightarrow> u32 list \<Rightarrow> (u32 \<Rightarrow> u32 list) \<Rightarrow> fetch \<Rightarrow> fetch \<Rightarrow> bool" where
  "polled env mx vs cs s s' \<longleftrightarrow> fe_ok env mx s' \<and> (\<exists>cs'. poll_inv (fe_ctx s') vs cs' \<and> same_sets cs cs') \<and>
     vm_ring (fe_ctx s') = vm_ring (fe_ctx s) \<and> dc_budgets (fe_ctx s') = dc_budgets (fe_ctx s) \<and> fa_mem (fe_fa s') = fa_mem (fe_fa s)"

lemma polled_trans:
  assumes "polled env mx vs cs s s1" "\<And>cs1. poll_inv (fe_ctx s1) vs cs1 \<Longrightarrow> same_sets cs cs1 \<Longrightarrow> polled env mx vs cs1 s1 s2"
  shows "polled env mx vs cs s s2"
  using assms unfolding polled_def by (metis same_sets_trans)

lemma fetch_active_vm_ok:
  assumes ok: "fe_ok env mx s" and inv: "poll_inv (fe_ctx s) vs cs" and v: "v \<in> set vs" and len: "length (fe_rem s) + length (cs v) \<le> BATCH_SIZE"
  shows "\<exists>s'. fast_appctx_poll_fetch_active_vm env v mx spend s = Some s' \<and> polled env mx vs cs s s' \<and> adds (fe_rem s) (fe_rem s') v (cs v)"
proof -
  have pv: "pvm_ok v" using vms_rep_ok [of "fe_ctx s" vs v] inv v by (simp add: poll_inv_def)
  note I = poll_invD [OF inv pv]
  obtain c ds where cs: "cs v = c # ds" using I(3) v by (cases "cs v") auto
  have hd: "pv_act_ctx_head (dc_polled_vms (fe_ctx s) v) = c" using ctxs_rep_next(2) [OF I(2), of "[]" c ds] cs by simp
  obtain s1 where s1: "fetch_active_vm_loop env v mx spend c s = Some s1" "fe_ok env mx s1" "same_rings (fe_ctx s) (fe_ctx s1)"
      "fa_mem (fe_fa s1) = fa_mem (fe_fa s)" "adds (fe_rem s) (fe_rem s1) v (cs v)"
    using fetch_active_vm_loop_ok [OF ok inv pv, of "[]" c ds spend] cs len by auto
  obtain p where p: "rotate_ctxs (dc_polled_vms (fe_ctx s1) v) = Some p" "poll_inv (pvm_put (fe_ctx s1) v p) vs (cs(v := rotate1 (cs v)))"
      "vm_ring (pvm_put (fe_ctx s1) v p) = vm_ring (fe_ctx s1)"
    using poll_inv_rotate [OF poll_inv_same [OF s1(3) inv] pv v] by blast
  let ?s = "s1\<lparr>fe_ctx := pvm_put (fe_ctx s1) v p\<rparr>"
  have "fast_appctx_poll_fetch_active_vm env v mx spend s = Some ?s"
    using pv s1(1) p(1) hd by (simp add: fast_appctx_poll_fetch_active_vm_def pvm_get_def)
  moreover have "fe_ok env mx ?s" using s1(2) by (simp add: fe_ok_def pvm_put_def)
  moreover have "dc_budgets (pvm_put (fe_ctx s1) v p) = dc_budgets (fe_ctx s)" using s1(3) by (simp add: same_rings_def pvm_put_def)
  moreover have "vm_ring (pvm_put (fe_ctx s1) v p) = vm_ring (fe_ctx s)" using s1(3) p(3) by (simp add: same_rings_def)
  ultimately show ?thesis using p(2) s1(4,5) same_sets_rotate [of cs v] by (auto simp: polled_def)
qed

lemma vms_rep_next:
  assumes "vms.rep ctx vs" "vs = as @ v # bs"
  shows "pv_next (dc_polled_vms ctx v) = hd (bs @ [dc_act_head ctx])" "dc_act_head ctx = hd vs"
proof -
  have r: "ring_rep (vm_ring ctx) vs" and ne: "vs \<noteq> []" using assms by (auto simp: vms.rep_def)
  show h: "dc_act_head ctx = hd vs" using ring_repD(4) [OF r ne] by (simp add: vm_ring_def)
  show "pv_next (dc_polled_vms ctx v) = hd (bs @ [dc_act_head ctx])"
    using linked_ends(1) [OF ring_repD(6) [OF r ne] assms(2)] h by (simp add: vm_ring_def)
qed

text \<open>\<open>picked cs rem rem' vs\<close>: the contexts added to the list are distinct and active in VMs among \<open>vs\<close>.\<close>

definition picked :: "(u32 \<Rightarrow> u32 list) \<Rightarrow> (u32 \<times> u32) list \<Rightarrow> (u32 \<times> u32) list \<Rightarrow> u32 set \<Rightarrow> bool" where
  "picked cs rem rem' V \<longleftrightarrow> (\<exists>ps. rem' = rem @ ps \<and> distinct ps \<and> (\<forall>(w, c) \<in> set ps. w \<in> V \<and> c \<in> set (cs w)))"

lemma picked_trans:
  assumes "picked cs a b V" "picked cs1 b c W" "same_sets cs cs1" "V \<inter> W = {}"
  shows "picked cs a c (V \<union> W)"
proof -
  obtain ps qs where "b = a @ ps" "distinct ps" "\<forall>(w, c) \<in> set ps. w \<in> V \<and> c \<in> set (cs w)" "c = b @ qs" "distinct qs" "\<forall>(w, c) \<in> set qs. w \<in> W \<and> c \<in> set (cs1 w)"
    using assms(1,2) by (auto simp: picked_def)
  then show ?thesis unfolding picked_def using assms(3,4) by (intro exI [where x = "ps @ qs"]) (fastforce simp: same_sets_def)
qed

lemma picked_refl: "picked cs a a V"
  by (simp add: picked_def)

lemma adds_picked: "adds rem rem' v (cs v) \<Longrightarrow> picked cs rem rem' {v} \<and> length rem' \<le> length rem + length (cs v)"
  unfolding adds_def picked_def by (auto simp: distinct_map inj_on_def)

lemma polled_refl: "fe_ok env mx s \<Longrightarrow> poll_inv (fe_ctx s) vs cs \<Longrightarrow> polled env mx vs cs s s"
  using same_sets_refl by (auto simp: polled_def)

lemma vms_le:
  assumes "poll_inv ctx vs cs" shows "length vs \<le> FLEXNIC_PL_VMST_NUM"
proof -
  have r: "vms.rep ctx vs" using assms by (simp add: poll_inv_def)
  then have d: "distinct vs" using ring_repD(1) by (auto simp: vms.rep_def)
  have "unat ` set vs \<subseteq> {..<FLEXNIC_PL_VMST_NUM}" using vms_rep_ok [OF r] by (auto simp: pvm_ok_def)
  then have "card (unat ` set vs) \<le> FLEXNIC_PL_VMST_NUM" by (metis card_lessThan card_mono finite_lessThan)
  moreover have "card (unat ` set vs) = length vs" using d by (subst card_image) (auto simp: inj_on_def distinct_card word_unat_eq_iff)
  ultimately show ?thesis by simp
qed

lemma vm_step_ok:
  assumes ok: "fe_ok env mx s" and inv: "poll_inv (fe_ctx s) vs cs" and vs: "vs = pre @ v # ws" and oob: "length oob \<le> length pre"
    and len: "length (fe_rem s) + length (cs v) \<le> BATCH_SIZE"
  shows "\<exists>qs s'. (if dc_budgets (fe_ctx s) v > 0 then do {
                 s \<leftarrow> fast_appctx_poll_fetch_active_vm env v mx True s;
                 Some (oob, s) }
               else do { c_assert (length oob < FLEXNIC_PL_VMST_NUM); Some (oob @ [v], s) }) = Some (oob @ qs, s') \<and>
    polled env mx vs cs s s' \<and> (qs = [] \<or> qs = [v]) \<and> picked cs (fe_rem s) (fe_rem s') ({v} - set qs) \<and>
    length (fe_rem s') + tot cs qs \<le> length (fe_rem s) + length (cs v)"
proof (cases "dc_budgets (fe_ctx s) v > 0")
  case True
  obtain s' where s': "fast_appctx_poll_fetch_active_vm env v mx True s = Some s'" "polled env mx vs cs s s'" "adds (fe_rem s) (fe_rem s') v (cs v)"
    using fetch_active_vm_ok [OF ok inv _ len, of True] vs by auto
  show ?thesis using True s' adds_picked [where cs = cs, OF s'(3)] by (intro exI [where x = "[]"] exI [where x = s']) simp
next
  case False
  have "length oob < FLEXNIC_PL_VMST_NUM" using vms_le [OF inv] vs oob by simp
  then show ?thesis using False polled_refl [OF ok inv] by (intro exI [where x = "[v]"] exI [where x = s]) (simp add: picked_refl c_assert_def)
qed

lemma picked_mono: "picked cs a b V \<Longrightarrow> V \<subseteq> W \<Longrightarrow> picked cs a b W"
  by (fastforce simp: picked_def)

lemma poll_inv_split:
  assumes "poll_inv ctx vs cs" "vs = pre @ v # ws"
  shows "pvm_ok v" "v \<notin> set ws" "pv_next (dc_polled_vms ctx v) = hd (ws @ [dc_act_head ctx])" "ws \<noteq> [] \<Longrightarrow> hd ws \<noteq> dc_act_head ctx"
proof -
  have r: "vms.rep ctx vs" using assms by (simp add: poll_inv_def)
  show "pvm_ok v" using vms_rep_ok [OF r, of v] assms(2) by simp
  have d: "distinct vs" using r ring_repD(1) by (auto simp: vms.rep_def)
  then show "v \<notin> set ws" using assms(2) by simp
  show "pv_next (dc_polled_vms ctx v) = hd (ws @ [dc_act_head ctx])" using vms_rep_next(1) [OF r assms(2)] .
  show "ws \<noteq> [] \<Longrightarrow> hd ws \<noteq> dc_act_head ctx" using vms_rep_next(2) [OF r assms(2)] d assms(2) by (cases ws; cases pre) auto
qed

definition vms_polled :: "fp_env \<Rightarrow> u16 \<Rightarrow> u32 list \<Rightarrow> (u32 \<Rightarrow> u32 list) \<Rightarrow> u32 list \<Rightarrow> u32 list \<Rightarrow> fetch \<Rightarrow> fetch \<Rightarrow> bool" where
  "vms_polled env mx vs cs ws qs s s' \<longleftrightarrow> polled env mx vs cs s s' \<and> distinct qs \<and> set qs \<subseteq> set ws \<and>
     picked cs (fe_rem s) (fe_rem s') (set ws - set qs) \<and> length (fe_rem s') + tot cs qs \<le> length (fe_rem s) + tot cs ws"

lemma vms_polled_Cons:
  assumes "polled env mx vs cs s s1" "qs = [] \<or> qs = [v]" "picked cs (fe_rem s) (fe_rem s1) ({v} - set qs)"
    "length (fe_rem s1) + tot cs qs \<le> length (fe_rem s) + length (cs v)"
    "same_sets cs cs1" "vms_polled env mx vs cs1 ws qs' s1 s'" "v \<notin> set ws"
  shows "vms_polled env mx vs cs (v # ws) (qs @ qs') s s'"
proof -
  have s: "polled env mx vs cs1 s1 s'" "distinct qs'" "set qs' \<subseteq> set ws" "picked cs1 (fe_rem s1) (fe_rem s') (set ws - set qs')"
      "length (fe_rem s') + tot cs qs' \<le> length (fe_rem s1) + tot cs ws"
    using assms(5,6) by (auto simp: vms_polled_def tot_same)
  have "polled env mx vs cs s s'" using assms(1,5) s(1) unfolding polled_def by (metis same_sets_trans)
  moreover have "distinct (qs @ qs')" "set (qs @ qs') \<subseteq> set (v # ws)" using assms(2,7) s(2,3) by auto
  moreover have "picked cs (fe_rem s) (fe_rem s') (set (v # ws) - set (qs @ qs'))"
    by (rule picked_mono [OF picked_trans [OF assms(3) s(4) assms(5)]]) (use assms(2,7) s(3) in auto)
  moreover have "length (fe_rem s') + tot cs (qs @ qs') \<le> length (fe_rem s) + tot cs (v # ws)" using assms(4) s(5) by simp
  ultimately show ?thesis by (simp add: vms_polled_def)
qed

lemma fetch_active_loop_ok:
  assumes "fe_ok env mx s" "poll_inv (fe_ctx s) vs cs" "vs = pre @ v # ws" "length oob \<le> length pre"
    "length (fe_rem s) + tot cs (v # ws) \<le> BATCH_SIZE"
  shows "\<exists>qs s'. fetch_active_loop env mx v oob s = Some (oob @ qs, s') \<and> vms_polled env mx vs cs (v # ws) qs s s'"
  using assms
proof (induction ws arbitrary: pre v oob s cs)
  case Nil
  obtain qs s1 where 1: "(if dc_budgets (fe_ctx s) v > 0 then do {
                 s \<leftarrow> fast_appctx_poll_fetch_active_vm env v mx True s;
                 Some (oob, s) }
               else do { c_assert (length oob < FLEXNIC_PL_VMST_NUM); Some (oob @ [v], s) }) = Some (oob @ qs, s1)"
    and p: "polled env mx vs cs s s1" "qs = [] \<or> qs = [v]" "picked cs (fe_rem s) (fe_rem s1) ({v} - set qs)"
      "length (fe_rem s1) + tot cs qs \<le> length (fe_rem s) + length (cs v)"
    using vm_step_ok [OF Nil.prems(1-4)] Nil.prems(5) by auto
  obtain cs1 where c1: "poll_inv (fe_ctx s1) vs cs1" using p(1) by (auto simp: polled_def)
  note n = poll_inv_split [OF c1 Nil.prems(3)] poll_inv_split(1) [OF Nil.prems(2,3)]
  have "fetch_active_loop env mx v oob s = Some (oob @ qs, s1)"
    using n by (subst fetch_active_loop.simps) (simp only: 1 pvm_get_def if_True bind.simps prod.case, simp)
  moreover have "distinct qs" "set qs \<subseteq> {v}" using p(2) by auto
  ultimately show ?case using p unfolding vms_polled_def by auto
next
  case (Cons w ws)
  obtain qs s1 where 1: "(if dc_budgets (fe_ctx s) v > 0 then do {
                 s \<leftarrow> fast_appctx_poll_fetch_active_vm env v mx True s;
                 Some (oob, s) }
               else do { c_assert (length oob < FLEXNIC_PL_VMST_NUM); Some (oob @ [v], s) }) = Some (oob @ qs, s1)"
    and p: "polled env mx vs cs s s1" "qs = [] \<or> qs = [v]" "picked cs (fe_rem s) (fe_rem s1) ({v} - set qs)"
      "length (fe_rem s1) + tot cs qs \<le> length (fe_rem s) + length (cs v)"
    using vm_step_ok [OF Cons.prems(1-4)] Cons.prems(5) by auto
  obtain cs1 where c1: "poll_inv (fe_ctx s1) vs cs1" "same_sets cs cs1" "fe_ok env mx s1" using p(1) by (auto simp: polled_def)
  note n = poll_inv_split [OF c1(1) Cons.prems(3)] poll_inv_split(1) [OF Cons.prems(2,3)]
  have l: "fetch_active_loop env mx v oob s = (if fe_k s1 < mx then fetch_active_loop env mx w (oob @ qs) s1 else Some (oob @ qs, s1))"
    using n by (subst fetch_active_loop.simps) (simp only: 1 pvm_get_def if_True bind.simps prod.case, simp)
  show ?case
  proof (cases "fe_k s1 < mx")
    case True
    have "vs = (pre @ [v]) @ w # ws" "length (oob @ qs) \<le> length (pre @ [v])" using Cons.prems(3,4) p(2) by auto
    moreover have "length (fe_rem s1) + tot cs1 (w # ws) \<le> BATCH_SIZE" using p(4) Cons.prems(5) tot_same [OF c1(2), of "w # ws"] by simp
    ultimately obtain qs' s' where s': "fetch_active_loop env mx w (oob @ qs) s1 = Some ((oob @ qs) @ qs', s')" "vms_polled env mx vs cs1 (w # ws) qs' s1 s'"
      using Cons.IH [OF c1(3,1)] by blast
    have "vms_polled env mx vs cs (v # w # ws) (qs @ qs') s s'" using vms_polled_Cons [OF p c1(2) s'(2) n(2)] .
    then show ?thesis using l True s'(1) by auto
  next
    case False
    have "vms_polled env mx vs cs1 (w # ws) [] s1 s1" using polled_refl [OF c1(3,1)] by (simp add: vms_polled_def picked_refl)
    then have "vms_polled env mx vs cs (v # w # ws) (qs @ []) s s1" using vms_polled_Cons [OF p c1(2) _ n(2)] by blast
    then show ?thesis using l False by auto
  qed
qed

lemma fetch_active_oob_ok:
  assumes "fe_ok env mx s" "poll_inv (fe_ctx s) vs cs" "set qs \<subseteq> set vs" "distinct qs" "length (fe_rem s) + tot cs qs \<le> BATCH_SIZE"
  shows "\<exists>s'. fetch_active_oob env mx qs s = Some s' \<and> polled env mx vs cs s s' \<and> picked cs (fe_rem s) (fe_rem s') (set qs)"
  using assms
proof (induction qs arbitrary: s cs)
  case Nil
  then show ?case using polled_refl [OF Nil.prems(1,2)] by (simp add: picked_refl)
next
  case (Cons v qs)
  have v: "pvm_ok v" using vms_rep_ok [of "fe_ctx s" vs v] Cons.prems(2,3) by (simp add: poll_inv_def)
  obtain s1 where 1: "(if fe_k s < mx then fast_appctx_poll_fetch_active_vm env v mx False s else Some s) = Some s1"
    and p: "polled env mx vs cs s s1" "picked cs (fe_rem s) (fe_rem s1) {v}" "length (fe_rem s1) \<le> length (fe_rem s) + length (cs v)"
    using fetch_active_vm_ok [OF Cons.prems(1,2), of v False] Cons.prems(3,5) polled_refl [OF Cons.prems(1,2)] adds_picked picked_refl
    by (cases "fe_k s < mx") fastforce+
  obtain cs1 where c1: "poll_inv (fe_ctx s1) vs cs1" "same_sets cs cs1" "fe_ok env mx s1" using p(1) by (auto simp: polled_def)
  obtain s' where s': "fetch_active_oob env mx qs s1 = Some s'" "polled env mx vs cs1 s1 s'" "picked cs1 (fe_rem s1) (fe_rem s') (set qs)"
    using Cons.IH [OF c1(3,1)] Cons.prems(3-5) p(3) tot_same [OF c1(2), of qs] by auto
  have "polled env mx vs cs s s'" using p(1) c1(2) s'(2) unfolding polled_def by (metis same_sets_trans)
  moreover have "picked cs (fe_rem s) (fe_rem s') (set (v # qs))"
    by (rule picked_mono [OF picked_trans [OF p(2) s'(3) c1(2)]]) (use Cons.prems(4) in auto)
  moreover have "fetch_active_oob env mx (v # qs) s = Some s'" using v s'(1) 1 by (simp add: pvm_get_def)
  ultimately show ?case by blast
qed

section \<open>One round of polling\<close>

lemma fetch_active_ok:
  assumes q: "txqs_ok env fa (dc_id ctx)" and inv: "poll_inv ctx vs cs" and ne: "vs \<noteq> []" and len: "tot cs vs \<le> BATCH_SIZE" and mx: "unat mx \<le> BATCH_SIZE"
  shows "\<exists>s. fast_appctx_poll_fetch_active env fa ctx mx = Some s \<and> fe_ok env mx s \<and> (\<exists>cs'. poll_inv (fe_ctx s) vs cs' \<and> same_sets cs cs') \<and>
    fa_mem (fe_fa s) = fa_mem fa \<and> picked cs [] (fe_rem s) (set vs)"
proof -
  let ?s = "\<lparr>fe_fa = fa, fe_ctx = ctx, fe_k = 0, fe_total = 0, fe_rem = [], fe_aqes = []\<rparr>"
  obtain v ws where vs: "vs = v # ws" using ne by (cases vs) auto
  have h: "dc_act_head ctx = v" using vms_rep_next(2) [of ctx vs "[]" v ws] inv vs by (simp add: poll_inv_def)
  have ok: "fe_ok env mx ?s" using q mx by (simp add: fe_ok_def)
  obtain qs s1 where s1: "fetch_active_loop env mx v [] ?s = Some (qs, s1)" "vms_polled env mx vs cs vs qs ?s s1"
    using fetch_active_loop_ok [OF ok, of vs cs "[]" v ws "[]"] inv vs len by auto
  have p: "polled env mx vs cs ?s s1" "distinct qs" "set qs \<subseteq> set vs" "picked cs [] (fe_rem s1) (set vs - set qs)" "length (fe_rem s1) + tot cs qs \<le> BATCH_SIZE"
    using s1(2) len by (simp_all add: vms_polled_def)
  obtain cs1 where c1: "poll_inv (fe_ctx s1) vs cs1" "same_sets cs cs1" "fe_ok env mx s1" using p(1) by (auto simp: polled_def)
  obtain s2 where s2: "fetch_active_oob env mx qs s1 = Some s2" "polled env mx vs cs1 s1 s2" "picked cs1 (fe_rem s1) (fe_rem s2) (set qs)"
    using fetch_active_oob_ok [OF c1(3,1) p(3,2)] p(5) tot_same [OF c1(2), of qs] by auto
  show ?thesis
  proof (cases "fe_k s1 = 0")
    case True
    have "picked cs [] (fe_rem s2) (set vs)" by (rule picked_mono [OF picked_trans [OF p(4) s2(3) c1(2)]]) (use p(3) in auto)
    moreover have "\<exists>cs'. poll_inv (fe_ctx s2) vs cs' \<and> same_sets cs cs'" using s2(2) c1(2) same_sets_trans unfolding polled_def by blast
    ultimately show ?thesis using True s1(1) s2(1,2) p(1) h by (simp add: fast_appctx_poll_fetch_active_def polled_def)
  next
    case False
    then show ?thesis using s1(1) p(1) h picked_mono [OF p(4), of "set vs"] by (auto simp: fast_appctx_poll_fetch_active_def polled_def)
  qed
qed

lemma poll_inv_rot_vms:
  assumes "poll_inv ctx vs cs" "vs \<noteq> []"
  shows "\<exists>ctx'. rotate_vms ctx = Some ctx' \<and> poll_inv ctx' (rotate1 vs) cs"
proof -
  obtain ctx' where c: "rotate_vms ctx = Some ctx'" "vms.rep ctx' (rotate1 vs)" using vms.rot_list [of ctx vs] assms by (auto simp: poll_inv_def)
  then have "dc_polled_vms ctx' = dc_polled_vms ctx" by (auto simp: rotate_vms_def pvm_get_def split: if_splits)
  then show ?thesis using c assms(1) by (auto simp: poll_inv_def)
qed

text \<open>The part of a round that touches the rings: fetch, move the ring of VMs on, take out the idle contexts.\<close>

definition active_round :: "fp_env \<Rightarrow> fastpath \<Rightarrow> dataplane_context \<Rightarrow> u16 \<Rightarrow> (fetch \<times> dataplane_context) option" where
  "active_round env fa ctx mx = do {
     s \<leftarrow> fast_appctx_poll_fetch_active env fa ctx mx;
     ctx \<leftarrow> rotate_vms (fe_ctx s);
     ctx \<leftarrow> remove_ctxs_from_active ctx (fe_rem s);
     Some (s, ctx) }"

section \<open>Examples\<close>

text \<open>One VM with \<open>n\<close> active contexts, all of them idle for as long as the counter goes.\<close>

definition demo_ring :: "u32 \<Rightarrow> dataplane_context" where
  "demo_ring n = demo_ctx\<lparr>dc_act_head := 0, dc_act_tail := 0, dc_polled_vms := (\<lambda>v.
     \<lparr>pv_id = v, pv_next = 0, pv_prev = 0, pv_flags = (if v = 0 then FLAG_ACTIVE else 0), pv_poll_next_ctx = 0,
      pv_act_ctx_head = (if v = 0 then 0 else IDXLIST_INVAL), pv_act_ctx_tail = (if v = 0 then n - 1 else IDXLIST_INVAL),
      pv_ctxs = (\<lambda>c. \<lparr>pc_id = c, pc_vmid = v, pc_next = (if c + 1 = n then 0 else c + 1), pc_prev = (if c = 0 then n - 1 else c - 1),
        pc_flags = (if v = 0 \<and> c < n then FLAG_ACTIVE else 0), pc_null_rounds = MAX_NULL_ROUNDS\<rparr>)\<rparr>)\<rparr>"

definition demo_ids :: "nat \<Rightarrow> u32 \<Rightarrow> u32 list" where
  "demo_ids n v = (if v = 0 then map of_nat [0..<n] else [])"

lemma demo_ids_set: "n \<le> 32 \<Longrightarrow> c \<in> set (demo_ids n 0) \<longleftrightarrow> unat c < n"
  by (auto simp: demo_ids_def unat_of_nat image_iff take_bit_eq_mod intro!: bexI [where x = "unat c"])

lemma demo_upt: "[0..<2] = [0, 1 :: nat]" "[0..<17] = [0, 1, 2, 3, 4, 5, 6, 7, 8, 9, 10, 11, 12, 13, 14, 15, 16 :: nat]"
  by code_simp+

lemma demo_linked:
  assumes "n = 2 \<or> n = 17" shows "linked (ctx_ring (dc_polled_vms (demo_ring (of_nat n)) 0)) (demo_ids n 0 @ [0])"
  using assms by (elim disjE) (simp_all add: demo_ids_def demo_upt demo_ring_def ctx_ring_def)

lemma demo_poll_inv:
  assumes n: "n = 2 \<or> n = 17" shows "poll_inv (demo_ring (of_nat n)) [0] (demo_ids n)"
proof -
  let ?r = "demo_ring (of_nat n)"
  have m: "c < of_nat n \<longleftrightarrow> unat c < n" for c :: u32 using n by (auto simp: word_less_nat_alt)
  have f: "is_active FLAG_ACTIVE" by (simp add: is_active_def FLAG_ACTIVE_def)
  have d: "distinct (demo_ids n 0)" "demo_ids n 0 \<noteq> []" "hd (demo_ids n 0) = 0" "last (demo_ids n 0) = of_nat n - 1"
    using n by (elim disjE; simp add: demo_ids_def demo_upt)+
  have ok: "c \<in> set (demo_ids n 0) \<longleftrightarrow> unat c < n" for c using demo_ids_set [of n c] n by auto
  have a: "rg_act (ctx_ring (dc_polled_vms ?r 0)) c \<longleftrightarrow> c \<in> set (demo_ids n 0)" for c
    using n f by (auto simp: ctx_ring_def demo_ring_def ok m pctx_ok_def FLEXNIC_PL_APPST_CTX_NUM_def)
  have lt: "unat c < 32" if "c \<in> set (demo_ids n 0)" for c using that ok [of c] n by linarith
  then have p: "list_all pctx_ok (demo_ids n 0)" by (force simp: list_all_iff pctx_ok_def FLEXNIC_PL_APPST_CTX_NUM_def)
  then have "IDXLIST_INVAL \<notin> set (demo_ids n 0)" using ok_inval(1) by (auto simp: list_all_iff)
  with p have "ctxs.rep (dc_polled_vms ?r 0) (demo_ids n 0)"
    using d a demo_linked [OF n] by (simp add: ctxs.rep_def ring_rep_def) (simp add: ctx_ring_def demo_ring_def)
  moreover have "ctxs.rep (dc_polled_vms ?r v) (demo_ids n v)" if "v \<noteq> 0" for v
    using that by (auto simp: ctxs.rep_def ring_rep_def ctx_ring_def demo_ring_def demo_ids_def)
  ultimately have "ctxs.rep (dc_polled_vms ?r v) (demo_ids n v)" for v by (cases "v = 0") auto
  moreover have "vms.rep ?r [0]" using f
    by (auto simp: vms.rep_def ring_rep_def vm_ring_def demo_ring_def pvm_ok_def FLEXNIC_PL_VMST_NUM_def IDXLIST_INVAL_def)
  moreover have "demo_ids n v \<noteq> [] \<longleftrightarrow> v = 0" for v using d(2) by (auto simp: demo_ids_def)
  moreover have "unat c < FLEXNIC_PL_APPCTX_NUM" if "c \<in> set (demo_ids n v)" for c v
    using that lt [of c] by (cases "v = 0") (simp_all add: FLEXNIC_PL_APPCTX_NUM_def demo_ids_def)
  ultimately show ?thesis by (auto simp: poll_inv_def demo_ring_def)
qed

definition demo_appctx :: flextcp_pl_appctx where
  "demo_appctx = \<lparr>ac_rx_base = 0, ac_tx_base = 0, ac_rx_len = 0, ac_tx_len = 0, ac_vm_id = 0, ac_last_ts = 0,
     ac_rx_head = 0, ac_tx_head = 0, ac_rx_avail = 0\<rparr>"

definition demo_fa :: fastpath where
  "demo_fa = \<lparr>fa_mem = demo_fp, fa_appctx = (\<lambda>core v c. demo_appctx), fa_kctx = (\<lambda>core. demo_appctx), fa_vm_ids = [0], fa_ctx_ids = (\<lambda>v. [0])\<rparr>"

lemma demo_txqs: "txqs_ok demo_env demo_fa (dc_id (demo_ring n))"
  using demo_conn_ok(3) by (simp add: txqs_ok_def txq_ok_def demo_fa_def demo_appctx_def demo_ring_def demo_ctx_def FLEXNIC_PL_APPST_CTX_MCS_def)

text \<open>Idle contexts on rings with more than one batch of them: each is written to the array, past its end.\<close>

lemma demo_null_round: "ctx_upd (demo_ring n) 0 c null_round = (if pctx_ok c then Some (demo_ring n) else None)"
proof -
  let ?v = "dc_polled_vms (demo_ring n) 0"
  have "null_round (pv_ctxs ?v c) = pv_ctxs ?v c" by (simp add: null_round_def demo_ring_def)
  then have "pctx_put ?v c (null_round (pv_ctxs ?v c)) = ?v" by (simp add: pctx_put_def)
  moreover have "pvm_put (demo_ring n) 0 ?v = demo_ring n" by (simp add: pvm_put_def)
  ultimately show ?thesis by (simp add: ctx_upd_def pvm_get_def pctx_get_def pvm_ok_def FLEXNIC_PL_VMST_NUM_def)
qed

lemma demo_idle:
  assumes "unat c < 17" "fe_fa s = demo_fa" "fe_ctx s = demo_ring n" "fe_k s = 0"
  shows "fast_appctx_poll_fetch_active_ctx demo_env 0 c 16 spend s =
    (if length (fe_rem s) < BATCH_SIZE then Some (s\<lparr>fe_rem := fe_rem s @ [(0, c)]\<rparr>) else None)"
proof -
  have ok: "pvm_ok 0" "pctx_ok c" using assms(1) by (simp_all add: pvm_ok_def pctx_ok_def FLEXNIC_PL_VMST_NUM_def FLEXNIC_PL_APPST_CTX_NUM_def)
  have c: "pc_id (pv_ctxs (dc_polled_vms (demo_ring n) 0) c) = c" "pc_vmid (pv_ctxs (dc_polled_vms (demo_ring n) 0) c) = 0"
      "pc_null_rounds (null_round (pv_ctxs (dc_polled_vms (demo_ring n) 0) c)) = MAX_NULL_ROUNDS"
    by (simp_all add: demo_ring_def null_round_def)
  have f: "fast_appctx_poll_fetch demo_env demo_fa (demo_ring n) c 0 spend = Some (None, demo_fa, demo_ring n)"
    using assms(1) by (simp add: fast_appctx_poll_fetch_def actx_get_def actx_ok_def demo_fa_def demo_appctx_def demo_ring_def demo_ctx_def
        FLEXNIC_PL_APPST_CTX_MCS_def FLEXNIC_PL_VMST_NUM_def FLEXNIC_PL_APPCTX_NUM_def)
  have s: "s\<lparr>fe_fa := demo_fa\<rparr> = s" "s\<lparr>fe_ctx := demo_ring n\<rparr> = s" using assms(2,3) by (metis fetch.surjective fetch.update_convs(1,2))+
  have "fetch_active_ctx_loop demo_env 0 c 16 spend (Suc m) s = (if length (fe_rem s) < BATCH_SIZE then Some (s\<lparr>fe_rem := fe_rem s @ [(0, c)]\<rparr>) else None)" for m
    using ok assms(4) by (simp add: assms(2,3) pvm_get_def pctx_get_def c f s demo_null_round c_assert_def)
  from this [of 15] show ?thesis by (simp add: fast_appctx_poll_fetch_active_ctx_def BATCH_SIZE_def)
qed

lemma demo_overflow_loop:
  assumes "n + length (fe_rem s) = BATCH_SIZE" "c = of_nat (length (fe_rem s))" "fe_fa s = demo_fa" "fe_ctx s = demo_ring 17" "fe_k s = 0"
  shows "fetch_active_vm_loop demo_env 0 16 spend c s = None"
  using assms
proof (induction n arbitrary: c s)
  case 0
  then show ?case by (subst fetch_active_vm_loop.simps) (simp add: demo_idle BATCH_SIZE_def)
next
  case (Suc n)
  let ?s = "s\<lparr>fe_rem := fe_rem s @ [(0, c)]\<rparr>"
  have l: "length (fe_rem s) < 16" using Suc.prems(1) by (simp add: BATCH_SIZE_def)
  then have u: "unat c = length (fe_rem s)" using Suc.prems(2) by (simp add: unat_of_nat take_bit_eq_mod)
  have c: "c + 1 \<noteq> 17" "c + 1 \<noteq> 0" using u l by (auto simp: word_unat_eq_iff unat_add_no_wrap)
  have i: "fast_appctx_poll_fetch_active_ctx demo_env 0 c 16 spend s = Some ?s" using demo_idle [OF _ Suc.prems(3-5), of c spend] u l by (simp add: BATCH_SIZE_def)
  have ih: "fetch_active_vm_loop demo_env 0 16 spend (c + 1) ?s = None" by (rule Suc.IH) (use Suc.prems in simp_all)
  have ok: "pvm_ok 0" "pctx_ok c" using u l by (simp_all add: pvm_ok_def pctx_ok_def FLEXNIC_PL_VMST_NUM_def FLEXNIC_PL_APPST_CTX_NUM_def)
  have "pc_next (pv_ctxs (dc_polled_vms (demo_ring 17) 0) c) = c + 1" "pv_act_ctx_head (dc_polled_vms (demo_ring 17) 0) = 0" using c by (simp_all add: demo_ring_def)
  then show ?case using ok c Suc.prems(4,5) by (subst fetch_active_vm_loop.simps) (simp add: i ih pvm_get_def pctx_get_def)
qed

section \<open>Properties\<close>

text \<open>C11: As long as no more contexts are active than fit one batch, a round of polling over the active contexts
  returns: the loops over the rings end, the entries fetched and the idle contexts found fit their arrays, no more
  entries are fetched than there are buffers, shared memory does not change, and afterwards the rings of VMs and
  contexts are consistent again and hold exactly the contexts that were not found idle.\<close>

theorem fast_appctx_poll_active_ok:
  assumes "txqs_ok env fa (dc_id ctx)" "poll_inv ctx vs cs" "vs \<noteq> []" "tot cs vs \<le> BATCH_SIZE" "unat mx \<le> BATCH_SIZE"
  shows "\<exists>s ctx' vs' cs'. active_round env fa ctx mx = Some (s, ctx') \<and> length (fe_aqes s) = unat (fe_k s) \<and> fe_k s \<le> mx \<and>
    fa_mem (fe_fa s) = fa_mem fa \<and> txqs_ok env (fe_fa s) (dc_id (fe_ctx s)) \<and> poll_inv ctx' vs' cs' \<and>
    (\<forall>v. pvm_ok v \<longrightarrow> set (cs' v) = {c \<in> set (cs v). (v, c) \<notin> set (fe_rem s)})"
proof -
  obtain s cs1 where s: "fast_appctx_poll_fetch_active env fa ctx mx = Some s" "fe_ok env mx s" "poll_inv (fe_ctx s) vs cs1" "same_sets cs cs1"
      "fa_mem (fe_fa s) = fa_mem fa" "picked cs [] (fe_rem s) (set vs)"
    using fetch_active_ok [OF assms] by blast
  obtain ctx1 where c1: "rotate_vms (fe_ctx s) = Some ctx1" "poll_inv ctx1 (rotate1 vs) cs1" using poll_inv_rot_vms [OF s(3) assms(3)] by blast
  have r: "distinct (fe_rem s)" "\<forall>(v, c) \<in> set (fe_rem s). pvm_ok v \<and> c \<in> set (cs1 v)"
    using s(4,6) vms_rep_ok [of ctx vs] assms(2) by (fastforce simp: picked_def same_sets_def poll_inv_def)+
  obtain ctx' vs' cs' where "remove_ctxs_from_active ctx1 (fe_rem s) = Some ctx'" "poll_inv ctx' vs' cs'"
      "\<forall>v. set (cs' v) = {c \<in> set (cs1 v). (v, c) \<notin> set (fe_rem s)} \<or> \<not> pvm_ok v"
    using remove_ctxs_ok [OF c1(2) r] by blast
  then show ?thesis using s c1(1) by (intro exI [of _ s] exI [of _ ctx']) (auto simp: active_round_def fe_ok_def same_sets_def)
qed

theorem fast_appctx_poll_active_ok_witness:
  "\<exists>s ctx' vs' cs'. active_round demo_env demo_fa (demo_ring 2) 16 = Some (s, ctx') \<and> poll_inv ctx' vs' cs'"
proof -
  have "poll_inv (demo_ring 2) [0] (demo_ids 2)" using demo_poll_inv [of 2] by simp
  moreover have "tot (demo_ids 2) [0] \<le> BATCH_SIZE" by (simp add: demo_ids_def demo_upt BATCH_SIZE_def)
  ultimately show ?thesis using fast_appctx_poll_active_ok [OF demo_txqs, of 2 "[0]" "demo_ids 2" 16] by (auto simp: BATCH_SIZE_def)
qed


end
