(* ===== verification/Spec2Isabelle.thy ===== *)
theory Spec2Isabelle
  imports Circ Channel Packetmem Tcp_Common Qman_Props Flow_Props Nicif_Props Appctx_Poll
begin

text \<open>
  Verification of TAS, a TCP acceleration service with virtual machines (\<open>src/\<close>).
\<close>

end
